(* ===== verification/TC_Prelude.thy ===== *)
theory TC_Prelude
  imports Main "HOL-Library.Word" "HOL-Library.Monad_Syntax"
begin

text \<open>
  Shared vocabulary of the development: the machine integer types of
  \<open>common/types.hpp\<close>, the sentinel of \<open>common/constants.hpp\<close>, the assertion macro of
  \<open>common/assert.hpp\<close>, and generic lemmas on option values, words and lists.

  Effects are modelled by explicit state passing in the option monad. \<open>None\<close> stands for a
  run that has no defined result: a \<open>TRADECORE_ASSERT\<close> that does not hold, an access to memory
  that holds no object, or a loop that does not end. Everything the code reports as a value
  (a null pointer, a sentinel index, \<open>false\<close>, an empty optional, a status) is a value here.
\<close>

section \<open>Machine integers\<close>

type_synonym u8 = "8 word"
type_synonym u16 = "16 word"
type_synonym u32 = "32 word"
type_synonym u64 = "64 word"

named_theorems tc_simps \<open>rewrite rules for symbolic execution of the model\<close>

section \<open>Constants and assertions\<close>

definition kInvalidPoolIndex :: u32 where
  "kInvalidPoolIndex = - 1"

definition kPriceMultiplier :: u32 where
  "kPriceMultiplier = 10000"

definition tc_assert :: "bool \<Rightarrow> unit option" where
  "tc_assert b = (if b then Some () else None)"

lemma tc_assert_simps [simp]:
  "tc_assert True = Some ()"
  "tc_assert False = None"
  by (simp_all add: tc_assert_def)

lemma tc_assert_eq_Some [simp]: "tc_assert b = Some u \<longleftrightarrow> b"
  by (simp add: tc_assert_def)

text \<open>An index that may be absent, as the code stores it: the sentinel stands for absence.\<close>

definition or_invalid :: "u32 option \<Rightarrow> u32" where
  "or_invalid m = (case m of None \<Rightarrow> kInvalidPoolIndex | Some i \<Rightarrow> i)"

lemma or_invalid_simps [simp]: "or_invalid None = kInvalidPoolIndex" "or_invalid (Some i) = i"
  by (simp_all add: or_invalid_def)

section \<open>Generic lemmas\<close>

subsection \<open>Words as list indices\<close>

lemma unat_inj_iff: "unat (x :: 'a::len word) = unat y \<longleftrightarrow> x = y"
  by (simp add: word_unat_eq_iff)

lemma unat_kInvalidPoolIndex: "unat kInvalidPoolIndex = 2 ^ 32 - 1"
  by (simp add: kInvalidPoolIndex_def unsigned_minus_1_eq_mask mask_eq_exp_minus_1)

lemma unat_less_kInvalid:
  assumes "unat i < n" "n < 2 ^ 32"
  shows "i \<noteq> kInvalidPoolIndex"
  using assms by (auto simp: unat_kInvalidPoolIndex)

lemma of_nat_unat_word: "word_of_nat (unat (x :: 'a::len word)) = x"
  by simp

lemma unat_of_nat_u32 [simp]: "n < 2 ^ 32 \<Longrightarrow> unat (word_of_nat n :: u32) = n"
  by (simp add: unat_of_nat take_bit_eq_mod)

lemma unat_of_nat_u64 [simp]: "n < 2 ^ 64 \<Longrightarrow> unat (word_of_nat n :: u64) = n"
  by (simp add: unat_of_nat take_bit_eq_mod)

lemma unat_ucast_u32_u64 [simp]: "unat (ucast (x :: u32) :: u64) = unat x"
proof -
  have "unat x < 2 ^ 32" using unsigned_less [of x] by simp
  then show ?thesis by (simp add: unsigned_ucast_eq take_bit_nat_eq_self)
qed

lemma unat_plus_one_u64:
  assumes "unat (x :: u64) < 2 ^ 64 - 1"
  shows "unat (x + 1) = Suc (unat x)"
  using assms by (simp add: unat_word_ariths)

lemma unat_plus_one_u32:
  assumes "unat (x :: u32) < 2 ^ 32 - 1"
  shows "unat (x + 1) = Suc (unat x)"
  using assms by (simp add: unat_word_ariths)

lemma unat_minus_one_pos:
  assumes "0 < unat (x :: 'a::len word)"
  shows "unat (x - 1) = unat x - 1"
  using assms by (metis gr0_conv_Suc not_gr_zero unat_0 unat_minus_one)

subsection \<open>Option binds\<close>

lemma bind_Some_iff: "(Option.bind m f = Some y) \<longleftrightarrow> (\<exists>x. m = Some x \<and> f x = Some y)"
  by (cases m) auto

lemma map_upd_eq_iff: "(m(k \<mapsto> v)) j = Some w \<longleftrightarrow> (if j = k then w = v else m j = Some w)"
  by auto

lemma option_eqI: "(\<And>x. a = Some x \<longleftrightarrow> b = Some x) \<Longrightarrow> a = b"
  by (metis option.exhaust)

end
