(* ===== verification/TC_Object_Pool.thy ===== *)
theory TC_Object_Pool
  imports TC_Prelude
begin

text \<open>
  \<open>memory/object_pool.hpp\<close>: a fixed array of slots with an intrusive free list. A slot is the
  union of an object and the index of the next free slot; which member is active is explicit
  here. A pointer into the pool is the index of its slot, so \<open>index_of\<close> is the identity, and
  a null pointer is \<open>None\<close>. The second half of the theory shows that the pool implements a
  finite map from live indices to objects, the contract \<open>slot_pool\<close> its clients
  (\<open>OrderPool\<close>, \<open>PriceLevelPool\<close>) rely on.
\<close>

section \<open>The pool\<close>

datatype 'a slot = Free u32 | Obj 'a

record 'a object_pool =
  slots :: "'a slot list"
  free_head :: u32
  active_count :: u64

definition capacity :: "'a object_pool \<Rightarrow> nat" where
  "capacity p = length (slots p)"

text \<open>
  \<open>reset\<close>: the loop runs a 32-bit index up to \<open>Capacity - 1\<close>; it is only meaningful for a
  capacity that is not zero (\<open>Capacity - 1\<close> wraps) and that 32 bits can count.
\<close>

definition pool_reset :: "'a object_pool \<Rightarrow> 'a object_pool option" where
  "pool_reset p = do {
     let n = length (slots p);
     tc_assert (0 < n \<and> n \<le> 2 ^ 32);
     let s = fold (\<lambda>i s. s[i := Free (word_of_nat (i + 1))]) [0 ..< n - 1] (slots p);
     let s = s[n - 1 := Free kInvalidPoolIndex];
     Some (p\<lparr>slots := s, free_head := 0, active_count := 0\<rparr>)
   }"

definition pool_new :: "nat \<Rightarrow> 'a object_pool option" where
  "pool_new n = pool_reset \<lparr>slots = replicate n (Free 0), free_head = 0, active_count = 0\<rparr>"

text \<open>Reading \<open>*at(idx)\<close>: the index must be in range and the slot must hold an object.\<close>

definition pool_at :: "'a object_pool \<Rightarrow> u32 \<Rightarrow> 'a option" where
  "pool_at p i = (if unat i < length (slots p)
     then (case slots p ! unat i of Obj x \<Rightarrow> Some x | Free _ \<Rightarrow> None) else None)"

text \<open>Writing through the pointer \<open>at(idx)\<close>.\<close>

definition pool_set :: "'a object_pool \<Rightarrow> u32 \<Rightarrow> 'a \<Rightarrow> 'a object_pool" where
  "pool_set p i x = p\<lparr>slots := (slots p)[unat i := Obj x]\<rparr>"

definition pool_write :: "'a object_pool \<Rightarrow> u32 \<Rightarrow> 'a \<Rightarrow> 'a object_pool option" where
  "pool_write p i x = (case pool_at p i of None \<Rightarrow> None | Some _ \<Rightarrow> Some (pool_set p i x))"

definition pool_update :: "'a object_pool \<Rightarrow> u32 \<Rightarrow> ('a \<Rightarrow> 'a) \<Rightarrow> 'a object_pool option" where
  "pool_update p i f = do { x \<leftarrow> pool_at p i; pool_write p i (f x) }"

text \<open>\<open>allocate()\<close>: \<open>dflt\<close> is the value-initialised object \<open>T{}\<close>.\<close>

definition pool_allocate :: "'a \<Rightarrow> 'a object_pool \<Rightarrow> (u32 option \<times> 'a object_pool) option" where
  "pool_allocate dflt p =
     (if free_head p = kInvalidPoolIndex then Some (None, p)
      else do {
        let idx = free_head p;
        tc_assert (unat idx < length (slots p));
        next \<leftarrow> (case slots p ! unat idx of Free n \<Rightarrow> Some n | Obj _ \<Rightarrow> None);
        Some (Some idx, p\<lparr>slots := (slots p)[unat idx := Obj dflt], free_head := next,
                          active_count := active_count p + 1\<rparr>)
      })"

text \<open>
  \<open>deallocate(ptr)\<close>, for the pointer to the slot \<open>idx\<close>, which is not null. The code asserts that the
  pointer lies in the array and nothing else: whether the slot holds an object is not looked at, so
  that giving a slot back twice links it to itself (\<open>object_pool_deallocate\<close> below). Destroying the
  object has no effect: levels and orders have trivial destructors.
\<close>

definition pool_deallocate :: "u32 \<Rightarrow> 'a object_pool \<Rightarrow> 'a object_pool option" where
  "pool_deallocate idx p = do {
     tc_assert (unat idx < length (slots p));
     Some (p\<lparr>slots := (slots p)[unat idx := Free (free_head p)], free_head := idx,
             active_count := active_count p - 1\<rparr>)
   }"

section \<open>Well-formed pools\<close>

fun free_chain :: "'a slot list \<Rightarrow> u32 \<Rightarrow> u32 list \<Rightarrow> bool" where
  "free_chain s i [] = (i = kInvalidPoolIndex)"
| "free_chain s i (x # xs) =
     (x = i \<and> unat i < length s \<and> (\<exists>n. s ! unat i = Free n \<and> free_chain s n xs))"

definition pool_wf :: "'a object_pool \<Rightarrow> bool" where
  "pool_wf p \<longleftrightarrow> length (slots p) < 2 ^ 32 \<and>
     (\<exists>fs. free_chain (slots p) (free_head p) fs \<and> distinct fs \<and>
           (\<forall>i < length (slots p). (\<exists>n. slots p ! i = Free n) \<longleftrightarrow> word_of_nat i \<in> set fs) \<and>
           unat (active_count p) + length fs = length (slots p))"

lemma pool_wfI:
  assumes "length (slots p) < 2 ^ 32" "free_chain (slots p) (free_head p) fs" "distinct fs"
    "\<And>i. i < length (slots p) \<Longrightarrow> (\<exists>n. slots p ! i = Free n) \<longleftrightarrow> word_of_nat i \<in> set fs"
    "unat (active_count p) + length fs = length (slots p)"
  shows "pool_wf p"
  using assms unfolding pool_wf_def by blast

lemma free_chain_bounds: "free_chain s i fs \<Longrightarrow> x \<in> set fs \<Longrightarrow> unat x < length s"
  by (induction fs arbitrary: i) auto

lemma free_chain_Free: "free_chain s i fs \<Longrightarrow> x \<in> set fs \<Longrightarrow> \<exists>n. s ! unat x = Free n"
  by (induction fs arbitrary: i) auto

lemma free_chain_frame:
  "free_chain s i fs \<Longrightarrow> word_of_nat k \<notin> set fs \<Longrightarrow> k < 2 ^ 32 \<Longrightarrow>
     free_chain (s[k := x]) i fs"
proof (induction fs arbitrary: i)
  case (Cons a fs)
  then have "unat i \<noteq> k"
    by (metis free_chain.simps(2) list.set_intros(1) of_nat_unat_word)
  with Cons show ?case by auto
qed simp

section \<open>The pool as a finite map\<close>

lemma pool_at_set [simp]:
  assumes "i \<in> dom (pool_at p)"
  shows "pool_at (pool_set p i x) = (pool_at p)(i \<mapsto> x)"
proof
  fix j
  have "unat i < length (slots p)"
    using assms by (auto simp: pool_at_def split: if_splits)
  then show "pool_at (pool_set p i x) j = ((pool_at p)(i \<mapsto> x)) j"
    by (cases "j = i") (auto simp: pool_at_def pool_set_def unat_inj_iff nth_list_update)
qed

lemma pool_at_set_Some [simp]:
  "pool_at p i = Some y \<Longrightarrow> pool_at (pool_set p i x) = (pool_at p)(i \<mapsto> x)"
  by (rule pool_at_set) auto

lemma pool_set_twice [simp]: "pool_set (pool_set p i x) i y = pool_set p i y"
  by (simp add: pool_set_def)

lemma pool_write_eq: "i \<in> dom (pool_at p) \<Longrightarrow> pool_write p i x = Some (pool_set p i x)"
  by (auto simp: pool_write_def)

lemma pool_update_eq [simp]:
  "pool_at p i = Some x \<Longrightarrow> pool_update p i f = Some (pool_set p i (f x))"
  by (simp add: pool_update_def pool_write_eq domIff)

lemma pool_wf_set [simp]:
  assumes "i \<in> dom (pool_at p)" "pool_wf p"
  shows "pool_wf (pool_set p i x)"
proof -
  obtain y where i: "unat i < length (slots p)" and y: "slots p ! unat i = Obj y"
    using assms(1) by (auto simp: pool_at_def split: if_splits slot.splits)
  obtain fs where len: "length (slots p) < 2 ^ 32"
    and fs: "free_chain (slots p) (free_head p) fs" "distinct fs"
      "\<forall>i < length (slots p). (\<exists>n. slots p ! i = Free n) \<longleftrightarrow> word_of_nat i \<in> set fs"
      "unat (active_count p) + length fs = length (slots p)"
    using assms(2) by (auto simp: pool_wf_def)
  have "word_of_nat (unat i) \<notin> set fs"
    using fs(3) i y by (metis slot.distinct(1))
  then have "free_chain ((slots p)[unat i := Obj x]) (free_head p) fs"
    using fs(1) i len by (simp add: free_chain_frame)
  moreover have "\<forall>k < length (slots p). (\<exists>n. (slots p)[unat i := Obj x] ! k = Free n)
      \<longleftrightarrow> word_of_nat k \<in> set fs"
    using fs(3) i y by (auto simp: nth_list_update)
  ultimately show ?thesis
    using fs len unfolding pool_wf_def pool_set_def by auto
qed

lemma capacity_set [simp]: "capacity (pool_set p i x) = capacity p"
  by (simp add: capacity_def pool_set_def)

lemma dom_pool_set [simp]: "i \<in> dom (pool_at p) \<Longrightarrow> dom (pool_at (pool_set p i x)) = dom (pool_at p)"
  by auto

lemma pool_at_not_invalid:
  assumes "pool_wf p" "pool_at p i = Some x"
  shows "i \<noteq> kInvalidPoolIndex"
  using assms unat_less_kInvalid
  by (auto simp: pool_wf_def pool_at_def split: if_splits)

lemma dom_pool_at_eq:
  "dom (pool_at p) = {i. unat i < length (slots p) \<and> (\<exists>x. slots p ! unat i = Obj x)}"
  by (auto simp: pool_at_def dom_def split: if_splits) (auto split: slot.splits)

subsection \<open>Allocation and deallocation\<close>

lemma pool_wf_free_head:
  assumes "pool_wf p" "free_head p \<noteq> kInvalidPoolIndex"
  obtains n where "unat (free_head p) < length (slots p)"
    "slots p ! unat (free_head p) = Free n"
proof -
  obtain fs where "free_chain (slots p) (free_head p) fs"
    using assms(1) by (auto simp: pool_wf_def)
  with assms(2) that show ?thesis by (cases fs) auto
qed

text \<open>The allocated slot, as a function of the pool.\<close>

definition pool_alloc :: "'a \<Rightarrow> 'a object_pool \<Rightarrow> 'a object_pool" where
  "pool_alloc dflt p = p\<lparr>slots := (slots p)[unat (free_head p) := Obj dflt],
     free_head := (case slots p ! unat (free_head p) of Free n \<Rightarrow> n | Obj _ \<Rightarrow> kInvalidPoolIndex),
     active_count := active_count p + 1\<rparr>"

lemma pool_allocate_eq:
  assumes "pool_wf p"
  shows "pool_allocate dflt p =
    (if free_head p = kInvalidPoolIndex then Some (None, p)
     else Some (Some (free_head p), pool_alloc dflt p))"
proof (cases "free_head p = kInvalidPoolIndex")
  case False
  with assms obtain n where "unat (free_head p) < length (slots p)"
    "slots p ! unat (free_head p) = Free n" by (rule pool_wf_free_head)
  with False show ?thesis by (simp add: pool_allocate_def pool_alloc_def Let_def)
qed (simp add: pool_allocate_def)

lemma pool_at_alloc:
  assumes "pool_wf p" "free_head p \<noteq> kInvalidPoolIndex"
  shows "pool_at (pool_alloc dflt p) = (pool_at p)(free_head p \<mapsto> dflt)"
proof
  fix j
  obtain n where "unat (free_head p) < length (slots p)"
    "slots p ! unat (free_head p) = Free n"
    using assms by (rule pool_wf_free_head)
  then show "pool_at (pool_alloc dflt p) j = ((pool_at p)(free_head p \<mapsto> dflt)) j"
    by (auto simp: pool_at_def pool_alloc_def unat_inj_iff nth_list_update)
qed

lemma free_head_not_live:
  assumes "pool_wf p"
  shows "pool_at p (free_head p) = None"
proof (cases "free_head p = kInvalidPoolIndex")
  case True
  with assms show ?thesis using pool_at_not_invalid by fastforce
next
  case False
  with assms show ?thesis by (auto elim: pool_wf_free_head simp: pool_at_def)
qed

lemma pool_wf_alloc:
  assumes "pool_wf p" "free_head p \<noteq> kInvalidPoolIndex"
  shows "pool_wf (pool_alloc dflt p)"
proof -
  let ?h = "free_head p"
  obtain n where h: "unat ?h < length (slots p)" "slots p ! unat ?h = Free n"
    using assms by (rule pool_wf_free_head)
  obtain fs where len: "length (slots p) < 2 ^ 32"
    and fs: "free_chain (slots p) ?h fs" "distinct fs"
      "\<forall>i < length (slots p). (\<exists>n. slots p ! i = Free n) \<longleftrightarrow> word_of_nat i \<in> set fs"
      "unat (active_count p) + length fs = length (slots p)"
    using assms(1) by (auto simp: pool_wf_def)
  obtain gs where gs: "fs = ?h # gs" "free_chain (slots p) n gs"
    using fs(1) assms(2) h by (cases fs) auto
  let ?s = "(slots p)[unat ?h := Obj dflt]"
  have "free_chain ?s n gs"
    using gs fs(2) len h by (intro free_chain_frame) auto
  moreover have "\<forall>i < length ?s. (\<exists>n. ?s ! i = Free n) \<longleftrightarrow> word_of_nat i \<in> set gs"
  proof (intro allI impI)
    fix i assume i: "i < length ?s"
    show "(\<exists>n. ?s ! i = Free n) \<longleftrightarrow> word_of_nat i \<in> set gs"
    proof (cases "i = unat ?h")
      case True
      then show ?thesis using gs fs(2) h by simp
    next
      case False
      then have "word_of_nat i \<noteq> ?h" using i len
        by (metis length_list_update order.strict_trans unat_of_nat_u32)
      then show ?thesis using False fs(3) gs i by auto
    qed
  qed
  moreover have "unat (active_count p + 1) + length gs = length (slots p)"
    using fs(4) gs(1) len by (subst unat_plus_one_u64) auto
  ultimately show ?thesis
    using len fs(2) gs(1) h by (intro pool_wfI [of _ gs]) (auto simp: pool_alloc_def)
qed

definition pool_free :: "u32 \<Rightarrow> 'a object_pool \<Rightarrow> 'a object_pool" where
  "pool_free idx p = p\<lparr>slots := (slots p)[unat idx := Free (free_head p)], free_head := idx,
     active_count := active_count p - 1\<rparr>"

lemma pool_deallocate_eq:
  "i \<in> dom (pool_at p) \<Longrightarrow> pool_deallocate i p = Some (pool_free i p)"
  by (auto simp: pool_deallocate_def pool_free_def pool_at_def split: if_splits)

lemma pool_deallocate_other:
  "pool_deallocate i p = Some q \<Longrightarrow> j \<noteq> i \<Longrightarrow> pool_at q j = pool_at p j"
  by (auto simp: pool_deallocate_def tc_assert_def pool_at_def nth_list_update unat_inj_iff split: if_splits)

lemma pool_at_free:
  assumes "i \<in> dom (pool_at p)"
  shows "pool_at (pool_free i p) = (pool_at p)(i := None)"
proof
  fix j
  have "unat i < length (slots p)"
    using assms by (auto simp: pool_at_def split: if_splits)
  then show "pool_at (pool_free i p) j = ((pool_at p)(i := None)) j"
    by (cases "j = i") (auto simp: pool_at_def pool_free_def unat_inj_iff nth_list_update)
qed

lemma pool_wf_free:
  assumes "i \<in> dom (pool_at p)" "pool_wf p"
  shows "pool_wf (pool_free i p)"
proof -
  obtain y where i: "unat i < length (slots p)" and y: "slots p ! unat i = Obj y"
    using assms(1) by (auto simp: dom_pool_at_eq)
  obtain fs where len: "length (slots p) < 2 ^ 32"
    and fs: "free_chain (slots p) (free_head p) fs" "distinct fs"
      "\<forall>i < length (slots p). (\<exists>n. slots p ! i = Free n) \<longleftrightarrow> word_of_nat i \<in> set fs"
      "unat (active_count p) + length fs = length (slots p)"
    using assms(2) by (auto simp: pool_wf_def)
  have ni: "i \<notin> set fs"
    using fs(3) i y by (metis slot.distinct(1) of_nat_unat_word)
  let ?s = "(slots p)[unat i := Free (free_head p)]"
  have "free_chain ?s i (i # fs)"
    using fs(1) i len ni by (simp add: free_chain_frame)
  moreover have "\<forall>k < length ?s. (\<exists>n. ?s ! k = Free n) \<longleftrightarrow> word_of_nat k \<in> set (i # fs)"
  proof (intro allI impI)
    fix k assume k: "k < length ?s"
    show "(\<exists>n. ?s ! k = Free n) \<longleftrightarrow> word_of_nat k \<in> set (i # fs)"
    proof (cases "k = unat i")
      case False
      then have "word_of_nat k \<noteq> i" using k len
        by (metis length_list_update order.strict_trans unat_of_nat_u32)
      then show ?thesis using False fs(3) k by auto
    qed (use i in simp)
  qed
  moreover have "unat (active_count p - 1) + length (i # fs) = length (slots p)"
  proof -
    have "unat ` set fs \<subseteq> {..< length (slots p)} - {unat i}"
      using ni free_chain_bounds [OF fs(1)] by (auto simp: unat_inj_iff)
    then have "card (unat ` set fs) \<le> card ({..< length (slots p)} - {unat i})"
      by (rule card_mono [rotated]) simp
    moreover have "card (unat ` set fs) = length fs"
      using fs(2) by (simp add: card_image inj_on_def unat_inj_iff distinct_card)
    ultimately have "length fs < length (slots p)"
      using i by simp
    then have "0 < unat (active_count p)"
      using fs(4) by simp
    then show ?thesis using fs(4) by (simp add: unat_minus_one_pos)
  qed
  ultimately show ?thesis
    using len fs(2) ni
    by (intro pool_wfI [of _ "i # fs"]) (simp_all add: pool_free_def del: free_chain.simps)
qed

subsection \<open>Counting live slots\<close>

lemma finite_live: "finite (dom (pool_at p))"
proof (rule finite_imageD)
  show "finite (unat ` dom (pool_at p))"
    by (rule finite_subset [of _ "{..< length (slots p)}"]) (auto simp: dom_pool_at_eq)
qed (simp add: inj_on_def unat_inj_iff)

lemma card_live:
  assumes "pool_wf p"
  shows "card (dom (pool_at p)) = unat (active_count p)"
proof -
  obtain fs where len: "length (slots p) < 2 ^ 32"
    and fs: "free_chain (slots p) (free_head p) fs" "distinct fs"
      "\<forall>i < length (slots p). (\<exists>n. slots p ! i = Free n) \<longleftrightarrow> word_of_nat i \<in> set fs"
      "unat (active_count p) + length fs = length (slots p)"
    using assms by (auto simp: pool_wf_def)
  have live: "unat ` dom (pool_at p) = {..< length (slots p)} - unat ` set fs" (is "?L = ?R")
  proof (intro equalityI subsetI)
    fix k assume "k \<in> ?L"
    then obtain i :: u32 and x where i: "k = unat i" "unat i < length (slots p)"
        "slots p ! unat i = Obj x" unfolding dom_pool_at_eq by blast
    then have "i \<notin> set fs" using free_chain_Free [OF fs(1)] by fastforce
    with i show "k \<in> ?R" by (auto simp: unat_inj_iff)
  next
    fix k assume k: "k \<in> ?R"
    then have u: "unat (word_of_nat k :: u32) = k" using len by simp
    with k have "word_of_nat k \<notin> set fs" by (metis DiffD2 imageI)
    with k fs(3) obtain x where "slots p ! k = Obj x"
      by (cases "slots p ! k") auto
    with k u have "word_of_nat k \<in> dom (pool_at p)" by (simp add: dom_pool_at_eq)
    with u show "k \<in> ?L" by (metis imageI)
  qed
  have "card (unat ` dom (pool_at p)) = length (slots p) - length fs"
    using free_chain_bounds [OF fs(1)] fs(2) unfolding live
    by (subst card_Diff_subset) (auto simp: card_image inj_on_def unat_inj_iff distinct_card)
  then show ?thesis
    using fs(4) by (simp add: card_image inj_on_def unat_inj_iff)
qed

lemma free_head_room:
  assumes "pool_wf p"
  shows "free_head p = kInvalidPoolIndex \<longleftrightarrow> card (dom (pool_at p)) = capacity p"
proof -
  obtain fs where "free_chain (slots p) (free_head p) fs" "length (slots p) < 2 ^ 32"
    "unat (active_count p) + length fs = length (slots p)"
    using assms by (auto simp: pool_wf_def)
  then show ?thesis
    using card_live [OF assms]
    by (cases fs) (auto simp: capacity_def dest: unat_less_kInvalid)
qed

lemma card_live_le: "pool_wf p \<Longrightarrow> card (dom (pool_at p)) \<le> capacity p"
  unfolding card_live capacity_def by (auto simp: pool_wf_def)

lemma capacity_alloc [simp]: "capacity (pool_alloc d p) = capacity p"
  by (simp add: pool_alloc_def capacity_def)

lemma capacity_free [simp]: "capacity (pool_free i p) = capacity p"
  by (simp add: pool_free_def capacity_def)

subsection \<open>Reset\<close>

lemma fold_set_slots:
  assumes "m \<le> length s"
  shows "fold (\<lambda>i s. s[i := f i]) [0 ..< m] s = map f [0 ..< m] @ drop m s"
  using assms
proof (induction m)
  case (Suc m)
  then have "fold (\<lambda>i s. s[i := f i]) [0 ..< Suc m] s = (map f [0 ..< m] @ drop m s)[m := f m]"
    by simp
  also have "\<dots> = map f [0 ..< Suc m] @ drop (Suc m) s"
    using Suc.prems by (simp add: list_update_append Cons_nth_drop_Suc [symmetric])
  finally show ?case .
qed simp

definition fresh_slots :: "nat \<Rightarrow> 'a slot list" where
  "fresh_slots n = map (\<lambda>i. Free (if Suc i < n then word_of_nat (Suc i) else kInvalidPoolIndex)) [0 ..< n]"

lemma pool_reset_eq:
  assumes "0 < length (slots p)" "length (slots p) \<le> 2 ^ 32"
  shows "pool_reset p =
    Some (p\<lparr>slots := fresh_slots (length (slots p)), free_head := 0, active_count := 0\<rparr>)"
proof -
  obtain m where m: "length (slots p) = Suc m" using assms(1) by (cases "length (slots p)") auto
  have "(fold (\<lambda>i s. s[i := Free (word_of_nat (i + 1))]) [0 ..< m] (slots p))[m := Free kInvalidPoolIndex]
      = (map (\<lambda>i. Free (word_of_nat (Suc i))) [0 ..< m] @ drop m (slots p))[m := Free kInvalidPoolIndex]"
    using m by (simp add: fold_set_slots)
  also have "\<dots> = fresh_slots (Suc m)"
    using m by (simp add: fresh_slots_def list_update_append Cons_nth_drop_Suc [symmetric])
  finally show ?thesis
    using assms m by (simp add: pool_reset_def Let_def)
qed

lemma free_chain_fresh:
  assumes "n < 2 ^ 32" "i \<le> n"
  shows "free_chain (fresh_slots n) (if i < n then word_of_nat i else kInvalidPoolIndex)
           (map word_of_nat [i ..< n])"
  using assms(2)
proof (induction rule: inc_induct)
  case (step k)
  then show ?case using assms(1)
    by (auto simp: upt_rec [of k n] fresh_slots_def split: if_splits)
qed simp

lemma pool_wf_reset:
  assumes "0 < length (slots p)" "length (slots p) < 2 ^ 32" "pool_reset p = Some q"
  shows "pool_wf q" and "pool_at q = Map.empty" and "capacity q = capacity p"
proof -
  let ?n = "length (slots p)"
  have q: "q = p\<lparr>slots := fresh_slots ?n, free_head := 0, active_count := 0\<rparr>"
    using assms by (simp add: pool_reset_eq)
  have u: "unat (word_of_nat i :: u32) = i" if "i < ?n" for i
    using that assms(2) by simp
  show "pool_wf q"
  proof (rule pool_wfI)
    show "free_chain (slots q) (free_head q) (map word_of_nat [0 ..< ?n])"
      using free_chain_fresh [of ?n 0] assms by (simp add: q)
    show "distinct (map word_of_nat [0 ..< ?n] :: u32 list)"
      using u by (auto simp: distinct_map inj_on_def) metis
  qed (use assms in \<open>auto simp: q fresh_slots_def\<close>)
  show "pool_at q = Map.empty"
    by (auto simp: q pool_at_def fresh_slots_def)
  show "capacity q = capacity p"
    by (simp add: q capacity_def fresh_slots_def)
qed

lemma pool_new_ok:
  assumes "0 < n" "n < 2 ^ 32"
  shows "\<exists>p. pool_new n = Some p \<and> pool_wf p \<and> pool_at p = Map.empty \<and> capacity p = n"
proof -
  let ?p = "\<lparr>slots = replicate n (Free 0), free_head = 0, active_count = 0\<rparr> :: 'a object_pool"
  obtain q where "pool_reset ?p = Some q"
    using assms by (simp add: pool_reset_eq)
  with pool_wf_reset [of ?p q] assms show ?thesis
    by (auto simp: pool_new_def capacity_def)
qed

section \<open>The contract of a pool\<close>

text \<open>
  What the order book relies on: a pool is a finite map from indices to objects, allocation
  extends it at an index that was dead, deallocation removes an index, and the last index
  given back is the first to be reused.
\<close>

locale slot_pool =
  fixes wf :: "'p \<Rightarrow> bool"
    and get :: "'p \<Rightarrow> u32 \<Rightarrow> 'a option"
    and cap :: "'p \<Rightarrow> nat"
    and put :: "'p \<Rightarrow> u32 \<Rightarrow> 'a \<Rightarrow> 'p option"
    and alloc :: "'a \<Rightarrow> 'p \<Rightarrow> (u32 option \<times> 'p) option"
    and release :: "u32 \<Rightarrow> 'p \<Rightarrow> 'p option"
  assumes live_valid: "wf p \<Longrightarrow> get p i = Some x \<Longrightarrow> i \<noteq> kInvalidPoolIndex"
    and live_finite: "finite (dom (get p))"
    and live_le_cap: "wf p \<Longrightarrow> card (dom (get p)) \<le> cap p"
    and put_live: "wf p \<Longrightarrow> get p i = Some y \<Longrightarrow>
      \<exists>q. put p i x = Some q \<and> wf q \<and> get q = (get p)(i \<mapsto> x) \<and> cap q = cap p"
    and put_dead: "get p i = None \<Longrightarrow> put p i x = None"
    and alloc_room: "wf p \<Longrightarrow> card (dom (get p)) < cap p \<Longrightarrow>
      \<exists>i q. alloc d p = Some (Some i, q) \<and> get p i = None \<and> wf q \<and>
            get q = (get p)(i \<mapsto> d) \<and> cap q = cap p"
    and alloc_full: "wf p \<Longrightarrow> card (dom (get p)) = cap p \<Longrightarrow> alloc d p = Some (None, p)"
    and release_live: "wf p \<Longrightarrow> get p i = Some y \<Longrightarrow>
      \<exists>q. release i p = Some q \<and> wf q \<and> get q = (get p)(i := None) \<and> cap q = cap p \<and>
          (\<exists>r. alloc d q = Some (Some i, r))"
begin

lemma alloc_cases:
  assumes "wf p"
  obtains (full) "alloc d p = Some (None, p)" "card (dom (get p)) = cap p"
  | (fresh) i q where "alloc d p = Some (Some i, q)" "get p i = None" "i \<noteq> kInvalidPoolIndex"
      "wf q" "get q = (get p)(i \<mapsto> d)" "cap q = cap p"
proof (cases "card (dom (get p)) = cap p")
  case True
  then show ?thesis using assms alloc_full full by blast
next
  case False
  then have "card (dom (get p)) < cap p" using live_le_cap [OF assms] by simp
  with assms obtain i q where q: "alloc d p = Some (Some i, q)" "get p i = None" "wf q"
    "get q = (get p)(i \<mapsto> d)" "cap q = cap p"
    using alloc_room by blast
  then have "i \<noteq> kInvalidPoolIndex" using live_valid [of q i d] by simp
  with q fresh show ?thesis by blast
qed

lemma alloc_release:
  assumes "wf p" "alloc d p = Some (Some i, q)"
  shows "\<exists>r. release i q = Some r \<and> wf r \<and> get r = get p"
  using assms(1)
proof (cases rule: alloc_cases [where d = d])
  case (fresh j q')
  with assms(2) have "wf q" "get q = (get p)(i \<mapsto> d)" "get p i = None" by auto
  with release_live [of q i d] show ?thesis by (metis fun_upd_same fun_upd_triv fun_upd_upd)
qed (use assms(2) in simp)

lemma alloc_distinct:
  assumes "wf p" "alloc d p = Some (Some i, q)" "alloc e q = Some (Some j, r)"
  shows "i \<noteq> j \<and> get r i = Some d \<and> get r j = Some e"
  using assms(1)
proof (cases rule: alloc_cases [where d = d])
  case (fresh i' q')
  with assms(2) have q: "wf q" "get q = (get p)(i \<mapsto> d)" by auto
  from q(1) show ?thesis
  proof (cases rule: alloc_cases [where d = e])
    case (fresh j' r')
    with assms(3) q show ?thesis by (auto split: if_splits)
  qed (use assms(3) in simp)
qed (use assms(2) in simp)

end

lemma pool_alloc_after_free:
  assumes "i \<in> dom (pool_at p)" "pool_wf p"
  shows "pool_allocate d (pool_free i p) = Some (Some i, pool_alloc d (pool_free i p))"
proof -
  have "i \<noteq> kInvalidPoolIndex" using assms pool_at_not_invalid by fastforce
  then show ?thesis
    using assms by (simp add: pool_allocate_eq pool_wf_free) (simp add: pool_free_def)
qed

interpretation obj_pool: slot_pool pool_wf pool_at capacity pool_write pool_allocate pool_deallocate
proof
  fix p :: "'a object_pool" and i x y d
  show "pool_wf p \<Longrightarrow> pool_at p i = Some x \<Longrightarrow> i \<noteq> kInvalidPoolIndex"
    by (rule pool_at_not_invalid)
  show "finite (dom (pool_at p))" by (rule finite_live)
  show "pool_wf p \<Longrightarrow> card (dom (pool_at p)) \<le> capacity p" by (rule card_live_le)
  show "pool_wf p \<Longrightarrow> pool_at p i = Some y \<Longrightarrow> \<exists>q. pool_write p i x = Some q \<and> pool_wf q \<and>
      pool_at q = (pool_at p)(i \<mapsto> x) \<and> capacity q = capacity p"
    by (auto simp: pool_write_eq domIff)
  show "pool_at p i = None \<Longrightarrow> pool_write p i x = None"
    by (simp add: pool_write_def)
  show "pool_wf p \<Longrightarrow> card (dom (pool_at p)) < capacity p \<Longrightarrow>
      \<exists>i q. pool_allocate d p = Some (Some i, q) \<and> pool_at p i = None \<and> pool_wf q \<and>
            pool_at q = (pool_at p)(i \<mapsto> d) \<and> capacity q = capacity p"
    using free_head_room [of p]
    by (simp add: pool_allocate_eq free_head_not_live pool_wf_alloc pool_at_alloc)
  show "pool_wf p \<Longrightarrow> card (dom (pool_at p)) = capacity p \<Longrightarrow> pool_allocate d p = Some (None, p)"
    using free_head_room [of p] by (simp add: pool_allocate_eq)
  show "pool_wf p \<Longrightarrow> pool_at p i = Some y \<Longrightarrow> \<exists>q. pool_deallocate i p = Some q \<and> pool_wf q \<and>
      pool_at q = (pool_at p)(i := None) \<and> capacity q = capacity p \<and>
      (\<exists>r. pool_allocate d q = Some (Some i, r))"
    using pool_alloc_after_free [of i p d]
    by (simp add: pool_deallocate_eq domIff pool_wf_free pool_at_free)
qed

section \<open>Properties\<close>

text \<open>Allocation from a well-formed pool. When every slot holds an object the result is the
  null pointer and the pool is unchanged; otherwise an unused slot is returned, it holds the
  default object, every other object is untouched and the pool is well-formed again.\<close>

theorem object_pool_allocate:
  assumes "pool_wf p"
  shows "if card (dom (pool_at p)) = capacity p then pool_allocate d p = Some (None, p)
    else \<exists>i q. pool_allocate d p = Some (Some i, q) \<and> pool_at p i = None \<and> i \<noteq> kInvalidPoolIndex \<and>
      pool_wf q \<and> pool_at q = (pool_at p)(i \<mapsto> d) \<and> capacity q = capacity p"
  using assms free_head_room [OF assms] pool_wf_free_head [OF assms]
  by (simp add: pool_allocate_eq free_head_not_live pool_wf_alloc pool_at_alloc)

theorem object_pool_allocate_witness:
  "\<exists>p i q. pool_new 3 = Some p \<and> pool_allocate (7 :: u32) p = Some (Some i, q) \<and> pool_at q i = Some 7"
proof -
  obtain p :: "u32 object_pool" where p: "pool_new 3 = Some p" "pool_wf p" "pool_at p = Map.empty" "capacity p = 3"
    using pool_new_ok [of 3] by auto
  with object_pool_allocate [OF p(2), of 7] show ?thesis by auto
qed

text \<open>Giving a slot back that is free already: the code returns, the slot becomes its own
  successor in the free list, and the next allocation hands it out while it stays the head.\<close>

lemma free_twice:
  assumes i: "i \<in> dom (pool_at p)" and w: "pool_wf p"
  obtains s r where "pool_deallocate i (pool_free i p) = Some s" "active_count s = active_count p - 2"
    "\<not> pool_wf s" "pool_allocate d s = Some (Some i, r)" "pool_at r i = Some d" "free_head r = i" "\<not> pool_wf r"
proof -
  have valid: "i \<noteq> kInvalidPoolIndex" using i w pool_at_not_invalid by fastforce
  have len: "unat i < length (slots p)" using i by (simp add: dom_pool_at_eq)
  let ?s = "pool_free i (pool_free i p)"
  let ?r = "?s\<lparr>slots := (slots ?s)[unat i := Obj d], active_count := active_count ?s + 1\<rparr>"
  have s: "slots ?s ! unat i = Free i" "free_head ?s = i" "unat i < length (slots ?s)"
    using len by (simp_all add: pool_free_def)
  have "\<not> pool_wf ?s"
  proof
    assume "pool_wf ?s"
    then obtain fs where "free_chain (slots ?s) i fs" "distinct fs" using s(2) by (auto simp: pool_wf_def)
    moreover from this(1) obtain gs where "fs = i # gs" "free_chain (slots ?s) i gs"
      using valid s(1) by (cases fs) auto
    moreover from this(2) have "i \<in> set gs" using valid by (cases gs) auto
    ultimately show False by simp
  qed
  moreover have "pool_at ?r i = Some d" "free_head ?r = i" using s(2,3) by (simp_all add: pool_at_def)
  moreover from this have "\<not> pool_wf ?r" using free_head_not_live [of ?r] by auto
  moreover have "pool_deallocate i (pool_free i p) = Some ?s"
    using len by (simp add: pool_deallocate_def tc_assert_def pool_free_def)
  moreover have "active_count ?s = active_count p - 2" by (simp add: pool_free_def)
  moreover have "pool_allocate d ?s = Some (Some i, ?r)"
    using valid s by (simp add: pool_allocate_def tc_assert_def)
  ultimately show ?thesis using that by blast
qed

text \<open>C21: Deallocating a slot that holds an object removes exactly that object and keeps the pool
  well-formed, and the slot is the next one handed out, with every other object untouched. A second
  deallocation of the slot is not noticed: it returns, the count of live objects falls once more,
  the pool is no longer well-formed, and the next allocation hands the slot out and leaves it the
  head of the free list although it now holds an object.\<close>

theorem object_pool_deallocate:
  assumes "pool_wf p" "pool_at p i = Some x"
  shows "\<exists>q. pool_deallocate i p = Some q \<and> pool_wf q \<and> pool_at q = (pool_at p)(i := None) \<and>
    capacity q = capacity p \<and> active_count q = active_count p - 1 \<and>
    (\<exists>r. pool_allocate d q = Some (Some i, r) \<and> pool_wf r \<and> pool_at r = (pool_at p)(i \<mapsto> d)) \<and>
    (\<exists>s r. pool_deallocate i q = Some s \<and> active_count s = active_count p - 2 \<and> \<not> pool_wf s \<and>
      pool_allocate d s = Some (Some i, r) \<and> pool_at r i = Some d \<and> free_head r = i \<and> \<not> pool_wf r)"
proof -
  have i: "i \<in> dom (pool_at p)" using assms(2) by auto
  let ?q = "pool_free i p"
  have w: "pool_wf ?q" by (rule pool_wf_free [OF i assms(1)])
  have h: "free_head ?q = i" "free_head ?q \<noteq> kInvalidPoolIndex"
    using pool_at_not_invalid [OF assms] by (simp_all add: pool_free_def)
  have "pool_at (pool_alloc d ?q) = (pool_at p)(i \<mapsto> d)"
    using pool_at_alloc [OF w h(2), of d] by (simp add: h(1) pool_at_free [OF i])
  moreover obtain s r where "pool_deallocate i ?q = Some s" "active_count s = active_count p - 2"
    "\<not> pool_wf s" "pool_allocate d s = Some (Some i, r)" "pool_at r i = Some d" "free_head r = i" "\<not> pool_wf r"
    by (rule free_twice [OF i assms(1), of d])
  moreover have "active_count ?q = active_count p - 1" by (simp add: pool_free_def)
  ultimately show ?thesis
    using pool_deallocate_eq [OF i] w pool_at_free [OF i] pool_wf_alloc [OF w h(2)]
      pool_alloc_after_free [OF i assms(1), of d] by (intro exI [of _ ?q]) auto
qed

theorem object_pool_deallocate_witness:
  "\<exists>p i q r s t. pool_new 3 = Some p \<and> pool_allocate (7 :: u32) p = Some (Some i, q) \<and>
     pool_deallocate i q = Some r \<and> pool_at r = Map.empty \<and> pool_deallocate i r = Some s \<and>
     pool_allocate 8 s = Some (Some i, t) \<and> free_head t = i"
proof -
  obtain p :: "u32 object_pool" where p: "pool_new 3 = Some p" "pool_wf p" "pool_at p = Map.empty" "capacity p = 3"
    using pool_new_ok [of 3] by auto
  from p(2) show ?thesis
  proof (cases rule: obj_pool.alloc_cases [where d = 7])
    case (fresh i q)
    then have "pool_at q i = Some 7" by simp
    with object_pool_deallocate [OF fresh(4) this, of 8] fresh p show ?thesis by auto
  qed (use p in auto)
qed

end
