(* ===== verification/TC_Avl_Pure.thy ===== *)
theory TC_Avl_Pure
  imports TC_Prelude "HOL-Library.Tree"
begin

text \<open>
  The functional reading of \<open>orderbook/avl_tree.hpp\<close>: binary trees over level indices, with the
  same comparisons, rotations and case order as the pointer code, ordered by a price function
  on the indices. The theory proves what the rotations keep (the in-order sequence), that
  insertion and removal keep the trees balanced, and the logarithmic bound on the height.
\<close>

section \<open>Rotations and rebalancing\<close>

fun rotR :: "'a tree \<Rightarrow> 'a tree" where
  "rotR (Node (Node a y b) z c) = Node a y (Node b z c)"
| "rotR t = t"

fun rotL :: "'a tree \<Rightarrow> 'a tree" where
  "rotL (Node a z (Node b y c)) = Node (Node a z b) y c"
| "rotL t = t"

fun left_heavy :: "'a tree \<Rightarrow> bool" where
  "left_heavy (Node l x r) = (height r \<le> height l)"
| "left_heavy Leaf = True"

fun right_heavy :: "'a tree \<Rightarrow> bool" where
  "right_heavy (Node l x r) = (height l \<le> height r)"
| "right_heavy Leaf = True"

definition bal :: "'a tree \<Rightarrow> 'a \<Rightarrow> 'a tree \<Rightarrow> 'a tree" where
  "bal l x r =
     (if height r + 1 < height l then
        (if left_heavy l then rotR (Node l x r) else rotR (Node (rotL l) x r))
      else if height l + 1 < height r then
        (if right_heavy r then rotL (Node l x r) else rotL (Node l x (rotR r)))
      else Node l x r)"

fun avl :: "'a tree \<Rightarrow> bool" where
  "avl Leaf = True"
| "avl (Node l x r) = (height l \<le> height r + 1 \<and> height r \<le> height l + 1 \<and> avl l \<and> avl r)"

section \<open>Insertion, removal, minimum and maximum\<close>

fun tmin :: "'a tree \<Rightarrow> 'a option" where
  "tmin Leaf = None"
| "tmin (Node l x r) = (if l = Leaf then Some x else tmin l)"

fun tmax :: "'a tree \<Rightarrow> 'a option" where
  "tmax Leaf = None"
| "tmax (Node l x r) = (if r = Leaf then Some x else tmax r)"

fun tfind :: "('a \<Rightarrow> 'p::linorder) \<Rightarrow> 'p \<Rightarrow> 'a tree \<Rightarrow> 'a option" where
  "tfind pr p Leaf = None"
| "tfind pr p (Node l x r) =
     (if p = pr x then Some x else if p < pr x then tfind pr p l else tfind pr p r)"

fun ains :: "('a \<Rightarrow> 'p::linorder) \<Rightarrow> 'a \<Rightarrow> 'a tree \<Rightarrow> 'a tree" where
  "ains pr n Leaf = Node Leaf n Leaf"
| "ains pr n (Node l x r) =
     (if pr n < pr x then bal (ains pr n l) x r else bal l x (ains pr n r))"

fun adel :: "('a \<Rightarrow> 'p::linorder) \<Rightarrow> 'a \<Rightarrow> 'a tree \<Rightarrow> 'a tree" where
  "adel pr k Leaf = Leaf"
| "adel pr k (Node l x r) =
     (if pr k < pr x then bal (adel pr k l) x r
      else if pr x < pr k then bal l x (adel pr k r)
      else if l = Leaf then r
      else if r = Leaf then l
      else (case tmin r of None \<Rightarrow> l | Some s \<Rightarrow> bal l s (adel pr s r)))"

section \<open>Rotations keep the in-order sequence\<close>

lemma inorder_rotR [simp]: "inorder (rotR t) = inorder t"
  by (cases t rule: rotR.cases) auto

lemma inorder_rotL [simp]: "inorder (rotL t) = inorder t"
  by (cases t rule: rotL.cases) auto

lemma inorder_bal [simp]: "inorder (bal l x r) = inorder l @ x # inorder r"
proof -
  have "inorder (rotR (Node (rotL l) x r)) = inorder l @ x # inorder r"
    "inorder (rotL (Node l x (rotR r))) = inorder l @ x # inorder r"
    by (simp_all only: inorder_rotR inorder_rotL inorder.simps append_Cons append_Nil)
  then show ?thesis by (simp add: bal_def del: rotR.simps rotL.simps)
qed

lemma tmin_eq: "tmin t = (if t = Leaf then None else Some (hd (inorder t)))"
  by (induction t) auto

lemma tmax_eq: "tmax t = (if t = Leaf then None else Some (last (inorder t)))"
  by (induction t) auto

lemma set_tree_inorder: "set_tree t = set (inorder t)"
  by simp

lemma set_tree_bal [simp]: "set_tree (bal l x r) = insert x (set_tree l \<union> set_tree r)"
  by (metis inorder_bal set_inorder set_append list.set(2) Un_insert_right)

lemma bal_not_Leaf [simp]: "bal l x r \<noteq> Leaf"
  by (metis inorder_bal inorder.simps(1) append_is_Nil_conv list.distinct(1))

section \<open>Balance\<close>

lemma avl_bal:
  assumes "avl l" "avl r" "height l \<le> height r + 2" "height r \<le> height l + 2"
  shows "avl (bal l x r)"
proof (cases "height r + 1 < height l")
  case True
  with assms obtain a y b where l: "l = Node a y b" by (cases l) auto
  with True assms show ?thesis by (cases b) (auto simp: bal_def)
next
  case False
  show ?thesis
  proof (cases "height l + 1 < height r")
    case True
    with assms obtain a y b where "r = Node a y b" by (cases r) auto
    with True False assms show ?thesis by (cases a) (auto simp: bal_def)
  qed (use False assms in \<open>auto simp: bal_def\<close>)
qed

lemma height_bal:
  assumes "avl l" "avl r" "height l \<le> height r + 2" "height r \<le> height l + 2"
  shows "height (bal l x r) \<le> Suc (max (height l) (height r))"
    and "max (height l) (height r) \<le> height (bal l x r)"
    and "height l \<le> height r + 1 \<Longrightarrow> height r \<le> height l + 1 \<Longrightarrow>
           height (bal l x r) = Suc (max (height l) (height r))"
proof -
  have "height (bal l x r) \<le> Suc (max (height l) (height r)) \<and>
        max (height l) (height r) \<le> height (bal l x r)"
  proof (cases "height r + 1 < height l")
    case True
    with assms obtain a y b where l: "l = Node a y b" by (cases l) auto
    with True assms show ?thesis by (cases b) (auto simp: bal_def)
  next
    case False
    show ?thesis
    proof (cases "height l + 1 < height r")
      case True
      with assms obtain a y b where "r = Node a y b" by (cases r) auto
      with True False assms show ?thesis by (cases a) (auto simp: bal_def)
    qed (use False assms in \<open>auto simp: bal_def\<close>)
  qed
  then show "height (bal l x r) \<le> Suc (max (height l) (height r))"
    and "max (height l) (height r) \<le> height (bal l x r)" by auto
qed (auto simp: bal_def)

lemma height_after_insert:
  fixes b L r l :: nat
  assumes "b \<le> Suc (max L r)" "max L r \<le> b" "L \<le> r + 1 \<Longrightarrow> r \<le> L + 1 \<Longrightarrow> b = Suc (max L r)"
    "L = l \<or> L = l + 1" "l \<le> r + 1" "r \<le> l + 1"
  shows "b = Suc (max l r) \<or> b = Suc (max l r) + 1"
  using assms by (cases "r \<le> L + 1"; cases "L \<le> r + 1"; cases "l \<le> r"; simp add: max_def split: if_splits; linarith)

lemma height_after_remove:
  fixes b L r l :: nat
  assumes "b \<le> Suc (max L r)" "max L r \<le> b" "L \<le> r + 1 \<Longrightarrow> r \<le> L + 1 \<Longrightarrow> b = Suc (max L r)"
    "L \<le> l" "l \<le> L + 1" "l \<le> r + 1" "r \<le> l + 1"
  shows "b \<le> Suc (max l r) \<and> Suc (max l r) \<le> b + 1"
  using assms by (cases "r \<le> L + 1"; cases "L \<le> r + 1"; cases "l \<le> r"; simp add: max_def split: if_splits; linarith)

lemma avl_ains:
  assumes "avl t"
  shows "avl (ains pr n t)" and "height (ains pr n t) = height t \<or> height (ains pr n t) = height t + 1"
proof -
  have "avl (ains pr n t) \<and> (height (ains pr n t) = height t \<or> height (ains pr n t) = height t + 1)"
    using assms
  proof (induction t)
    case (Node l x r)
    show ?case
    proof (cases "pr n < pr x")
      case True
      let ?l = "ains pr n l"
      have h: "avl ?l" "avl r" "height ?l \<le> height r + 2" "height r \<le> height ?l + 2"
        using Node by auto
      have d: "height ?l = height l \<or> height ?l = height l + 1" "height l \<le> height r + 1"
        "height r \<le> height l + 1" using Node by auto
      show ?thesis
        using True avl_bal [OF h, of x] height_after_insert [OF height_bal [OF h, of x] d] by simp
    next
      case False
      let ?r = "ains pr n r"
      have h: "avl l" "avl ?r" "height l \<le> height ?r + 2" "height ?r \<le> height l + 2"
        using Node by auto
      have d: "height ?r = height r \<or> height ?r = height r + 1" "height l \<le> height r + 1"
        "height r \<le> height l + 1" using Node by auto
      show ?thesis
        using False avl_bal [OF h, of x] height_bal [OF h, of x]
          height_after_insert [of "height (bal l x ?r)" "height ?r" "height l" "height r"] d
        by (simp add: max.commute)
    qed
  qed simp
  then show "avl (ains pr n t)"
    and "height (ains pr n t) = height t \<or> height (ains pr n t) = height t + 1" by auto
qed

lemma avl_adel_aux:
  assumes "avl t"
  shows "avl (adel pr k t) \<and> height (adel pr k t) \<le> height t \<and> height t \<le> height (adel pr k t) + 1"
  using assms
proof (induction t arbitrary: k)
  case (Node l x r)
  have sub: "avl (bal (adel pr k l) x r) \<and> height (bal (adel pr k l) x r) \<le> height (Node l x r) \<and>
      height (Node l x r) \<le> height (bal (adel pr k l) x r) + 1" for k
  proof -
    have d: "height (adel pr k l) \<le> height l" "height l \<le> height (adel pr k l) + 1"
        "height l \<le> height r + 1" "height r \<le> height l + 1"
      and h: "avl (adel pr k l)" "avl r" "height (adel pr k l) \<le> height r + 2"
        "height r \<le> height (adel pr k l) + 2"
      using Node.prems Node.IH(1) [of k] by auto
    show ?thesis
      using avl_bal [OF h, of x] height_after_remove [OF height_bal [OF h, of x] d] by simp
  qed
  have sub': "avl (bal l y (adel pr k r)) \<and> height (bal l y (adel pr k r)) \<le> height (Node l x r) \<and>
      height (Node l x r) \<le> height (bal l y (adel pr k r)) + 1" for k y
  proof -
    have d: "height (adel pr k r) \<le> height r" "height r \<le> height (adel pr k r) + 1"
        "height l \<le> height r + 1" "height r \<le> height l + 1"
      and h: "avl l" "avl (adel pr k r)" "height l \<le> height (adel pr k r) + 2"
        "height (adel pr k r) \<le> height l + 2"
      using Node.prems Node.IH(2) [of k] by auto
    show ?thesis
      using avl_bal [OF h, of y] height_bal [OF h, of y]
        height_after_remove [of "height (bal l y (adel pr k r))" "height (adel pr k r)" "height l" "height r"] d
      by (simp add: max.commute)
  qed
  show ?case
  proof (cases "pr k < pr x \<or> pr x < pr k \<or> (l \<noteq> Leaf \<and> r \<noteq> Leaf \<and> tmin r \<noteq> None)")
    case True
    then show ?thesis using sub sub' by (auto simp del: height_tree.simps)
  next
    case False
    then show ?thesis using Node.prems by (auto simp: tmin_eq split: if_splits)
  qed
qed simp

lemma avl_adel: "avl t \<Longrightarrow> avl (adel pr k t)"
  by (simp add: avl_adel_aux)

text \<open>The least number of nodes a balanced tree of a height can have.\<close>

fun avl_least :: "nat \<Rightarrow> nat" where
  "avl_least 0 = 0"
| "avl_least (Suc 0) = 1"
| "avl_least (Suc (Suc h)) = avl_least (Suc h) + avl_least h + 1"

lemma avl_least_mono: "h \<le> k \<Longrightarrow> avl_least h \<le> avl_least k"
proof (rule lift_Suc_mono_le [of avl_least])
  show "avl_least n \<le> avl_least (Suc n)" for n by (cases n) simp_all
qed

lemma avl_least_Suc: "avl_least (Suc h) \<le> 2 * avl_least h + 1"
proof (cases h)
  case (Suc k)
  then show ?thesis using avl_least_mono [of k "Suc k"] by simp
qed simp

lemma avl_least_size: "avl t \<Longrightarrow> avl_least (height t) \<le> size t"
proof (induction t)
  case (Node l x r)
  have least: "avl_least (Suc (max h k)) \<le> avl_least h + avl_least k + 1" if hk: "h \<le> k + 1" "k \<le> h + 1" for h k
  proof (cases "h = k")
    case True
    then show ?thesis using avl_least_Suc [of h] by simp
  next
    case False
    then have "h = Suc k \<or> k = Suc h" using hk by linarith
    then show ?thesis by auto
  qed
  from Node show ?case using least [of "height l" "height r"] by simp
qed simp

lemma avl_height_18:
  fixes t :: "'a tree"
  assumes "avl t" "size t \<le> 10000"
  shows "height t \<le> 18"
proof (rule ccontr)
  assume "\<not> height t \<le> 18"
  then have "avl_least 19 \<le> avl_least (height t)" by (intro avl_least_mono) simp
  moreover have "avl_least 19 = 10945" by code_simp
  ultimately show False using avl_least_size [OF assms(1)] assms(2) by simp
qed

lemma size_less_height: "size (t :: 'a tree) < 2 ^ height t"
  using size1_height [of t] by (simp add: size1_size)

section \<open>Order\<close>

abbreviation sorted_by :: "('a \<Rightarrow> 'p::linorder) \<Rightarrow> 'a list \<Rightarrow> bool" where
  "sorted_by pr xs \<equiv> sorted_wrt (\<lambda>i j. pr i < pr j) xs"

fun ins_by :: "('a \<Rightarrow> 'p::linorder) \<Rightarrow> 'a \<Rightarrow> 'a list \<Rightarrow> 'a list" where
  "ins_by pr n [] = [n]"
| "ins_by pr n (x # xs) = (if pr n < pr x then n # x # xs else x # ins_by pr n xs)"

lemma set_ins_by [simp]: "set (ins_by pr n xs) = insert n (set xs)"
  by (induction xs) auto

lemma length_ins_by [simp]: "length (ins_by pr n xs) = Suc (length xs)"
  by (induction xs) auto

lemma ins_by_append_left:
  "pr n < pr x \<Longrightarrow> ins_by pr n (xs @ x # ys) = ins_by pr n xs @ x # ys"
  by (induction xs) auto

lemma ins_by_append_right:
  "sorted_by pr (xs @ x # ys) \<Longrightarrow> \<not> pr n < pr x \<Longrightarrow>
     ins_by pr n (xs @ x # ys) = xs @ x # ins_by pr n ys"
  by (induction xs) force+

lemma sorted_ins_by:
  "sorted_by pr xs \<Longrightarrow> pr n \<notin> pr ` set xs \<Longrightarrow> sorted_by pr (ins_by pr n xs)"
  by (induction xs) (auto simp: image_iff intro: order.strict_trans neq_le_trans)

lemma sorted_by_distinct: "sorted_by pr xs \<Longrightarrow> distinct xs"
  by (induction xs) auto

lemma sorted_by_inj: "sorted_by pr xs \<Longrightarrow> x \<in> set xs \<Longrightarrow> y \<in> set xs \<Longrightarrow> pr x = pr y \<Longrightarrow> x = y"
  by (induction xs) (simp, metis order.irrefl set_ConsD sorted_wrt.simps(2))

lemma sorted_by_cong:
  "(\<And>x. x \<in> set xs \<Longrightarrow> pr x = pr' x) \<Longrightarrow> sorted_by pr xs = sorted_by pr' xs"
  by (induction xs) auto

lemma inorder_ains:
  "sorted_by pr (inorder t) \<Longrightarrow> inorder (ains pr n t) = ins_by pr n (inorder t)"
proof (induction t)
  case (Node l x r)
  have s: "sorted_by pr (inorder l)" "sorted_by pr (inorder r)"
    "sorted_by pr (inorder l @ x # inorder r)"
    using Node.prems by (auto simp: sorted_wrt_append)
  show ?case
    using Node.IH s ins_by_append_left [of pr n x] ins_by_append_right [OF s(3), of n] by simp
qed simp

lemma set_tree_ains [simp]: "set_tree (ains pr n t) = insert n (set_tree t)"
  by (induction t) auto

lemma filter_neq_id: "k \<notin> set xs \<Longrightarrow> filter (\<lambda>x. x \<noteq> k) xs = xs"
  by (induction xs) auto

lemma inorder_adel:
  assumes "sorted_by pr (inorder t)" "k \<in> set_tree t"
  shows "inorder (adel pr k t) = filter (\<lambda>x. x \<noteq> k) (inorder t)"
  using assms
proof (induction t arbitrary: k)
  case (Node l x r)
  have s: "sorted_by pr (inorder l)" "sorted_by pr (inorder r)"
    "\<And>y. y \<in> set_tree l \<Longrightarrow> pr y < pr x" "\<And>y. y \<in> set_tree r \<Longrightarrow> pr x < pr y"
    using Node.prems(1) by (auto simp: sorted_wrt_append)
  consider (lt) "pr k < pr x" "k \<in> set_tree l" "k \<noteq> x" "k \<notin> set_tree r"
    | (gt) "pr x < pr k" "k \<in> set_tree r" "k \<noteq> x" "k \<notin> set_tree l"
    | (eq) "k = x" "k \<notin> set_tree l" "k \<notin> set_tree r"
    using Node.prems(2) s(3) [of k] s(4) [of k] s(3) [of x] s(4) [of x]
    by (cases "k \<in> set_tree l"; cases "k \<in> set_tree r") auto
  then show ?case
  proof cases
    case lt
    with Node.IH(1) s show ?thesis by (simp add: filter_neq_id)
  next
    case gt
    with Node.IH(2) s show ?thesis by (auto simp: filter_neq_id dest: order.asym)
  next
    case eq
    show ?thesis
    proof (cases "l = Leaf \<or> r = Leaf")
      case False
      then obtain m ms where m: "inorder r = m # ms" by (cases "inorder r") auto
      have "m \<in> set_tree r" using m by (metis list.set_intros(1) set_inorder)
      then have "inorder (adel pr m r) = filter (\<lambda>x. x \<noteq> m) (inorder r)"
        using Node.IH(2) s by simp
      also have "\<dots> = ms"
        using sorted_by_distinct [OF s(2)] m by (simp add: filter_neq_id)
      finally have "inorder (adel pr m r) = ms" .
      moreover have "x \<notin> set (inorder r)" using eq by simp
      ultimately show ?thesis
        using False eq m by (auto simp add: tmin_eq filter_neq_id)
    qed (use eq in \<open>auto simp: filter_neq_id\<close>)
  qed
qed simp

lemma set_tree_adel:
  "sorted_by pr (inorder t) \<Longrightarrow> k \<in> set_tree t \<Longrightarrow> set_tree (adel pr k t) = set_tree t - {k}"
  by (auto simp: inorder_adel set_inorder [symmetric] simp del: set_inorder)

lemma tfind_Some:
  assumes "sorted_by pr (inorder t)"
  shows "tfind pr p t = Some x \<longleftrightarrow> x \<in> set_tree t \<and> pr x = p"
  using assms
proof (induction t)
  case (Node l y r)
  have "\<forall>z \<in> set_tree l. pr z < pr y" "\<forall>z \<in> set_tree r. pr y < pr z"
    "sorted_by pr (inorder l)" "sorted_by pr (inorder r)"
    using Node.prems by (auto simp: sorted_wrt_append)
  with Node.IH show ?case by (auto dest: order.asym)
qed simp

lemma tfind_None:
  assumes "sorted_by pr (inorder t)"
  shows "tfind pr p t = None \<longleftrightarrow> p \<notin> pr ` set_tree t"
  using tfind_Some [OF assms, of p] by (cases "tfind pr p t") (simp_all add: image_iff, metis+)

lemma tmin_least:
  assumes "sorted_by pr (inorder t)" "tmin t = Some m"
  shows "m \<in> set_tree t" and "y \<in> set_tree t \<Longrightarrow> pr m \<le> pr y"
proof -
  obtain ms where m: "inorder t = m # ms"
    using assms(2) by (cases "inorder t") (auto simp: tmin_eq split: if_splits)
  then show "m \<in> set_tree t" by (metis list.set_intros(1) set_inorder)
  assume "y \<in> set_tree t"
  then have "y \<in> set (inorder t)" by simp
  then show "pr m \<le> pr y" using assms(1) m by auto
qed

lemma tmax_greatest:
  assumes "sorted_by pr (inorder t)" "tmax t = Some m"
  shows "m \<in> set_tree t" and "y \<in> set_tree t \<Longrightarrow> pr y \<le> pr m"
proof -
  obtain ms where m: "inorder t = ms @ [m]"
    using assms(2) by (cases "inorder t" rule: rev_cases) (auto simp: tmax_eq split: if_splits)
  then show "m \<in> set_tree t" by (metis in_set_conv_decomp set_inorder)
  assume "y \<in> set_tree t"
  then have "y \<in> set (inorder t)" by simp
  then show "pr y \<le> pr m" using assms(1) m by (auto simp: sorted_wrt_append)
qed

end
