(* ===== verification/TC_Avl_Tree.thy ===== *)
theory TC_Avl_Tree
  imports Complex_Main TC_Object_Pool TC_Avl_Pure
begin

text \<open>
  \<open>orderbook/avl_tree.hpp\<close> with \<open>price_level.hpp\<close>, \<open>price_level_pool.hpp\<close> and
  \<open>avl_statistics.hpp\<close>: the AVL tree whose nodes are the slots of the level pool, linked by
  pool indices. Every operation is written over the pool, field write by field write, and
  re-reads a field where the code reads it through a reference. The 32-bit signed heights are integers:
  none exceeds 18 in a reachable book (\<open>reachable_balanced\<close> of \<open>TC_Order_Book_Run\<close>). \<open>tree_at\<close> says that a pool
  holds a tree; the second half shows that each operation computes, on such pools, the function
  of \<open>TC_Avl_Pure\<close> on the tree, and touches nothing but the links of the nodes.
\<close>

section \<open>Levels and statistics\<close>

record avl_node =
  nd_left :: u32
  nd_right :: u32
  nd_parent :: u32
  nd_height :: int

record price_level =
  pl_price :: u32
  pl_total_qty :: u32
  pl_order_count :: u32
  pl_head_order_idx :: u32
  pl_tail_order_idx :: u32
  pl_node :: avl_node
  pl_side :: u8

type_synonym level_pool = "price_level object_pool"

definition price_level_init :: price_level where
  "price_level_init = \<lparr>pl_price = 0, pl_total_qty = 0, pl_order_count = 0, pl_head_order_idx = 0,
     pl_tail_order_idx = 0,
     pl_node = \<lparr>nd_left = kInvalidPoolIndex, nd_right = kInvalidPoolIndex,
                nd_parent = kInvalidPoolIndex, nd_height = 1\<rparr>,
     pl_side = 0\<rparr>"

definition level_allocate :: "level_pool \<Rightarrow> (u32 option \<times> level_pool) option" where
  "level_allocate = pool_allocate price_level_init"

text \<open>
  \<open>levels_destroyed\<close> is incremented by \<open>BookSide::remove_level\<close> although the struct does not
  declare it; it is carried here so that \<open>remove_level\<close> can be translated as it is written.
\<close>

record avl_statistics =
  ll_rotations :: u64
  rr_rotations :: u64
  lr_rotations :: u64
  rl_rotations :: u64
  insertions :: u64
  deletions :: u64
  levels_created :: u64
  levels_recycled :: u64
  levels_destroyed :: u64
  tree_height :: u32
  maximum_height :: u32
  average_depth :: real

definition stats_init :: avl_statistics where
  "stats_init = \<lparr>ll_rotations = 0, rr_rotations = 0, lr_rotations = 0, rl_rotations = 0,
     insertions = 0, deletions = 0, levels_created = 0, levels_recycled = 0, levels_destroyed = 0,
     tree_height = 0, maximum_height = 0, average_depth = 0\<rparr>"

definition stats_reset :: "avl_statistics \<Rightarrow> avl_statistics" where
  "stats_reset s = s\<lparr>ll_rotations := 0, rr_rotations := 0, lr_rotations := 0, rl_rotations := 0,
     insertions := 0, deletions := 0, levels_created := 0, levels_recycled := 0,
     tree_height := 0, maximum_height := 0, average_depth := 0\<rparr>"

definition total_rotations :: "avl_statistics \<Rightarrow> u64" where
  "total_rotations s = ll_rotations s + rr_rotations s + lr_rotations s + rl_rotations s"

section \<open>The tree operations\<close>

definition node_at :: "level_pool \<Rightarrow> u32 \<Rightarrow> avl_node option" where
  "node_at pool i = map_option pl_node (pool_at pool i)"

definition node_update :: "level_pool \<Rightarrow> u32 \<Rightarrow> (avl_node \<Rightarrow> avl_node) \<Rightarrow> level_pool option" where
  "node_update pool i f = pool_update pool i (\<lambda>l. l\<lparr>pl_node := f (pl_node l)\<rparr>)"

definition avl_height :: "level_pool \<Rightarrow> u32 \<Rightarrow> int option" where
  "avl_height pool idx = (if idx = kInvalidPoolIndex then Some 0
     else do { n \<leftarrow> node_at pool idx; Some (nd_height n) })"

definition balance_factor :: "level_pool \<Rightarrow> u32 \<Rightarrow> int option" where
  "balance_factor pool idx = do {
     n \<leftarrow> node_at pool idx;
     r \<leftarrow> avl_height pool (nd_right n);
     l \<leftarrow> avl_height pool (nd_left n);
     Some (r - l)
   }"

definition update_height :: "level_pool \<Rightarrow> u32 \<Rightarrow> level_pool option" where
  "update_height pool idx = do {
     n \<leftarrow> node_at pool idx;
     l \<leftarrow> avl_height pool (nd_left n);
     r \<leftarrow> avl_height pool (nd_right n);
     node_update pool idx (\<lambda>n. n\<lparr>nd_height := 1 + max l r\<rparr>)
   }"

definition set_parent_if_valid :: "level_pool \<Rightarrow> u32 \<Rightarrow> u32 \<Rightarrow> level_pool option" where
  "set_parent_if_valid pool i q = (if i \<noteq> kInvalidPoolIndex
     then node_update pool i (\<lambda>n. n\<lparr>nd_parent := q\<rparr>) else Some pool)"

definition rotate_right :: "level_pool \<Rightarrow> u32 \<Rightarrow> (u32 \<times> level_pool) option" where
  "rotate_right pool z_idx = do {
     z \<leftarrow> node_at pool z_idx;
     let y_idx = nd_left z;
     y \<leftarrow> node_at pool y_idx;
     pool \<leftarrow> node_update pool z_idx (\<lambda>n. n\<lparr>nd_left := nd_right y\<rparr>);
     y \<leftarrow> node_at pool y_idx;
     pool \<leftarrow> set_parent_if_valid pool (nd_right y) z_idx;
     pool \<leftarrow> node_update pool y_idx (\<lambda>n. n\<lparr>nd_right := z_idx\<rparr>);
     z \<leftarrow> node_at pool z_idx;
     pool \<leftarrow> node_update pool y_idx (\<lambda>n. n\<lparr>nd_parent := nd_parent z\<rparr>);
     pool \<leftarrow> node_update pool z_idx (\<lambda>n. n\<lparr>nd_parent := y_idx\<rparr>);
     pool \<leftarrow> update_height pool z_idx;
     pool \<leftarrow> update_height pool y_idx;
     Some (y_idx, pool)
   }"

definition rotate_left :: "level_pool \<Rightarrow> u32 \<Rightarrow> (u32 \<times> level_pool) option" where
  "rotate_left pool z_idx = do {
     z \<leftarrow> node_at pool z_idx;
     let y_idx = nd_right z;
     y \<leftarrow> node_at pool y_idx;
     pool \<leftarrow> node_update pool z_idx (\<lambda>n. n\<lparr>nd_right := nd_left y\<rparr>);
     y \<leftarrow> node_at pool y_idx;
     pool \<leftarrow> set_parent_if_valid pool (nd_left y) z_idx;
     pool \<leftarrow> node_update pool y_idx (\<lambda>n. n\<lparr>nd_left := z_idx\<rparr>);
     z \<leftarrow> node_at pool z_idx;
     pool \<leftarrow> node_update pool y_idx (\<lambda>n. n\<lparr>nd_parent := nd_parent z\<rparr>);
     pool \<leftarrow> node_update pool z_idx (\<lambda>n. n\<lparr>nd_parent := y_idx\<rparr>);
     pool \<leftarrow> update_height pool z_idx;
     pool \<leftarrow> update_height pool y_idx;
     Some (y_idx, pool)
   }"

definition rebalance :: "level_pool \<Rightarrow> u32 \<Rightarrow> avl_statistics \<Rightarrow>
    (u32 \<times> level_pool \<times> avl_statistics) option" where
  "rebalance pool idx stats = do {
     pool \<leftarrow> update_height pool idx;
     bf \<leftarrow> balance_factor pool idx;
     if bf < - 1 then do {
       n \<leftarrow> node_at pool idx;
       let left_idx = nd_left n;
       lb \<leftarrow> balance_factor pool left_idx;
       if lb \<le> 0 then do {
         (r, pool) \<leftarrow> rotate_right pool idx;
         Some (r, pool, stats\<lparr>ll_rotations := ll_rotations stats + 1\<rparr>)
       } else do {
         (l, pool) \<leftarrow> rotate_left pool left_idx;
         pool \<leftarrow> node_update pool idx (\<lambda>n. n\<lparr>nd_left := l\<rparr>);
         n \<leftarrow> node_at pool idx;
         pool \<leftarrow> set_parent_if_valid pool (nd_left n) idx;
         (r, pool) \<leftarrow> rotate_right pool idx;
         Some (r, pool, stats\<lparr>lr_rotations := lr_rotations stats + 1\<rparr>)
       }
     } else if bf > 1 then do {
       n \<leftarrow> node_at pool idx;
       let right_idx = nd_right n;
       rb \<leftarrow> balance_factor pool right_idx;
       if rb \<ge> 0 then do {
         (r, pool) \<leftarrow> rotate_left pool idx;
         Some (r, pool, stats\<lparr>rr_rotations := rr_rotations stats + 1\<rparr>)
       } else do {
         (l, pool) \<leftarrow> rotate_right pool right_idx;
         pool \<leftarrow> node_update pool idx (\<lambda>n. n\<lparr>nd_right := l\<rparr>);
         n \<leftarrow> node_at pool idx;
         pool \<leftarrow> set_parent_if_valid pool (nd_right n) idx;
         (r, pool) \<leftarrow> rotate_left pool idx;
         Some (r, pool, stats\<lparr>rl_rotations := rl_rotations stats + 1\<rparr>)
       }
     } else Some (idx, pool, stats)
   }"

partial_function (option) find_min_loop :: "level_pool \<Rightarrow> u32 \<Rightarrow> u32 option" where
  "find_min_loop pool idx = do {
     n \<leftarrow> node_at pool idx;
     if nd_left n \<noteq> kInvalidPoolIndex then find_min_loop pool (nd_left n) else Some idx
   }"

definition find_min :: "level_pool \<Rightarrow> u32 \<Rightarrow> u32 option" where
  "find_min pool root_idx = (if root_idx = kInvalidPoolIndex then Some kInvalidPoolIndex
     else find_min_loop pool root_idx)"

partial_function (option) find_max_loop :: "level_pool \<Rightarrow> u32 \<Rightarrow> u32 option" where
  "find_max_loop pool idx = do {
     n \<leftarrow> node_at pool idx;
     if nd_right n \<noteq> kInvalidPoolIndex then find_max_loop pool (nd_right n) else Some idx
   }"

definition find_max :: "level_pool \<Rightarrow> u32 \<Rightarrow> u32 option" where
  "find_max pool root_idx = (if root_idx = kInvalidPoolIndex then Some kInvalidPoolIndex
     else find_max_loop pool root_idx)"

partial_function (option) avl_find :: "level_pool \<Rightarrow> u32 \<Rightarrow> u32 \<Rightarrow> u32 option" where
  "avl_find pool idx price = (if idx = kInvalidPoolIndex then Some kInvalidPoolIndex
     else do {
       lvl \<leftarrow> pool_at pool idx;
       if price = pl_price lvl then Some idx
       else avl_find pool (if price < pl_price lvl then nd_left (pl_node lvl)
                           else nd_right (pl_node lvl)) price
     })"

partial_function (option) avl_insert :: "level_pool \<Rightarrow> u32 \<Rightarrow> u32 \<Rightarrow> avl_statistics \<Rightarrow>
    (u32 \<times> level_pool \<times> avl_statistics) option" where
  "avl_insert pool root_idx new_idx stats = do {
     tc_assert (new_idx \<noteq> kInvalidPoolIndex);
     let stats = stats\<lparr>insertions := insertions stats + 1\<rparr>;
     if root_idx = kInvalidPoolIndex then do {
       pool \<leftarrow> node_update pool new_idx (\<lambda>n. n\<lparr>nd_left := kInvalidPoolIndex,
         nd_right := kInvalidPoolIndex, nd_parent := kInvalidPoolIndex, nd_height := 1\<rparr>);
       Some (new_idx, pool, stats)
     } else do {
       root \<leftarrow> pool_at pool root_idx;
       node \<leftarrow> pool_at pool new_idx;
       if pl_price node < pl_price root then do {
         (l, pool, stats) \<leftarrow> avl_insert pool (nd_left (pl_node root)) new_idx stats;
         pool \<leftarrow> node_update pool root_idx (\<lambda>n. n\<lparr>nd_left := l\<rparr>);
         pool \<leftarrow> node_update pool l (\<lambda>n. n\<lparr>nd_parent := root_idx\<rparr>);
         rebalance pool root_idx stats
       } else do {
         (r, pool, stats) \<leftarrow> avl_insert pool (nd_right (pl_node root)) new_idx stats;
         pool \<leftarrow> node_update pool root_idx (\<lambda>n. n\<lparr>nd_right := r\<rparr>);
         pool \<leftarrow> node_update pool r (\<lambda>n. n\<lparr>nd_parent := root_idx\<rparr>);
         rebalance pool root_idx stats
       }
     }
   }"

partial_function (option) avl_remove :: "level_pool \<Rightarrow> u32 \<Rightarrow> u32 \<Rightarrow> avl_statistics \<Rightarrow>
    (u32 \<times> level_pool \<times> avl_statistics) option" where
  "avl_remove pool root_idx target_idx stats = (
     if root_idx = kInvalidPoolIndex then Some (kInvalidPoolIndex, pool, stats)
     else do {
       let stats = stats\<lparr>deletions := deletions stats + 1\<rparr>;
       root \<leftarrow> pool_at pool root_idx;
       target \<leftarrow> pool_at pool target_idx;
       if pl_price target < pl_price root then do {
         (l, pool, stats) \<leftarrow> avl_remove pool (nd_left (pl_node root)) target_idx stats;
         pool \<leftarrow> node_update pool root_idx (\<lambda>n. n\<lparr>nd_left := l\<rparr>);
         pool \<leftarrow> set_parent_if_valid pool l root_idx;
         rebalance pool root_idx stats
       } else if pl_price target > pl_price root then do {
         (r, pool, stats) \<leftarrow> avl_remove pool (nd_right (pl_node root)) target_idx stats;
         pool \<leftarrow> node_update pool root_idx (\<lambda>n. n\<lparr>nd_right := r\<rparr>);
         pool \<leftarrow> set_parent_if_valid pool r root_idx;
         rebalance pool root_idx stats
       } else do {
         tc_assert (root_idx = target_idx);
         let n = pl_node root;
         if nd_left n = kInvalidPoolIndex then do {
           pool \<leftarrow> set_parent_if_valid pool (nd_right n) (nd_parent n);
           pool \<leftarrow> node_update pool root_idx
             (\<lambda>n. n\<lparr>nd_left := kInvalidPoolIndex, nd_right := kInvalidPoolIndex\<rparr>);
           Some (nd_right n, pool, stats)
         } else if nd_right n = kInvalidPoolIndex then do {
           pool \<leftarrow> node_update pool (nd_left n) (\<lambda>m. m\<lparr>nd_parent := nd_parent n\<rparr>);
           pool \<leftarrow> node_update pool root_idx
             (\<lambda>n. n\<lparr>nd_left := kInvalidPoolIndex, nd_right := kInvalidPoolIndex\<rparr>);
           Some (nd_left n, pool, stats)
         } else do {
           succ_idx \<leftarrow> find_min pool (nd_right n);
           let stats = stats\<lparr>deletions := deletions stats - 1\<rparr>;
           (new_right, pool, stats) \<leftarrow> avl_remove pool (nd_right n) succ_idx stats;
           n \<leftarrow> node_at pool root_idx;
           let saved_parent = nd_parent n;
           pool \<leftarrow> node_update pool succ_idx (\<lambda>m. m\<lparr>nd_left := nd_left n,
             nd_right := new_right, nd_parent := saved_parent\<rparr>);
           n \<leftarrow> node_at pool root_idx;
           pool \<leftarrow> set_parent_if_valid pool (nd_left n) succ_idx;
           pool \<leftarrow> set_parent_if_valid pool new_right succ_idx;
           pool \<leftarrow> node_update pool root_idx
             (\<lambda>n. n\<lparr>nd_left := kInvalidPoolIndex, nd_right := kInvalidPoolIndex\<rparr>);
           rebalance pool succ_idx stats
         }
       }
     })"

definition update_stats_height :: "level_pool \<Rightarrow> u32 \<Rightarrow> avl_statistics \<Rightarrow> avl_statistics option" where
  "update_stats_height pool root_idx stats = do {
     h \<leftarrow> avl_height pool root_idx;
     let stats = stats\<lparr>tree_height := word_of_int h\<rparr>;
     Some (if tree_height stats > maximum_height stats
           then stats\<lparr>maximum_height := tree_height stats\<rparr> else stats)
   }"

end
