(* ===== verification/TC_Avl_Refine.thy ===== *)
theory TC_Avl_Refine
  imports TC_Avl_Tree
begin

text \<open>
  The pool-level AVL operations compute the functions of \<open>TC_Avl_Pure\<close>. \<open>tree_at h par i t\<close>:
  in the map \<open>h\<close> from indices to levels, index \<open>i\<close> is the root of the tree \<open>t\<close> (a tree of level
  indices), with parent link \<open>par\<close>, every child and parent link and every stored height
  right. \<open>node_frame S p q\<close>: pool \<open>q\<close> differs from \<open>p\<close> in the links of the nodes of \<open>S\<close> only.
\<close>

section \<open>Trees in a pool\<close>

fun tree_at :: "(u32 \<Rightarrow> price_level option) \<Rightarrow> u32 \<Rightarrow> u32 \<Rightarrow> u32 tree \<Rightarrow> bool" where
  "tree_at h par i Leaf = (i = kInvalidPoolIndex)"
| "tree_at h par i (Node l x r) = (i = x \<and> x \<noteq> kInvalidPoolIndex \<and> (\<exists>lv. h x = Some lv \<and>
     nd_parent (pl_node lv) = par \<and> nd_height (pl_node lv) = int (height (Node l x r)) \<and>
     tree_at h x (nd_left (pl_node lv)) l \<and> tree_at h x (nd_right (pl_node lv)) r))"

lemma tree_at_frame:
  "tree_at h par i t \<Longrightarrow> (\<And>j. j \<in> set_tree t \<Longrightarrow> h' j = h j) \<Longrightarrow> tree_at h' par i t"
proof (induction t arbitrary: par i)
  case (Node l x r)
  then obtain lv where lv: "h x = Some lv" "nd_parent (pl_node lv) = par"
    "nd_height (pl_node lv) = int (height (Node l x r))" "i = x" "x \<noteq> kInvalidPoolIndex"
    "tree_at h x (nd_left (pl_node lv)) l" "tree_at h x (nd_right (pl_node lv)) r" by auto
  have "h' x = Some lv" using Node.prems(2) lv(1) by simp
  moreover have "tree_at h' x (nd_left (pl_node lv)) l" "tree_at h' x (nd_right (pl_node lv)) r"
    using Node.IH Node.prems(2) lv by simp_all
  ultimately show ?case using lv by simp
qed simp

lemma tree_at_live: "tree_at h par i t \<Longrightarrow> j \<in> set_tree t \<Longrightarrow> j \<in> dom h \<and> j \<noteq> kInvalidPoolIndex"
  by (induction t arbitrary: par i) (auto simp: domIff)

lemma tree_at_Leaf_iff: "tree_at h par i t \<Longrightarrow> i = kInvalidPoolIndex \<longleftrightarrow> t = Leaf"
  by (cases t) auto

lemma tree_at_root: "tree_at h par i t \<Longrightarrow> i \<noteq> kInvalidPoolIndex \<Longrightarrow> i \<in> set_tree t"
  by (cases t) auto

lemma tree_at_reparent:
  assumes "tree_at h par i t" "distinct (inorder t)" "h i = Some lv"
  shows "tree_at (h(i \<mapsto> lv\<lparr>pl_node := (pl_node lv)\<lparr>nd_parent := q\<rparr>\<rparr>)) q i t"
proof (cases t)
  case (Node l x r)
  have "x \<notin> set_tree l" "x \<notin> set_tree r"
    using assms(2) Node by auto
  with assms Node show ?thesis
    by (auto intro: tree_at_frame)
qed (use assms in auto)

lemma tree_at_unique: "tree_at h par i t \<Longrightarrow> tree_at h par i t' \<Longrightarrow> t = t'"
proof (induction t arbitrary: t' par i)
  case Leaf
  then show ?case by (cases t') auto
next
  case (Node l x r)
  then show ?case by (cases t') auto
qed

lemma avl_height_tree:
  "tree_at (pool_at p) par i t \<Longrightarrow> avl_height p i = Some (int (height t))"
  by (cases t) (auto simp: avl_height_def node_at_def)

section \<open>Frames\<close>

definition pl_data :: "price_level \<Rightarrow> u32 \<times> u32 \<times> u32 \<times> u32 \<times> u32 \<times> u8" where
  "pl_data l = (pl_price l, pl_total_qty l, pl_order_count l, pl_head_order_idx l,
     pl_tail_order_idx l, pl_side l)"

definition node_frame :: "u32 set \<Rightarrow> level_pool \<Rightarrow> level_pool \<Rightarrow> bool" where
  "node_frame S p q \<longleftrightarrow> (pool_wf p \<longrightarrow> pool_wf q) \<and> capacity q = capacity p \<and>
     dom (pool_at q) = dom (pool_at p) \<and>
     (\<forall>i. i \<notin> S \<longrightarrow> pool_at q i = pool_at p i) \<and>
     (\<forall>i. map_option pl_data (pool_at q i) = map_option pl_data (pool_at p i))"

lemma node_frame_refl [intro]: "node_frame S p p"
  by (simp add: node_frame_def)

lemma node_frame_trans:
  assumes "node_frame S p q" "node_frame T q r" "S \<subseteq> U" "T \<subseteq> U"
  shows "node_frame U p r"
  unfolding node_frame_def
proof (intro conjI allI impI)
  fix i assume "i \<notin> U"
  then have "i \<notin> S" "i \<notin> T" using assms(3,4) by blast+
  then show "pool_at r i = pool_at p i" using assms(1,2) by (simp add: node_frame_def)
qed (use assms(1,2) in \<open>simp_all add: node_frame_def\<close>)

lemma node_frame_mono: "node_frame S p q \<Longrightarrow> S \<subseteq> U \<Longrightarrow> node_frame U p q"
  by (auto simp: node_frame_def)

lemma node_frame_at: "node_frame S p q \<Longrightarrow> i \<notin> S \<Longrightarrow> pool_at q i = pool_at p i"
  by (simp add: node_frame_def)

lemma node_frame_data:
  assumes "node_frame S p q" "pool_at p i = Some l"
  obtains l' where "pool_at q i = Some l'" "pl_data l' = pl_data l"
  using assms unfolding node_frame_def by (metis map_option_eq_Some)

lemma node_frame_data':
  assumes "node_frame S p q" "pool_at q i = Some l"
  obtains l' where "pool_at p i = Some l'" "pl_data l' = pl_data l"
  using assms unfolding node_frame_def by (metis map_option_eq_Some)

lemma node_frame_dom: "node_frame S p q \<Longrightarrow> dom (pool_at q) = dom (pool_at p)"
  by (simp add: node_frame_def)

lemma node_frame_wf: "node_frame S p q \<Longrightarrow> pool_wf p \<Longrightarrow> pool_wf q"
  by (simp add: node_frame_def)

lemma node_update_eq:
  "pool_at p i = Some l \<Longrightarrow>
     node_update p i f = Some (pool_set p i (l\<lparr>pl_node := f (pl_node l)\<rparr>))"
  by (simp add: node_update_def)

lemma pl_data_node [simp]: "pl_data (l\<lparr>pl_node := n\<rparr>) = pl_data l"
  by (simp add: pl_data_def)

lemma node_frame_set:
  "pool_at p i = Some l \<Longrightarrow> i \<in> S \<Longrightarrow> node_frame S p (pool_set p i (l\<lparr>pl_node := n\<rparr>))"
  by (auto simp: node_frame_def domIff)

lemma node_frame_set_trans:
  "node_frame S p q \<Longrightarrow> pool_at q i = Some l \<Longrightarrow> i \<in> S \<Longrightarrow>
     node_frame S p (pool_set q i (l\<lparr>pl_node := n\<rparr>))"
  by (rule node_frame_trans [OF _ node_frame_set]) auto

section \<open>Rotations\<close>

text \<open>One write of a height, when both children are trees.\<close>

lemma update_height_ok:
  assumes "pool_at p i = Some lv"
    and "tree_at (pool_at p) pa (nd_left (pl_node lv)) l"
    and "tree_at (pool_at p) pb (nd_right (pl_node lv)) r"
  shows "update_height p i = Some (pool_set p i
    (lv\<lparr>pl_node := (pl_node lv)\<lparr>nd_height := int (height (Node l i r))\<rparr>\<rparr>))"
  using avl_height_tree [OF assms(2)] avl_height_tree [OF assms(3)] assms(1)
  by (simp add: update_height_def node_at_def node_update_eq nat_add_distrib of_nat_max)

lemma balance_factor_ok:
  assumes "pool_at p i = Some lv"
    and "tree_at (pool_at p) pa (nd_left (pl_node lv)) l"
    and "tree_at (pool_at p) pb (nd_right (pl_node lv)) r"
  shows "balance_factor p i = Some (int (height r) - int (height l))"
  using avl_height_tree [OF assms(2)] avl_height_tree [OF assms(3)] assms(1)
  by (simp add: balance_factor_def node_at_def)

lemma set_parent_ok:
  assumes "tree_at (pool_at p) par i t" "distinct (inorder t)"
  obtains q where "set_parent_if_valid p i par' = Some q"
    "tree_at (pool_at q) par' i t" "node_frame (set_tree t) p q"
proof (cases t)
  case Leaf
  with assms that [of p] show ?thesis by (auto simp: set_parent_if_valid_def)
next
  case (Node l x r)
  with assms obtain lv where lv: "pool_at p i = Some lv" "i = x" "i \<noteq> kInvalidPoolIndex" by auto
  let ?q = "pool_set p i (lv\<lparr>pl_node := (pl_node lv)\<lparr>nd_parent := par'\<rparr>\<rparr>)"
  have "set_parent_if_valid p i par' = Some ?q"
    using lv by (simp add: set_parent_if_valid_def node_update_eq)
  moreover have "tree_at (pool_at ?q) par' i t"
    using tree_at_reparent [OF assms(1,2) lv(1)] lv by (simp add: domIff)
  moreover have "node_frame (set_tree t) p ?q"
    using lv Node by (simp add: node_frame_set)
  ultimately show ?thesis by (rule that)
qed

text \<open>
  Writing the height of a node whose children are trees makes it the root of a tree. Every
  rotation and every path that does not rotate ends with this step.
\<close>

lemma update_height_tree:
  assumes i: "pool_at p i = Some lv" "i \<noteq> kInvalidPoolIndex"
    and l: "tree_at (pool_at p) i (nd_left (pl_node lv)) l" "i \<notin> set_tree l"
    and r: "tree_at (pool_at p) i (nd_right (pl_node lv)) r" "i \<notin> set_tree r"
  obtains q where "update_height p i = Some q"
    "tree_at (pool_at q) (nd_parent (pl_node lv)) i (Node l i r)" "node_frame {i} p q"
    "pool_at q i = Some (lv\<lparr>pl_node := (pl_node lv)\<lparr>nd_height := int (height (Node l i r))\<rparr>\<rparr>)"
proof -
  let ?lv = "lv\<lparr>pl_node := (pl_node lv)\<lparr>nd_height := int (height (Node l i r))\<rparr>\<rparr>"
  let ?q = "pool_set p i ?lv"
  have "tree_at (pool_at ?q) i (nd_left (pl_node lv)) l"
    using l(2) i(1) by (intro tree_at_frame [OF l(1)]) auto
  moreover have "tree_at (pool_at ?q) i (nd_right (pl_node lv)) r"
    using r(2) i(1) by (intro tree_at_frame [OF r(1)]) auto
  ultimately have "tree_at (pool_at ?q) (nd_parent (pl_node lv)) i (Node l i r)"
    using i by (simp del: height_tree.simps)
  then show ?thesis
    using that update_height_ok [OF i(1) l(1) r(1)] i(1) node_frame_set [of p i lv "{i}"] by simp
qed

text \<open>
  The pointer writes of a rotation of \<open>z\<close> with its child \<open>y\<close>: the inner subtree \<open>b\<close> of \<open>y\<close> goes to
  \<open>z\<close>, then \<open>y\<close> and \<open>z\<close> get their new links. Everything outside keeps its slot.
\<close>

lemma rewire:
  assumes z: "pool_at p z = Some lz" and y: "pool_at p y = Some ly" and ne: "y \<noteq> z"
    and b: "tree_at (pool_at p) y bi b" "distinct (inorder b)" "y \<notin> set_tree b" "z \<notin> set_tree b"
  obtains p2 p5 where
    "set_parent_if_valid (pool_set p z (lz\<lparr>pl_node := n1\<rparr>)) bi z = Some p2"
    "pool_at p2 z = Some (lz\<lparr>pl_node := n1\<rparr>)" "pool_at p2 y = Some ly"
    "p5 = pool_set (pool_set p2 y (ly\<lparr>pl_node := ny\<rparr>)) z (lz\<lparr>pl_node := nz\<rparr>)"
    "pool_at p5 z = Some (lz\<lparr>pl_node := nz\<rparr>)" "pool_at p5 y = Some (ly\<lparr>pl_node := ny\<rparr>)"
    "tree_at (pool_at p5) z bi b"
    "\<And>j. j \<notin> insert y (insert z (set_tree b)) \<Longrightarrow> pool_at p5 j = pool_at p j"
    "node_frame (insert y (insert z (set_tree b))) p p5"
proof -
  let ?p1 = "pool_set p z (lz\<lparr>pl_node := n1\<rparr>)" and ?S = "insert y (insert z (set_tree b))"
  have b1: "tree_at (pool_at ?p1) y bi b" using b(4) z by (intro tree_at_frame [OF b(1)]) auto
  obtain p2 where p2: "set_parent_if_valid ?p1 bi z = Some p2" "tree_at (pool_at p2) z bi b"
    "node_frame (set_tree b) ?p1 p2"
    by (rule set_parent_ok [OF b1 b(2)])
  have at2: "pool_at p2 z = Some (lz\<lparr>pl_node := n1\<rparr>)" "pool_at p2 y = Some ly"
    using node_frame_at [OF p2(3) b(4)] node_frame_at [OF p2(3) b(3)] ne y z by auto
  define p5 where "p5 = pool_set (pool_set p2 y (ly\<lparr>pl_node := ny\<rparr>)) z (lz\<lparr>pl_node := nz\<rparr>)"
  have at5: "pool_at p5 = (pool_at p2)(y \<mapsto> ly\<lparr>pl_node := ny\<rparr>, z \<mapsto> lz\<lparr>pl_node := nz\<rparr>)"
    using at2 ne by (simp add: p5_def)
  have b5: "tree_at (pool_at p5) z bi b" using b(3,4) by (intro tree_at_frame [OF p2(2)]) (auto simp: at5)
  have out: "pool_at p5 j = pool_at p j" if "j \<notin> ?S" for j
    using that z node_frame_at [OF p2(3), of j] by (simp add: at5)
  have "node_frame ?S p p2" by (rule node_frame_trans [OF node_frame_set p2(3)]) (use z in auto)
  then have "node_frame ?S p (pool_set p2 y (ly\<lparr>pl_node := ny\<rparr>))"
    by (rule node_frame_set_trans) (use at2 in auto)
  moreover have "pool_at (pool_set p2 y (ly\<lparr>pl_node := ny\<rparr>)) z = Some (lz\<lparr>pl_node := n1\<rparr>)"
    using at2 ne by simp
  ultimately have "node_frame ?S p (pool_set (pool_set p2 y (ly\<lparr>pl_node := ny\<rparr>)) z
      ((lz\<lparr>pl_node := n1\<rparr>)\<lparr>pl_node := nz\<rparr>))"
    by (rule node_frame_set_trans) simp
  then have fr: "node_frame ?S p p5" by (simp add: p5_def)
  have "pool_at p5 z = Some (lz\<lparr>pl_node := nz\<rparr>)" "pool_at p5 y = Some (ly\<lparr>pl_node := ny\<rparr>)"
    using ne by (simp_all add: at5)
  then show ?thesis using that [OF p2(1) at2 p5_def _ _ b5 out fr] by blast
qed

text \<open>The two writes of heights that end a rotation: first the lower node, then the upper one.\<close>

lemma heights_right:
  assumes z: "pool_at p z = Some lz" "z \<noteq> kInvalidPoolIndex" "nd_parent (pl_node lz) = y"
    and y: "pool_at p y = Some ly" "y \<noteq> kInvalidPoolIndex" "nd_right (pl_node ly) = z"
    and a: "tree_at (pool_at p) y (nd_left (pl_node ly)) a"
    and b: "tree_at (pool_at p) z (nd_left (pl_node lz)) b"
    and c: "tree_at (pool_at p) z (nd_right (pl_node lz)) c"
    and d: "distinct (inorder (Node a y (Node b z c)))"
  obtains q r where "update_height p z = Some q" "update_height q y = Some r"
    "tree_at (pool_at r) (nd_parent (pl_node ly)) y (Node a y (Node b z c))" "node_frame {y, z} p r"
proof -
  have n: "z \<notin> set_tree b" "z \<notin> set_tree c" "y \<notin> set_tree (Node b z c)" "y \<notin> set_tree a" "z \<notin> set_tree a" "y \<noteq> z"
    using d by auto
  obtain q where q: "update_height p z = Some q"
    "tree_at (pool_at q) (nd_parent (pl_node lz)) z (Node b z c)" "node_frame {z} p q"
    by (rule update_height_tree [OF z(1,2) b n(1) c n(2)])
  have yq: "pool_at q y = Some ly" using node_frame_at [OF q(3), of y] n(6) y(1) by simp
  have aq: "tree_at (pool_at q) y (nd_left (pl_node ly)) a"
    using n(5) by (intro tree_at_frame [OF a] node_frame_at [OF q(3)]) auto
  have zq: "tree_at (pool_at q) y (nd_right (pl_node ly)) (Node b z c)" using q(2) z(3) y(3) by simp
  obtain r where r: "update_height q y = Some r"
    "tree_at (pool_at r) (nd_parent (pl_node ly)) y (Node a y (Node b z c))" "node_frame {y} q r"
    by (rule update_height_tree [OF yq y(2) aq n(4) zq n(3)])
  show ?thesis by (rule that [OF q(1) r(1,2) node_frame_trans [OF q(3) r(3)]]) auto
qed

lemma heights_left:
  assumes z: "pool_at p z = Some lz" "z \<noteq> kInvalidPoolIndex" "nd_parent (pl_node lz) = y"
    and y: "pool_at p y = Some ly" "y \<noteq> kInvalidPoolIndex" "nd_left (pl_node ly) = z"
    and a: "tree_at (pool_at p) y (nd_right (pl_node ly)) a"
    and b: "tree_at (pool_at p) z (nd_right (pl_node lz)) b"
    and c: "tree_at (pool_at p) z (nd_left (pl_node lz)) c"
    and d: "distinct (inorder (Node (Node c z b) y a))"
  obtains q r where "update_height p z = Some q" "update_height q y = Some r"
    "tree_at (pool_at r) (nd_parent (pl_node ly)) y (Node (Node c z b) y a)" "node_frame {y, z} p r"
proof -
  have n: "z \<notin> set_tree b" "z \<notin> set_tree c" "y \<notin> set_tree (Node c z b)" "y \<notin> set_tree a" "z \<notin> set_tree a" "y \<noteq> z"
    using d by auto
  obtain q where q: "update_height p z = Some q"
    "tree_at (pool_at q) (nd_parent (pl_node lz)) z (Node c z b)" "node_frame {z} p q"
    by (rule update_height_tree [OF z(1,2) c n(2) b n(1)])
  have yq: "pool_at q y = Some ly" using node_frame_at [OF q(3), of y] n(6) y(1) by simp
  have aq: "tree_at (pool_at q) y (nd_right (pl_node ly)) a"
    using n(5) by (intro tree_at_frame [OF a] node_frame_at [OF q(3)]) auto
  have zq: "tree_at (pool_at q) y (nd_left (pl_node ly)) (Node c z b)" using q(2) z(3) y(3) by simp
  obtain r where r: "update_height q y = Some r"
    "tree_at (pool_at r) (nd_parent (pl_node ly)) y (Node (Node c z b) y a)" "node_frame {y} q r"
    by (rule update_height_tree [OF yq y(2) zq n(3) aq n(4)])
  show ?thesis by (rule that [OF q(1) r(1,2) node_frame_trans [OF q(3) r(3)]]) auto
qed

lemma rotate_right_ok:
  assumes z: "pool_at p z = Some lz" "z \<noteq> kInvalidPoolIndex"
    and l: "tree_at (pool_at p) q y (Node a y b)" "nd_left (pl_node lz) = y"
    and c: "tree_at (pool_at p) z (nd_right (pl_node lz)) c"
    and d: "distinct (inorder (Node (Node a y b) z c))"
  obtains p' where "rotate_right p z = Some (y, p')"
    "tree_at (pool_at p') (nd_parent (pl_node lz)) y (Node a y (Node b z c))"
    "node_frame (set_tree (Node (Node a y b) z c)) p p'"
proof -
  obtain ly where ly: "pool_at p y = Some ly" "y \<noteq> kInvalidPoolIndex"
    "tree_at (pool_at p) y (nd_left (pl_node ly)) a" "tree_at (pool_at p) y (nd_right (pl_node ly)) b"
    using l by auto
  have ne: "y \<noteq> z" "distinct (inorder b)" "y \<notin> set_tree b" "z \<notin> set_tree b" using d by auto
  let ?nz = "(pl_node lz)\<lparr>nd_left := nd_right (pl_node ly)\<rparr>"
  let ?ny = "(pl_node ly)\<lparr>nd_right := z, nd_parent := nd_parent (pl_node lz)\<rparr>"
  let ?ly = "ly\<lparr>pl_node := ?ny\<rparr>" and ?lz = "lz\<lparr>pl_node := ?nz\<lparr>nd_parent := y\<rparr>\<rparr>"
  obtain p2 p5 where r: "set_parent_if_valid (pool_set p z (lz\<lparr>pl_node := ?nz\<rparr>)) (nd_right (pl_node ly)) z = Some p2"
    "pool_at p2 z = Some (lz\<lparr>pl_node := ?nz\<rparr>)" "pool_at p2 y = Some ly"
    "p5 = pool_set (pool_set p2 y ?ly) z ?lz" "pool_at p5 z = Some ?lz" "pool_at p5 y = Some ?ly"
    "tree_at (pool_at p5) z (nd_right (pl_node ly)) b"
    and out: "\<And>j. j \<notin> insert y (insert z (set_tree b)) \<Longrightarrow> pool_at p5 j = pool_at p j"
    and fr: "node_frame (insert y (insert z (set_tree b))) p p5"
    by (rule rewire [where ?n1.0 = ?nz and ny = ?ny and nz = "?nz\<lparr>nd_parent := y\<rparr>", OF z(1) ly(1) ne(1) ly(4) ne(2-4)])
      (rule that)
  have a5: "tree_at (pool_at p5) y (nd_left (pl_node ?ly)) a"
    and c5: "tree_at (pool_at p5) z (nd_right (pl_node ?lz)) c"
    using d by (auto intro!: tree_at_frame [OF ly(3)] tree_at_frame [OF c] out)
  have b5: "tree_at (pool_at p5) z (nd_left (pl_node ?lz)) b" using r(7) by simp
  have d5: "distinct (inorder (Node a y (Node b z c)))" using d by simp
  obtain p6 p7 where h: "update_height p5 z = Some p6" "update_height p6 y = Some p7"
    "tree_at (pool_at p7) (nd_parent (pl_node ?ly)) y (Node a y (Node b z c))" "node_frame {y, z} p5 p7"
    by (rule heights_right [OF r(5) z(2) _ r(6) ly(2) _ a5 b5 c5 d5]) simp_all
  have "rotate_right p z = Some (y, p7)"
    using z ly(1) l(2) r(1-4) ne(1) h(1,2)
    by (simp add: rotate_right_def node_at_def node_update_eq Let_def)
  moreover have "node_frame (set_tree (Node (Node a y b) z c)) p p7"
    by (rule node_frame_trans [OF fr h(4)]) auto
  ultimately show ?thesis using that h(3) by simp
qed

lemma rotate_left_ok:
  assumes z: "pool_at p z = Some lz" "z \<noteq> kInvalidPoolIndex"
    and l: "tree_at (pool_at p) q y (Node b y a)" "nd_right (pl_node lz) = y"
    and c: "tree_at (pool_at p) z (nd_left (pl_node lz)) c"
    and d: "distinct (inorder (Node c z (Node b y a)))"
  obtains p' where "rotate_left p z = Some (y, p')"
    "tree_at (pool_at p') (nd_parent (pl_node lz)) y (Node (Node c z b) y a)"
    "node_frame (set_tree (Node c z (Node b y a))) p p'"
proof -
  obtain ly where ly: "pool_at p y = Some ly" "y \<noteq> kInvalidPoolIndex"
    "tree_at (pool_at p) y (nd_right (pl_node ly)) a" "tree_at (pool_at p) y (nd_left (pl_node ly)) b"
    using l by auto
  have ne: "y \<noteq> z" "distinct (inorder b)" "y \<notin> set_tree b" "z \<notin> set_tree b" using d by auto
  let ?nz = "(pl_node lz)\<lparr>nd_right := nd_left (pl_node ly)\<rparr>"
  let ?ny = "(pl_node ly)\<lparr>nd_left := z, nd_parent := nd_parent (pl_node lz)\<rparr>"
  let ?ly = "ly\<lparr>pl_node := ?ny\<rparr>" and ?lz = "lz\<lparr>pl_node := ?nz\<lparr>nd_parent := y\<rparr>\<rparr>"
  obtain p2 p5 where r: "set_parent_if_valid (pool_set p z (lz\<lparr>pl_node := ?nz\<rparr>)) (nd_left (pl_node ly)) z = Some p2"
    "pool_at p2 z = Some (lz\<lparr>pl_node := ?nz\<rparr>)" "pool_at p2 y = Some ly"
    "p5 = pool_set (pool_set p2 y ?ly) z ?lz" "pool_at p5 z = Some ?lz" "pool_at p5 y = Some ?ly"
    "tree_at (pool_at p5) z (nd_left (pl_node ly)) b"
    and out: "\<And>j. j \<notin> insert y (insert z (set_tree b)) \<Longrightarrow> pool_at p5 j = pool_at p j"
    and fr: "node_frame (insert y (insert z (set_tree b))) p p5"
    by (rule rewire [where ?n1.0 = ?nz and ny = ?ny and nz = "?nz\<lparr>nd_parent := y\<rparr>", OF z(1) ly(1) ne(1) ly(4) ne(2-4)])
      (rule that)
  have a5: "tree_at (pool_at p5) y (nd_right (pl_node ?ly)) a"
    and c5: "tree_at (pool_at p5) z (nd_left (pl_node ?lz)) c"
    using d by (auto intro!: tree_at_frame [OF ly(3)] tree_at_frame [OF c] out)
  have b5: "tree_at (pool_at p5) z (nd_right (pl_node ?lz)) b" using r(7) by simp
  have d5: "distinct (inorder (Node (Node c z b) y a))" using d by simp
  obtain p6 p7 where h: "update_height p5 z = Some p6" "update_height p6 y = Some p7"
    "tree_at (pool_at p7) (nd_parent (pl_node ?ly)) y (Node (Node c z b) y a)" "node_frame {y, z} p5 p7"
    by (rule heights_left [OF r(5) z(2) _ r(6) ly(2) _ a5 b5 c5 d5]) simp_all
  have "rotate_left p z = Some (y, p7)"
    using z ly(1) l(2) r(1-4) ne(1) h(1,2)
    by (simp add: rotate_left_def node_at_def node_update_eq Let_def)
  moreover have "node_frame (set_tree (Node c z (Node b y a))) p p7"
    by (rule node_frame_trans [OF fr h(4)]) auto
  ultimately show ?thesis using that h(3) by simp
qed

text \<open>Hanging a tree below a node: the child link is written, then the parent link of the child.\<close>

lemma hang_left:
  assumes x: "pool_at p x = Some lv"
    and l: "tree_at (pool_at p) p0 l' l"
    and r: "tree_at (pool_at p) x (nd_right (pl_node lv)) r"
    and d: "distinct (inorder (Node l x r))"
  defines "lw \<equiv> lv\<lparr>pl_node := (pl_node lv)\<lparr>nd_left := l'\<rparr>\<rparr>"
  obtains q2 q3 where "node_update p x (\<lambda>n. n\<lparr>nd_left := l'\<rparr>) = Some q2" "node_at q2 x = Some (pl_node lw)"
    "set_parent_if_valid q2 l' x = Some q3" "pool_at q3 x = Some lw"
    "tree_at (pool_at q3) x (nd_left (pl_node lw)) l" "tree_at (pool_at q3) x (nd_right (pl_node lw)) r"
    "node_frame (set_tree (Node l x r)) p q3"
proof -
  have nx: "x \<notin> set_tree l" "distinct (inorder l)" using d by auto
  let ?q2 = "pool_set p x lw"
  have l2: "tree_at (pool_at ?q2) p0 l' l" using nx x by (intro tree_at_frame [OF l]) auto
  obtain q3 where q3: "set_parent_if_valid ?q2 l' x = Some q3" "tree_at (pool_at q3) x l' l"
    "node_frame (set_tree l) ?q2 q3"
    by (rule set_parent_ok [OF l2 nx(2)])
  have x3: "pool_at q3 x = Some lw" using node_frame_at [OF q3(3) nx(1)] x by simp
  have r3: "tree_at (pool_at q3) x (nd_right (pl_node lv)) r"
  proof (rule tree_at_frame [OF r])
    fix j assume "j \<in> set_tree r"
    then have "j \<notin> set_tree l" "j \<noteq> x" using d by auto
    then show "pool_at q3 j = pool_at p j" using node_frame_at [OF q3(3), of j] x by simp
  qed
  have "node_frame (set_tree (Node l x r)) p ?q2" unfolding lw_def by (rule node_frame_set [OF x]) simp
  then have "node_frame (set_tree (Node l x r)) p q3" by (rule node_frame_trans [OF _ q3(3)]) auto
  with x3 r3 q3 x show ?thesis
    by (intro that [of ?q2 q3]) (simp_all add: node_update_eq node_at_def lw_def)
qed

lemma hang_right:
  assumes x: "pool_at p x = Some lv"
    and l: "tree_at (pool_at p) p0 l' l"
    and r: "tree_at (pool_at p) x (nd_left (pl_node lv)) r"
    and d: "distinct (inorder (Node r x l))"
  defines "lw \<equiv> lv\<lparr>pl_node := (pl_node lv)\<lparr>nd_right := l'\<rparr>\<rparr>"
  obtains q2 q3 where "node_update p x (\<lambda>n. n\<lparr>nd_right := l'\<rparr>) = Some q2" "node_at q2 x = Some (pl_node lw)"
    "set_parent_if_valid q2 l' x = Some q3" "pool_at q3 x = Some lw"
    "tree_at (pool_at q3) x (nd_right (pl_node lw)) l" "tree_at (pool_at q3) x (nd_left (pl_node lw)) r"
    "node_frame (set_tree (Node r x l)) p q3"
proof -
  have nx: "x \<notin> set_tree l" "distinct (inorder l)" using d by auto
  let ?q2 = "pool_set p x lw"
  have l2: "tree_at (pool_at ?q2) p0 l' l" using nx x by (intro tree_at_frame [OF l]) auto
  obtain q3 where q3: "set_parent_if_valid ?q2 l' x = Some q3" "tree_at (pool_at q3) x l' l"
    "node_frame (set_tree l) ?q2 q3"
    by (rule set_parent_ok [OF l2 nx(2)])
  have x3: "pool_at q3 x = Some lw" using node_frame_at [OF q3(3) nx(1)] x by simp
  have r3: "tree_at (pool_at q3) x (nd_left (pl_node lv)) r"
  proof (rule tree_at_frame [OF r])
    fix j assume "j \<in> set_tree r"
    then have "j \<notin> set_tree l" "j \<noteq> x" using d by auto
    then show "pool_at q3 j = pool_at p j" using node_frame_at [OF q3(3), of j] x by simp
  qed
  have "node_frame (set_tree (Node r x l)) p ?q2" unfolding lw_def by (rule node_frame_set [OF x]) simp
  then have "node_frame (set_tree (Node r x l)) p q3" by (rule node_frame_trans [OF _ q3(3)]) auto
  with x3 r3 q3 x show ?thesis
    by (intro that [of ?q2 q3]) (simp_all add: node_update_eq node_at_def lw_def)
qed

text \<open>The two rotations of a left-heavy node, after its height has been written.\<close>

lemma left_single:
  assumes i: "pool_at p i = Some lv" "i \<noteq> kInvalidPoolIndex"
    and l: "tree_at (pool_at p) i (nd_left (pl_node lv)) l"
    and r: "tree_at (pool_at p) i (nd_right (pl_node lv)) r"
    and d: "distinct (inorder (Node l i r))" and ne: "l \<noteq> Leaf"
  obtains root q where "rotate_right p i = Some (root, q)"
    "tree_at (pool_at q) (nd_parent (pl_node lv)) root (rotR (Node l i r))"
    "node_frame (set_tree (Node l i r)) p q"
proof -
  obtain a y b where eq: "l = Node a y b" using ne by (cases l) auto
  have y: "nd_left (pl_node lv) = y" using l eq by simp
  have l': "tree_at (pool_at p) i y (Node a y b)" using l eq y by simp
  have d': "distinct (inorder (Node (Node a y b) i r))" using d eq by simp
  show ?thesis
    by (rule rotate_right_ok [OF i l' y r d']) (rule that, auto simp: eq)
qed

lemma left_double:
  assumes i: "pool_at p i = Some lv" "i \<noteq> kInvalidPoolIndex"
    and l: "tree_at (pool_at p) i (nd_left (pl_node lv)) l"
    and r: "tree_at (pool_at p) i (nd_right (pl_node lv)) r"
    and d: "distinct (inorder (Node l i r))" and h: "\<not> left_heavy l"
  obtains x q1 q2 n q3 root q where
    "rotate_left p (nd_left (pl_node lv)) = Some (x, q1)"
    "node_update q1 i (\<lambda>n. n\<lparr>nd_left := x\<rparr>) = Some q2" "node_at q2 i = Some n"
    "set_parent_if_valid q2 (nd_left n) i = Some q3"
    "rotate_right q3 i = Some (root, q)"
    "tree_at (pool_at q) (nd_parent (pl_node lv)) root (rotR (Node (rotL l) i r))"
    "node_frame (set_tree (Node l i r)) p q"
proof -
  obtain a y b' x c' where eq: "l = Node a y (Node b' x c')"
    using h by (cases l rule: rotL.cases) auto
  obtain ly where ly: "pool_at p y = Some ly" "y \<noteq> kInvalidPoolIndex" "nd_parent (pl_node ly) = i"
    "tree_at (pool_at p) y (nd_left (pl_node ly)) a"
    "tree_at (pool_at p) y (nd_right (pl_node ly)) (Node b' x c')" "nd_left (pl_node lv) = y"
    using l eq by auto
  have x: "nd_right (pl_node ly) = x" using ly(5) by simp
  have dl: "distinct (inorder (Node a y (Node b' x c')))" and il: "i \<notin> set_tree l" "i \<notin> set_tree r"
    using d eq by auto
  obtain q1 where q1: "rotate_left p y = Some (x, q1)"
    "tree_at (pool_at q1) i x (rotL l)" "node_frame (set_tree l) p q1"
    using rotate_left_ok [OF ly(1,2) ly(5) [unfolded x] x ly(4) dl] ly(3) eq by auto
  have i1: "pool_at q1 i = Some lv" using node_frame_at [OF q1(3) il(1)] i(1) by simp
  have r1: "tree_at (pool_at q1) i (nd_right (pl_node lv)) r"
    using d by (intro tree_at_frame [OF r] node_frame_at [OF q1(3)]) auto
  have st: "set_tree (rotL l) = set_tree l" by (simp flip: set_inorder)
  have d3: "distinct (inorder (Node (rotL l) i r))" using d by simp
  let ?lv = "lv\<lparr>pl_node := (pl_node lv)\<lparr>nd_left := x\<rparr>\<rparr>"
  obtain q2 q3 where q3: "node_update q1 i (\<lambda>n. n\<lparr>nd_left := x\<rparr>) = Some q2" "node_at q2 i = Some (pl_node ?lv)"
    "set_parent_if_valid q2 x i = Some q3" "pool_at q3 i = Some ?lv"
    "tree_at (pool_at q3) i (nd_left (pl_node ?lv)) (rotL l)" "tree_at (pool_at q3) i (nd_right (pl_node ?lv)) r"
    "node_frame (set_tree (Node (rotL l) i r)) q1 q3"
    by (rule hang_left [OF i1 q1(2) r1 d3])
  have ne: "rotL l \<noteq> Leaf" using eq by simp
  obtain root q where q: "rotate_right q3 i = Some (root, q)"
    "tree_at (pool_at q) (nd_parent (pl_node ?lv)) root (rotR (Node (rotL l) i r))"
    "node_frame (set_tree (Node (rotL l) i r)) q3 q"
    by (rule left_single [OF q3(4) i(2) q3(5,6) d3 ne])
  have "node_frame (set_tree (Node l i r)) p q3" by (rule node_frame_trans [OF q1(3) q3(7)]) (use st in auto)
  then have "node_frame (set_tree (Node l i r)) p q" by (rule node_frame_trans [OF _ q(3)]) (use st in auto)
  then show ?thesis using that [of x q1 q2 "pl_node ?lv" q3 root q] q1(1) ly(6) q3(1-3) q(1,2) by simp
qed

text \<open>The two rotations of a right-heavy node, after its height has been written.\<close>

lemma right_single:
  assumes i: "pool_at p i = Some lv" "i \<noteq> kInvalidPoolIndex"
    and l: "tree_at (pool_at p) i (nd_right (pl_node lv)) l"
    and r: "tree_at (pool_at p) i (nd_left (pl_node lv)) r"
    and d: "distinct (inorder (Node r i l))" and ne: "l \<noteq> Leaf"
  obtains root q where "rotate_left p i = Some (root, q)"
    "tree_at (pool_at q) (nd_parent (pl_node lv)) root (rotL (Node r i l))"
    "node_frame (set_tree (Node r i l)) p q"
proof -
  obtain a y b where eq: "l = Node a y b" using ne by (cases l) auto
  have y: "nd_right (pl_node lv) = y" using l eq by simp
  have l': "tree_at (pool_at p) i y (Node a y b)" using l eq y by simp
  have d': "distinct (inorder (Node r i (Node a y b)))" using d eq by simp
  show ?thesis
    by (rule rotate_left_ok [OF i l' y r d']) (rule that, auto simp: eq)
qed

lemma right_double:
  assumes i: "pool_at p i = Some lv" "i \<noteq> kInvalidPoolIndex"
    and l: "tree_at (pool_at p) i (nd_right (pl_node lv)) l"
    and r: "tree_at (pool_at p) i (nd_left (pl_node lv)) r"
    and d: "distinct (inorder (Node r i l))" and h: "\<not> right_heavy l"
  obtains x q1 q2 n q3 root q where
    "rotate_right p (nd_right (pl_node lv)) = Some (x, q1)"
    "node_update q1 i (\<lambda>n. n\<lparr>nd_right := x\<rparr>) = Some q2" "node_at q2 i = Some n"
    "set_parent_if_valid q2 (nd_right n) i = Some q3"
    "rotate_left q3 i = Some (root, q)"
    "tree_at (pool_at q) (nd_parent (pl_node lv)) root (rotL (Node r i (rotR l)))"
    "node_frame (set_tree (Node r i l)) p q"
proof -
  obtain a y b' x c' where eq: "l = Node (Node b' x c') y a"
    using h by (cases l rule: rotR.cases) auto
  obtain ly where ly: "pool_at p y = Some ly" "y \<noteq> kInvalidPoolIndex" "nd_parent (pl_node ly) = i"
    "tree_at (pool_at p) y (nd_right (pl_node ly)) a"
    "tree_at (pool_at p) y (nd_left (pl_node ly)) (Node b' x c')" "nd_right (pl_node lv) = y"
    using l eq by auto
  have x: "nd_left (pl_node ly) = x" using ly(5) by simp
  have dl: "distinct (inorder (Node (Node b' x c') y a))" and il: "i \<notin> set_tree l" "i \<notin> set_tree r"
    using d eq by auto
  obtain q1 where q1: "rotate_right p y = Some (x, q1)"
    "tree_at (pool_at q1) i x (rotR l)" "node_frame (set_tree l) p q1"
    using rotate_right_ok [OF ly(1,2) ly(5) [unfolded x] x ly(4) dl] ly(3) eq by auto
  have i1: "pool_at q1 i = Some lv" using node_frame_at [OF q1(3) il(1)] i(1) by simp
  have r1: "tree_at (pool_at q1) i (nd_left (pl_node lv)) r"
    using d by (intro tree_at_frame [OF r] node_frame_at [OF q1(3)]) auto
  have st: "set_tree (rotR l) = set_tree l" by (simp flip: set_inorder)
  have d3: "distinct (inorder (Node r i (rotR l)))" using d by simp
  let ?lv = "lv\<lparr>pl_node := (pl_node lv)\<lparr>nd_right := x\<rparr>\<rparr>"
  obtain q2 q3 where q3: "node_update q1 i (\<lambda>n. n\<lparr>nd_right := x\<rparr>) = Some q2" "node_at q2 i = Some (pl_node ?lv)"
    "set_parent_if_valid q2 x i = Some q3" "pool_at q3 i = Some ?lv"
    "tree_at (pool_at q3) i (nd_right (pl_node ?lv)) (rotR l)" "tree_at (pool_at q3) i (nd_left (pl_node ?lv)) r"
    "node_frame (set_tree (Node r i (rotR l))) q1 q3"
    by (rule hang_right [OF i1 q1(2) r1 d3])
  have ne: "rotR l \<noteq> Leaf" using eq by simp
  obtain root q where q: "rotate_left q3 i = Some (root, q)"
    "tree_at (pool_at q) (nd_parent (pl_node ?lv)) root (rotL (Node r i (rotR l)))"
    "node_frame (set_tree (Node r i (rotR l))) q3 q"
    by (rule right_single [OF q3(4) i(2) q3(5,6) d3 ne])
  have "node_frame (set_tree (Node r i l)) p q3" by (rule node_frame_trans [OF q1(3) q3(7)]) (use st in auto)
  then have "node_frame (set_tree (Node r i l)) p q" by (rule node_frame_trans [OF _ q(3)]) (use st in auto)
  then show ?thesis using that [of x q1 q2 "pl_node ?lv" q3 root q] q1(1) ly(6) q3(1-3) q(1,2) by simp
qed

lemma left_heavy_balance:
  assumes "tree_at (pool_at p) i j l" "l \<noteq> Leaf"
  shows "\<exists>k. balance_factor p j = Some k \<and> (k \<le> 0 \<longleftrightarrow> left_heavy l) \<and> (0 \<le> k \<longleftrightarrow> right_heavy l)"
proof -
  obtain a y b where eq: "l = Node a y b" using assms(2) by (cases l) auto
  with assms(1) obtain ly where ly: "pool_at p y = Some ly" "j = y"
    "tree_at (pool_at p) y (nd_left (pl_node ly)) a" "tree_at (pool_at p) y (nd_right (pl_node ly)) b"
    by auto
  have "balance_factor p j = Some (int (height b) - int (height a))"
    unfolding ly(2) by (rule balance_factor_ok [OF ly(1,3,4)])
  then show ?thesis using eq by simp
qed

text \<open>The rotations as \<open>rebalance\<close> chooses them, after the height of the node has been written.\<close>

lemma rebalance_left:
  assumes up: "update_height p i = Some p1" and i: "pool_at p1 i = Some lv" "i \<noteq> kInvalidPoolIndex"
    and l: "tree_at (pool_at p1) i (nd_left (pl_node lv)) l"
    and r: "tree_at (pool_at p1) i (nd_right (pl_node lv)) r"
    and d: "distinct (inorder (Node l i r))" and h: "height r + 1 < height l"
  obtains root q st' where "rebalance p i st = Some (root, q, st')"
    "tree_at (pool_at q) (nd_parent (pl_node lv)) root (bal l i r)"
    "node_frame (set_tree (Node l i r)) p1 q"
proof -
  have bf: "balance_factor p1 i = Some (int (height r) - int (height l))" by (rule balance_factor_ok [OF i(1) l r])
  have nd: "node_at p1 i = Some (pl_node lv)" using i(1) by (simp add: node_at_def)
  have ne: "l \<noteq> Leaf" using h by auto
  note reb = rebalance_def [of p i st] up bf nd bal_def
  show ?thesis
  proof (cases "left_heavy l")
    case True
    obtain root q where q: "rotate_right p1 i = Some (root, q)"
      "tree_at (pool_at q) (nd_parent (pl_node lv)) root (rotR (Node l i r))" "node_frame (set_tree (Node l i r)) p1 q"
      by (rule left_single [OF i l r d ne])
    then show ?thesis
      using that [of root q] h True left_heavy_balance [OF l ne] by (auto simp: reb)
  next
    case False
    obtain x q1 q2 n q3 root q where q: "rotate_left p1 (nd_left (pl_node lv)) = Some (x, q1)"
      "node_update q1 i (\<lambda>n. n\<lparr>nd_left := x\<rparr>) = Some q2" "node_at q2 i = Some n"
      "set_parent_if_valid q2 (nd_left n) i = Some q3" "rotate_right q3 i = Some (root, q)"
      "tree_at (pool_at q) (nd_parent (pl_node lv)) root (rotR (Node (rotL l) i r))"
      "node_frame (set_tree (Node l i r)) p1 q"
      by (rule left_double [OF i l r d False])
    then show ?thesis
      using that [of root q] h False left_heavy_balance [OF l ne] by (auto simp: reb)
  qed
qed

lemma rebalance_right:
  assumes up: "update_height p i = Some p1" and i: "pool_at p1 i = Some lv" "i \<noteq> kInvalidPoolIndex"
    and l: "tree_at (pool_at p1) i (nd_left (pl_node lv)) l"
    and r: "tree_at (pool_at p1) i (nd_right (pl_node lv)) r"
    and d: "distinct (inorder (Node l i r))" and h: "height l + 1 < height r"
  obtains root q st' where "rebalance p i st = Some (root, q, st')"
    "tree_at (pool_at q) (nd_parent (pl_node lv)) root (bal l i r)"
    "node_frame (set_tree (Node l i r)) p1 q"
proof -
  have bf: "balance_factor p1 i = Some (int (height r) - int (height l))" by (rule balance_factor_ok [OF i(1) l r])
  have nd: "node_at p1 i = Some (pl_node lv)" using i(1) by (simp add: node_at_def)
  have ne: "r \<noteq> Leaf" using h by auto
  note reb = rebalance_def [of p i st] up bf nd bal_def
  show ?thesis
  proof (cases "right_heavy r")
    case True
    obtain root q where q: "rotate_left p1 i = Some (root, q)"
      "tree_at (pool_at q) (nd_parent (pl_node lv)) root (rotL (Node l i r))" "node_frame (set_tree (Node l i r)) p1 q"
      by (rule right_single [OF i r l d ne])
    then show ?thesis
      using that [of root q] h True left_heavy_balance [OF r ne] by (auto simp: reb)
  next
    case False
    obtain x q1 q2 n q3 root q where q: "rotate_right p1 (nd_right (pl_node lv)) = Some (x, q1)"
      "node_update q1 i (\<lambda>n. n\<lparr>nd_right := x\<rparr>) = Some q2" "node_at q2 i = Some n"
      "set_parent_if_valid q2 (nd_right n) i = Some q3" "rotate_left q3 i = Some (root, q)"
      "tree_at (pool_at q) (nd_parent (pl_node lv)) root (rotL (Node l i (rotR r)))"
      "node_frame (set_tree (Node l i r)) p1 q"
      by (rule right_double [OF i r l d False])
    then show ?thesis
      using that [of root q] h False left_heavy_balance [OF r ne] by (auto simp: reb)
  qed
qed

lemma rebalance_ok:
  assumes i: "pool_at p i = Some lv" "i \<noteq> kInvalidPoolIndex"
    and l: "tree_at (pool_at p) i (nd_left (pl_node lv)) l"
    and r: "tree_at (pool_at p) i (nd_right (pl_node lv)) r"
    and d: "distinct (inorder (Node l i r))"
  obtains root q st' where "rebalance p i st = Some (root, q, st')"
    "tree_at (pool_at q) (nd_parent (pl_node lv)) root (bal l i r)"
    "node_frame (set_tree (Node l i r)) p q"
proof -
  have ni: "i \<notin> set_tree l" "i \<notin> set_tree r" using d by auto
  let ?lv = "lv\<lparr>pl_node := (pl_node lv)\<lparr>nd_height := int (height (Node l i r))\<rparr>\<rparr>"
  obtain p1 where p1: "update_height p i = Some p1"
    "tree_at (pool_at p1) (nd_parent (pl_node lv)) i (Node l i r)" "node_frame {i} p p1"
    "pool_at p1 i = Some ?lv"
    by (rule update_height_tree [OF i l ni(1) r ni(2)])
  have l1: "tree_at (pool_at p1) i (nd_left (pl_node ?lv)) l"
    and r1: "tree_at (pool_at p1) i (nd_right (pl_node ?lv)) r"
    using p1(2,4) by auto
  have fin: "node_frame (set_tree (Node l i r)) p q" if "node_frame (set_tree (Node l i r)) p1 q" for q
    by (rule node_frame_trans [OF p1(3) that]) auto
  consider (bal) "\<not> height r + 1 < height l" "\<not> height l + 1 < height r"
    | (L) "height r + 1 < height l" | (R) "height l + 1 < height r" by blast
  then show ?thesis
  proof cases
    case bal
    have "balance_factor p1 i = Some (int (height r) - int (height l))"
      by (rule balance_factor_ok [OF p1(4) l1 r1])
    with bal have "rebalance p i st = Some (i, p1, st)" "bal l i r = Node l i r"
      using p1(1) by (simp_all add: rebalance_def bal_def)
    then show ?thesis using that p1(2) fin [of p1] by auto
  next
    case L
    obtain root q st' where "rebalance p i st = Some (root, q, st')"
      "tree_at (pool_at q) (nd_parent (pl_node ?lv)) root (bal l i r)" "node_frame (set_tree (Node l i r)) p1 q"
      by (rule rebalance_left [OF p1(1,4) i(2) l1 r1 d L])
    then show ?thesis using that fin by simp
  next
    case R
    obtain root q st' where "rebalance p i st = Some (root, q, st')"
      "tree_at (pool_at q) (nd_parent (pl_node ?lv)) root (bal l i r)" "node_frame (set_tree (Node l i r)) p1 q"
      by (rule rebalance_right [OF p1(1,4) i(2) l1 r1 d R])
    then show ?thesis using that fin by simp
  qed
qed

text \<open>
  The end of a recursive insertion or removal on the left: the new subtree is hung below the
  root, its parent is set, and the root is rebalanced.
\<close>

lemma rehang_left:
  assumes x: "pool_at p x = Some lv" "x \<noteq> kInvalidPoolIndex"
    and l: "tree_at (pool_at p) p0 l' l"
    and r: "tree_at (pool_at p) x (nd_right (pl_node lv)) r"
    and d: "distinct (inorder (Node l x r))"
  obtains q2 q3 root q st' where "node_update p x (\<lambda>n. n\<lparr>nd_left := l'\<rparr>) = Some q2"
    "set_parent_if_valid q2 l' x = Some q3" "rebalance q3 x st = Some (root, q, st')"
    "tree_at (pool_at q) (nd_parent (pl_node lv)) root (bal l x r)"
    "node_frame (set_tree (Node l x r)) p q"
proof -
  let ?lv = "lv\<lparr>pl_node := (pl_node lv)\<lparr>nd_left := l'\<rparr>\<rparr>"
  obtain q2 q3 where q3: "node_update p x (\<lambda>n. n\<lparr>nd_left := l'\<rparr>) = Some q2" "node_at q2 x = Some (pl_node ?lv)"
    "set_parent_if_valid q2 l' x = Some q3" "pool_at q3 x = Some ?lv"
    "tree_at (pool_at q3) x (nd_left (pl_node ?lv)) l" "tree_at (pool_at q3) x (nd_right (pl_node ?lv)) r"
    "node_frame (set_tree (Node l x r)) p q3"
    by (rule hang_left [OF x(1) l r d])
  obtain root q st' where q: "rebalance q3 x st = Some (root, q, st')"
    "tree_at (pool_at q) (nd_parent (pl_node ?lv)) root (bal l x r)"
    "node_frame (set_tree (Node l x r)) q3 q"
    by (rule rebalance_ok [OF q3(4) x(2) q3(5,6) d])
  have "node_frame (set_tree (Node l x r)) p q" by (rule node_frame_trans [OF q3(7) q(3)]) auto
  then show ?thesis using that q3(1,3) q(1,2) by simp
qed

text \<open>
  The end of a recursive insertion or removal on the right: the new subtree is hung below the
  root, its parent is set, and the root is rebalanced.
\<close>

lemma rehang_right:
  assumes x: "pool_at p x = Some lv" "x \<noteq> kInvalidPoolIndex"
    and l: "tree_at (pool_at p) p0 l' l"
    and r: "tree_at (pool_at p) x (nd_left (pl_node lv)) r"
    and d: "distinct (inorder (Node r x l))"
  obtains q2 q3 root q st' where "node_update p x (\<lambda>n. n\<lparr>nd_right := l'\<rparr>) = Some q2"
    "set_parent_if_valid q2 l' x = Some q3" "rebalance q3 x st = Some (root, q, st')"
    "tree_at (pool_at q) (nd_parent (pl_node lv)) root (bal r x l)"
    "node_frame (set_tree (Node r x l)) p q"
proof -
  let ?lv = "lv\<lparr>pl_node := (pl_node lv)\<lparr>nd_right := l'\<rparr>\<rparr>"
  obtain q2 q3 where q3: "node_update p x (\<lambda>n. n\<lparr>nd_right := l'\<rparr>) = Some q2" "node_at q2 x = Some (pl_node ?lv)"
    "set_parent_if_valid q2 l' x = Some q3" "pool_at q3 x = Some ?lv"
    "tree_at (pool_at q3) x (nd_right (pl_node ?lv)) l" "tree_at (pool_at q3) x (nd_left (pl_node ?lv)) r"
    "node_frame (set_tree (Node r x l)) p q3"
    by (rule hang_right [OF x(1) l r d])
  obtain root q st' where q: "rebalance q3 x st = Some (root, q, st')"
    "tree_at (pool_at q) (nd_parent (pl_node ?lv)) root (bal r x l)"
    "node_frame (set_tree (Node r x l)) q3 q"
    by (rule rebalance_ok [OF q3(4) x(2) q3(6,5) d])
  have "node_frame (set_tree (Node r x l)) p q" by (rule node_frame_trans [OF q3(7) q(3)]) auto
  then show ?thesis using that q3(1,3) q(1,2) by simp
qed

end
