(* ===== verification/TC_Avl_Correct.thy ===== *)
theory TC_Avl_Correct
  imports TC_Avl_Refine
begin

text \<open>
  Insertion, removal and search in the level tree, over the pool: each computes its functional
  counterpart, from which the properties of the pointer code follow (in-order contents, order,
  balance, minimum and maximum, the bound on the stored heights).
\<close>

section \<open>Insertion\<close>

definition price_of :: "level_pool \<Rightarrow> u32 \<Rightarrow> u32" where
  "price_of p j = (case pool_at p j of Some l \<Rightarrow> pl_price l | None \<Rightarrow> 0)"

lemma price_of_eq [simp]: "pool_at p j = Some l \<Longrightarrow> price_of p j = pl_price l"
  by (simp add: price_of_def)

lemma pl_data_price: "pl_data l = pl_data l' \<Longrightarrow> pl_price l = pl_price l'"
  by (simp add: pl_data_def)

lemma node_frame_price [simp]:
  assumes "node_frame S p q"
  shows "price_of q = price_of p"
proof
  fix j
  have "map_option pl_data (pool_at q j) = map_option pl_data (pool_at p j)"
    using assms by (simp add: node_frame_def)
  then show "price_of q j = price_of p j"
    by (auto simp: price_of_def dest: pl_data_price split: option.splits)
qed

lemma distinct_ains:
  "n \<notin> set_tree t \<Longrightarrow> distinct (inorder t) \<Longrightarrow> distinct (inorder (ains pr n t))"
  by (induction t) (auto simp flip: set_inorder simp: set_tree_ains [simplified set_inorder [symmetric]])

lemma ains_not_Leaf [simp]: "ains pr n t \<noteq> Leaf"
  by (cases t) auto

lemma node_frame_trans': "node_frame S p q \<Longrightarrow> node_frame T q r \<Longrightarrow> node_frame (S \<union> T) p r"
  by (rule node_frame_trans) auto

text \<open>
  The end of a recursive call on one side that changed the slots \<open>S\<close>: the new subtree \<open>u\<close> is hung
  back below \<open>x\<close>, whose other subtree is \<open>t\<close>.
\<close>

lemma rehang_after_left:
  assumes x: "pool_at p x = Some lv" "x \<noteq> kInvalidPoolIndex"
    and t: "tree_at (pool_at p) x (nd_right (pl_node lv)) t"
    and f: "node_frame S p q1" "x \<notin> S" "S \<inter> set_tree t = {}"
    and c: "tree_at (pool_at q1) p0 c u" and d: "distinct (inorder (Node u x t))"
  obtains q2 q3 root q st' where "node_update q1 x (\<lambda>n. n\<lparr>nd_left := c\<rparr>) = Some q2"
    "set_parent_if_valid q2 c x = Some q3" "rebalance q3 x st = Some (root, q, st')"
    "tree_at (pool_at q) (nd_parent (pl_node lv)) root (bal u x t)"
    "node_frame (set_tree (Node u x t)) q1 q" "node_frame (S \<union> set_tree (Node u x t)) p q"
proof -
  have x1: "pool_at q1 x = Some lv" using node_frame_at [OF f(1,2)] x(1) by simp
  have t1: "tree_at (pool_at q1) x (nd_right (pl_node lv)) t"
    using f(3) by (intro tree_at_frame [OF t] node_frame_at [OF f(1)]) auto
  obtain q2 q3 root q st' where q: "node_update q1 x (\<lambda>n. n\<lparr>nd_left := c\<rparr>) = Some q2"
    "set_parent_if_valid q2 c x = Some q3" "rebalance q3 x st = Some (root, q, st')"
    "tree_at (pool_at q) (nd_parent (pl_node lv)) root (bal u x t)" "node_frame (set_tree (Node u x t)) q1 q"
    by (rule rehang_left [OF x1 x(2) c t1 d])
  then show ?thesis using that node_frame_trans' [OF f(1) q(5)] by blast
qed

lemma rehang_after_right:
  assumes x: "pool_at p x = Some lv" "x \<noteq> kInvalidPoolIndex"
    and t: "tree_at (pool_at p) x (nd_left (pl_node lv)) t"
    and f: "node_frame S p q1" "x \<notin> S" "S \<inter> set_tree t = {}"
    and c: "tree_at (pool_at q1) p0 c u" and d: "distinct (inorder (Node t x u))"
  obtains q2 q3 root q st' where "node_update q1 x (\<lambda>n. n\<lparr>nd_right := c\<rparr>) = Some q2"
    "set_parent_if_valid q2 c x = Some q3" "rebalance q3 x st = Some (root, q, st')"
    "tree_at (pool_at q) (nd_parent (pl_node lv)) root (bal t x u)"
    "node_frame (set_tree (Node t x u)) q1 q" "node_frame (S \<union> set_tree (Node t x u)) p q"
proof -
  have x1: "pool_at q1 x = Some lv" using node_frame_at [OF f(1,2)] x(1) by simp
  have t1: "tree_at (pool_at q1) x (nd_left (pl_node lv)) t"
    using f(3) by (intro tree_at_frame [OF t] node_frame_at [OF f(1)]) auto
  obtain q2 q3 root q st' where q: "node_update q1 x (\<lambda>n. n\<lparr>nd_right := c\<rparr>) = Some q2"
    "set_parent_if_valid q2 c x = Some q3" "rebalance q3 x st = Some (root, q, st')"
    "tree_at (pool_at q) (nd_parent (pl_node lv)) root (bal t x u)" "node_frame (set_tree (Node t x u)) q1 q"
    by (rule rehang_right [OF x1 x(2) c t1 d])
  then show ?thesis using that node_frame_trans' [OF f(1) q(5)] by blast
qed

lemma avl_insert_below_left:
  assumes x: "pool_at p x = Some lv" "x \<noteq> kInvalidPoolIndex" and n: "pool_at p n = Some nl" "n \<noteq> kInvalidPoolIndex" "pl_price nl < pl_price lv"
    and t: "tree_at (pool_at p) x (nd_right (pl_node lv)) t"
    and q1: "avl_insert p (nd_left (pl_node lv)) n (st\<lparr>insertions := insertions st + 1\<rparr>) = Some (c, q1, st1)"
      "tree_at (pool_at q1) p0 c u" "u \<noteq> Leaf" "node_frame (insert n S) p q1"
    and d: "distinct (inorder (Node u x t))" "x \<notin> insert n S" "insert n S \<inter> set_tree t = {}"
    and u: "set_tree u = insert n S"
  shows "\<exists>root q st'. avl_insert p x n st = Some (root, q, st') \<and>
    tree_at (pool_at q) (nd_parent (pl_node lv)) root (bal u x t) \<and>
    node_frame (insert n (insert x (S \<union> set_tree t))) p q"
proof -
  obtain q2 q3 root q st' where q: "node_update q1 x (\<lambda>n. n\<lparr>nd_left := c\<rparr>) = Some q2"
    "set_parent_if_valid q2 c x = Some q3" "rebalance q3 x st1 = Some (root, q, st')"
    "tree_at (pool_at q) (nd_parent (pl_node lv)) root (bal u x t)"
    "node_frame (insert n S \<union> set_tree (Node u x t)) p q"
    by (rule rehang_after_left [OF x t q1(4) d(2,3) q1(2) d(1)])
  have "c \<noteq> kInvalidPoolIndex" using tree_at_Leaf_iff [OF q1(2)] q1(3) by simp
  then have "avl_insert p x n st = Some (root, q, st')"
    using x n q1(1) q(1-3) by (simp add: avl_insert.simps [of p x] set_parent_if_valid_def)
  moreover have "node_frame (insert n (insert x (S \<union> set_tree t))) p q"
    by (rule node_frame_mono [OF q(5)]) (use u in auto)
  ultimately show ?thesis using q(4) by blast
qed

lemma avl_insert_below_right:
  assumes x: "pool_at p x = Some lv" "x \<noteq> kInvalidPoolIndex" and n: "pool_at p n = Some nl" "n \<noteq> kInvalidPoolIndex" "\<not> pl_price nl < pl_price lv"
    and t: "tree_at (pool_at p) x (nd_left (pl_node lv)) t"
    and q1: "avl_insert p (nd_right (pl_node lv)) n (st\<lparr>insertions := insertions st + 1\<rparr>) = Some (c, q1, st1)"
      "tree_at (pool_at q1) p0 c u" "u \<noteq> Leaf" "node_frame (insert n S) p q1"
    and d: "distinct (inorder (Node t x u))" "x \<notin> insert n S" "insert n S \<inter> set_tree t = {}"
    and u: "set_tree u = insert n S"
  shows "\<exists>root q st'. avl_insert p x n st = Some (root, q, st') \<and>
    tree_at (pool_at q) (nd_parent (pl_node lv)) root (bal t x u) \<and>
    node_frame (insert n (insert x (S \<union> set_tree t))) p q"
proof -
  obtain q2 q3 root q st' where q: "node_update q1 x (\<lambda>n. n\<lparr>nd_right := c\<rparr>) = Some q2"
    "set_parent_if_valid q2 c x = Some q3" "rebalance q3 x st1 = Some (root, q, st')"
    "tree_at (pool_at q) (nd_parent (pl_node lv)) root (bal t x u)"
    "node_frame (insert n S \<union> set_tree (Node t x u)) p q"
    by (rule rehang_after_right [OF x t q1(4) d(2,3) q1(2) d(1)])
  have "c \<noteq> kInvalidPoolIndex" using tree_at_Leaf_iff [OF q1(2)] q1(3) by simp
  then have "avl_insert p x n st = Some (root, q, st')"
    using x n q1(1) q(1-3) by (simp add: avl_insert.simps [of p x] set_parent_if_valid_def)
  moreover have "node_frame (insert n (insert x (S \<union> set_tree t))) p q"
    by (rule node_frame_mono [OF q(5)]) (use u in auto)
  ultimately show ?thesis using q(4) by blast
qed

lemma avl_insert_ok:
  assumes "tree_at (pool_at p) par i t" "pool_at p n = Some nl" "n \<noteq> kInvalidPoolIndex"
    "n \<notin> set_tree t" "distinct (inorder t)"
  shows "\<exists>root q st'. avl_insert p i n st = Some (root, q, st') \<and>
    tree_at (pool_at q) (if t = Leaf then kInvalidPoolIndex else par) root (ains (price_of p) n t) \<and>
    node_frame (insert n (set_tree t)) p q"
  using assms(1,4,5)
proof (induction t arbitrary: par i st)
  case Leaf
  let ?q = "pool_set p n (nl\<lparr>pl_node := (pl_node nl)\<lparr>nd_left := kInvalidPoolIndex,
    nd_right := kInvalidPoolIndex, nd_parent := kInvalidPoolIndex, nd_height := 1\<rparr>\<rparr>)"
  have "node_frame {n} p ?q" by (rule node_frame_set) (use assms in auto)
  then show ?case
    using Leaf assms(2,3) by (simp add: avl_insert.simps [of p kInvalidPoolIndex] node_update_eq)
next
  case (Node l x r)
  obtain lv where x: "pool_at p x = Some lv" "i = x" "x \<noteq> kInvalidPoolIndex"
    "nd_parent (pl_node lv) = par" and l: "tree_at (pool_at p) x (nd_left (pl_node lv)) l"
    and r: "tree_at (pool_at p) x (nd_right (pl_node lv)) r"
    using Node.prems(1) by auto
  have d: "distinct (inorder l)" "distinct (inorder r)" "n \<notin> set_tree l" "n \<notin> set_tree r" "n \<noteq> x"
    "x \<notin> set_tree l" "x \<notin> set_tree r" "set_tree l \<inter> set_tree r = {}"
    using Node.prems by auto
  let ?st = "st\<lparr>insertions := insertions st + 1\<rparr>"
  show ?case
  proof (cases "pl_price nl < pl_price lv")
    case True
    obtain l' q1 st1 where q1: "avl_insert p (nd_left (pl_node lv)) n ?st = Some (l', q1, st1)"
      "tree_at (pool_at q1) (if l = Leaf then kInvalidPoolIndex else x) l' (ains (price_of p) n l)"
      "node_frame (insert n (set_tree l)) p q1"
      using Node.IH(1) [OF l d(3,1)] by blast
    have d1: "distinct (inorder (Node (ains (price_of p) n l) x r))" "x \<notin> insert n (set_tree l)"
      "insert n (set_tree l) \<inter> set_tree r = {}"
      using d by (auto simp: distinct_ains)
    show ?thesis
      using avl_insert_below_left [OF x(1,3) assms(2,3) True r q1(1,2) _ q1(3) d1] True x assms(2)
      by (simp add: Un_ac insert_commute)
  next
    case False
    obtain l' q1 st1 where q1: "avl_insert p (nd_right (pl_node lv)) n ?st = Some (l', q1, st1)"
      "tree_at (pool_at q1) (if r = Leaf then kInvalidPoolIndex else x) l' (ains (price_of p) n r)"
      "node_frame (insert n (set_tree r)) p q1"
      using Node.IH(2) [OF r d(4,2)] by blast
    have d1: "distinct (inorder (Node l x (ains (price_of p) n r)))" "x \<notin> insert n (set_tree r)"
      "insert n (set_tree r) \<inter> set_tree l = {}"
      using d by (auto simp: distinct_ains)
    show ?thesis
      using avl_insert_below_right [OF x(1,3) assms(2,3) False l q1(1,2) _ q1(3) d1] False x assms(2)
      by (simp add: Un_ac insert_commute)
  qed
qed

section \<open>Minimum, maximum and search\<close>

lemma find_min_loop_ok:
  "tree_at (pool_at p) par i t \<Longrightarrow> t \<noteq> Leaf \<Longrightarrow> find_min_loop p i = tmin t"
proof (induction t arbitrary: par i)
  case (Node l x r)
  then obtain lv where "pool_at p x = Some lv" "i = x" "tree_at (pool_at p) x (nd_left (pl_node lv)) l"
    by auto
  with Node.IH(1) show ?case
    by (auto simp: find_min_loop.simps [of p x] node_at_def dest: tree_at_Leaf_iff)
qed simp

lemma find_max_loop_ok:
  "tree_at (pool_at p) par i t \<Longrightarrow> t \<noteq> Leaf \<Longrightarrow> find_max_loop p i = tmax t"
proof (induction t arbitrary: par i)
  case (Node l x r)
  then obtain lv where "pool_at p x = Some lv" "i = x" "tree_at (pool_at p) x (nd_right (pl_node lv)) r"
    by auto
  with Node.IH(2) show ?case
    by (auto simp: find_max_loop.simps [of p x] node_at_def dest: tree_at_Leaf_iff)
qed simp

lemma find_min_ok:
  assumes "tree_at (pool_at p) par i t"
  shows "find_min p i = Some (or_invalid (tmin t))"
  using assms find_min_loop_ok [OF assms] tree_at_Leaf_iff [OF assms]
  by (auto simp: find_min_def tmin_eq)

lemma find_max_ok:
  assumes "tree_at (pool_at p) par i t"
  shows "find_max p i = Some (or_invalid (tmax t))"
  using assms find_max_loop_ok [OF assms] tree_at_Leaf_iff [OF assms]
  by (auto simp: find_max_def tmax_eq)

lemma avl_find_ok:
  assumes "tree_at (pool_at p) par i t"
  shows "avl_find p i price = Some (or_invalid (tfind (price_of p) price t))"
  using assms
proof (induction t arbitrary: par i)
  case Leaf
  then show ?case by (simp add: avl_find.simps [of p kInvalidPoolIndex])
next
  case (Node l x r)
  then obtain lv where "pool_at p x = Some lv" "i = x" "x \<noteq> kInvalidPoolIndex"
    "tree_at (pool_at p) x (nd_left (pl_node lv)) l" "tree_at (pool_at p) x (nd_right (pl_node lv)) r"
    by auto
  with Node.IH show ?case by (auto simp: avl_find.simps [of p x])
qed

section \<open>Removal\<close>

lemma distinct_adel:
  assumes "sorted_by pr (inorder t)" "k \<in> set_tree t"
  shows "distinct (inorder (adel pr k t))"
  using sorted_by_distinct [OF assms(1)] inorder_adel [OF assms] by simp

text \<open>A removed node keeps its slot and has its child links cleared.\<close>

definition unlinked :: "level_pool \<Rightarrow> u32 \<Rightarrow> bool" where
  "unlinked p k \<longleftrightarrow> (\<exists>l. pool_at p k = Some l \<and> nd_left (pl_node l) = kInvalidPoolIndex \<and>
     nd_right (pl_node l) = kInvalidPoolIndex)"

lemma unlinked_frame: "unlinked p k \<Longrightarrow> node_frame S p q \<Longrightarrow> k \<notin> S \<Longrightarrow> unlinked q k"
  by (simp add: unlinked_def node_frame_at)

lemma clear_links:
  assumes "pool_at p x = Some lv"
  obtains q where "node_update p x (\<lambda>n. n\<lparr>nd_left := kInvalidPoolIndex, nd_right := kInvalidPoolIndex\<rparr>)
      = Some q" "unlinked q x" "node_frame {x} p q"
proof -
  let ?q = "pool_set p x (lv\<lparr>pl_node := (pl_node lv)\<lparr>nd_left := kInvalidPoolIndex,
    nd_right := kInvalidPoolIndex\<rparr>\<rparr>)"
  show ?thesis
    using that [of ?q] assms node_frame_set [OF assms, of "{x}"]
    by (simp add: node_update_eq unlinked_def)
qed

text \<open>
  The removed node has at most one child: the child takes its place. \<open>c\<close> is the link to the
  child.
\<close>

lemma splice_child:
  assumes "pool_at p x = Some lv" and t: "tree_at (pool_at p) x c t" and d: "x \<notin> set_tree t" "distinct (inorder t)"
  obtains q2 q where "set_parent_if_valid p c (nd_parent (pl_node lv)) = Some q2"
    "node_update q2 x (\<lambda>n. n\<lparr>nd_left := kInvalidPoolIndex, nd_right := kInvalidPoolIndex\<rparr>) = Some q"
    "tree_at (pool_at q) (nd_parent (pl_node lv)) c t" "unlinked q x"
    "node_frame (insert x (set_tree t)) p q"
proof -
  obtain q2 where q2: "set_parent_if_valid p c (nd_parent (pl_node lv)) = Some q2"
    "tree_at (pool_at q2) (nd_parent (pl_node lv)) c t" "node_frame (set_tree t) p q2"
    by (rule set_parent_ok [OF t d(2)])
  have "pool_at q2 x = Some lv" using node_frame_at [OF q2(3) d(1)] assms(1) by simp
  then obtain q where q: "node_update q2 x
      (\<lambda>n. n\<lparr>nd_left := kInvalidPoolIndex, nd_right := kInvalidPoolIndex\<rparr>) = Some q"
    "unlinked q x" "node_frame {x} q2 q"
    by (rule clear_links)
  have "tree_at (pool_at q) (nd_parent (pl_node lv)) c t"
    using d(1) by (intro tree_at_frame [OF q2(2)] node_frame_at [OF q(3)]) auto
  moreover have "node_frame (insert x (set_tree t)) p q"
    by (rule node_frame_trans [OF q2(3) q(3)]) auto
  ultimately show ?thesis using that q2(1) q(1,2) by blast
qed

text \<open>
  The removed node \<open>x\<close> has two children: its in-order successor \<open>s\<close>, already removed from the
  right subtree, takes over both subtrees and the parent link.
\<close>

lemma splice_successor:
  assumes x: "pool_at p x = Some lv" and s: "pool_at p s = Some ls" "s \<noteq> kInvalidPoolIndex"
    and l: "tree_at (pool_at p) x (nd_left (pl_node lv)) l"
    and r: "tree_at (pool_at p) p0 r' r"
    and d: "distinct (inorder (Node l s r))" and nx: "x \<notin> set_tree (Node l s r)"
  obtains q2 q3 q4 q5 root q st' where
    "node_update p s (\<lambda>m. m\<lparr>nd_left := nd_left (pl_node lv), nd_right := r',
       nd_parent := nd_parent (pl_node lv)\<rparr>) = Some q2" "node_at q2 x = Some (pl_node lv)"
    "set_parent_if_valid q2 (nd_left (pl_node lv)) s = Some q3"
    "set_parent_if_valid q3 r' s = Some q4"
    "node_update q4 x (\<lambda>n. n\<lparr>nd_left := kInvalidPoolIndex, nd_right := kInvalidPoolIndex\<rparr>) = Some q5"
    "rebalance q5 s st = Some (root, q, st')"
    "tree_at (pool_at q) (nd_parent (pl_node lv)) root (bal l s r)" "unlinked q x"
    "node_frame (insert x (set_tree (Node l s r))) p q"
proof -
  have dl: "distinct (inorder l)" "distinct (inorder r)" "s \<notin> set_tree l" "s \<notin> set_tree r"
    "x \<notin> set_tree l" "x \<notin> set_tree r" "x \<noteq> s" "set_tree l \<inter> set_tree r = {}"
    using d nx by auto
  let ?ls = "ls\<lparr>pl_node := (pl_node ls)\<lparr>nd_left := nd_left (pl_node lv), nd_right := r',
    nd_parent := nd_parent (pl_node lv)\<rparr>\<rparr>"
  let ?q2 = "pool_set p s ?ls"
  have at2: "pool_at ?q2 = (pool_at p)(s \<mapsto> ?ls)" using s by simp
  have l2: "tree_at (pool_at ?q2) x (nd_left (pl_node lv)) l"
    using dl by (intro tree_at_frame [OF l]) (auto simp: at2)
  obtain q3 where q3: "set_parent_if_valid ?q2 (nd_left (pl_node lv)) s = Some q3"
    "tree_at (pool_at q3) s (nd_left (pl_node lv)) l" "node_frame (set_tree l) ?q2 q3"
    by (rule set_parent_ok [OF l2 dl(1)])
  have r3: "tree_at (pool_at q3) p0 r' r"
  proof (rule tree_at_frame [OF r])
    fix j assume "j \<in> set_tree r"
    then have "j \<notin> set_tree l" "j \<noteq> s" using dl by auto
    then show "pool_at q3 j = pool_at p j" using node_frame_at [OF q3(3), of j] at2 by simp
  qed
  obtain q4 where q4: "set_parent_if_valid q3 r' s = Some q4" "tree_at (pool_at q4) s r' r"
    "node_frame (set_tree r) q3 q4"
    by (rule set_parent_ok [OF r3 dl(2)])
  have x4: "pool_at q4 x = Some lv" and s4: "pool_at q4 s = Some ?ls"
    using node_frame_at [OF q4(3)] node_frame_at [OF q3(3)] dl x at2 by simp_all
  have l4: "tree_at (pool_at q4) s (nd_left (pl_node lv)) l"
    using dl(8) by (intro tree_at_frame [OF q3(2)] node_frame_at [OF q4(3)]) auto
  obtain q5 where q5: "node_update q4 x
      (\<lambda>n. n\<lparr>nd_left := kInvalidPoolIndex, nd_right := kInvalidPoolIndex\<rparr>) = Some q5"
    "unlinked q5 x" "node_frame {x} q4 q5"
    by (rule clear_links [OF x4])
  have s5: "pool_at q5 s = Some ?ls" using node_frame_at [OF q5(3), of s] dl s4 by simp
  have l5: "tree_at (pool_at q5) s (nd_left (pl_node ?ls)) l"
    using dl(5) l4 by (auto intro!: tree_at_frame [OF l4] node_frame_at [OF q5(3)])
  have r5: "tree_at (pool_at q5) s (nd_right (pl_node ?ls)) r"
    using dl(6) q4(2) by (auto intro!: tree_at_frame [OF q4(2)] node_frame_at [OF q5(3)])
  obtain root q st' where q: "rebalance q5 s st = Some (root, q, st')"
    "tree_at (pool_at q) (nd_parent (pl_node ?ls)) root (bal l s r)"
    "node_frame (set_tree (Node l s r)) q5 q"
    by (rule rebalance_ok [OF s5 s(2) l5 r5 d])
  let ?S = "insert x (set_tree (Node l s r))"
  have "node_frame ?S p ?q2" by (rule node_frame_set [OF s(1)]) simp
  then have "node_frame ?S p q3" by (rule node_frame_trans [OF _ q3(3)]) auto
  then have "node_frame ?S p q4" by (rule node_frame_trans [OF _ q4(3)]) auto
  then have "node_frame ?S p q5" by (rule node_frame_trans [OF _ q5(3)]) auto
  then have f: "node_frame ?S p q" by (rule node_frame_trans [OF _ q(3)]) auto
  have "unlinked q x" by (rule unlinked_frame [OF q5(2) q(3) nx])
  moreover have "node_update p s (\<lambda>m. m\<lparr>nd_left := nd_left (pl_node lv), nd_right := r',
       nd_parent := nd_parent (pl_node lv)\<rparr>) = Some ?q2" using s by (simp add: node_update_eq)
  moreover have "node_at ?q2 x = Some (pl_node lv)" using x dl at2 by (simp add: node_at_def)
  ultimately show ?thesis using that q3(1) q4(1) q5(1) q(1,2) f by simp
qed

text \<open>Both children: the successor is removed below, then it replaces the node.\<close>

lemma avl_remove_two:
  assumes x: "pool_at p x = Some lv" "x \<noteq> kInvalidPoolIndex" and ne: "l \<noteq> Leaf" "r \<noteq> Leaf"
    and l: "tree_at (pool_at p) x (nd_left (pl_node lv)) l"
    and r: "tree_at (pool_at p) x (nd_right (pl_node lv)) r"
    and d: "distinct (inorder (Node l x r))" and so: "sorted_by pr (inorder r)"
    and IH: "\<And>s st. s \<in> set_tree r \<Longrightarrow>
      \<exists>r' q st'. avl_remove p (nd_right (pl_node lv)) s st = Some (r', q, st') \<and>
        tree_at (pool_at q) x r' (adel pr s r) \<and> unlinked q s \<and> node_frame (set_tree r) p q"
  shows "\<exists>root q st'. avl_remove p x x st = Some (root, q, st') \<and>
    tree_at (pool_at q) (nd_parent (pl_node lv)) root (adel pr x (Node l x r)) \<and> unlinked q x \<and>
    node_frame (set_tree (Node l x r)) p q"
proof -
  have dl: "x \<notin> set_tree r" using d by auto
  note rem = avl_remove.simps [of p x x st] x Let_def
  note leaf = tree_at_Leaf_iff [OF l] tree_at_Leaf_iff [OF r]
  obtain s where s: "tmin r = Some s" "s \<in> set_tree r"
    using tmin_least(1) [OF so] ne(2) by (cases "tmin r") (auto simp: tmin_eq)
  have fm: "find_min p (nd_right (pl_node lv)) = Some s"
    using find_min_ok [OF r] s by simp
  obtain r' q1 st1 where q1: "avl_remove p (nd_right (pl_node lv)) s
      (st\<lparr>deletions := deletions st + 1 - 1\<rparr>) = Some (r', q1, st1)"
    "tree_at (pool_at q1) x r' (adel pr s r)" "unlinked q1 s" "node_frame (set_tree r) p q1"
    using IH [OF s(2)] by blast
  have x1: "pool_at q1 x = Some lv" using node_frame_at [OF q1(4) dl] x by simp
  have nx: "node_at q1 x = Some (pl_node lv)" using x1 by (simp add: node_at_def)
  obtain ls where s1: "pool_at q1 s = Some ls" using q1(3) by (auto simp: unlinked_def)
  have s0: "s \<noteq> kInvalidPoolIndex" using tree_at_live [OF r s(2)] by simp
  have l1: "tree_at (pool_at q1) x (nd_left (pl_node lv)) l"
    using d by (intro tree_at_frame [OF l] node_frame_at [OF q1(4)]) auto
  have st: "set_tree (adel pr s r) = set_tree r - {s}" by (rule set_tree_adel [OF so s(2)])
  have d1: "distinct (inorder (Node l s (adel pr s r)))" "x \<notin> set_tree (Node l s (adel pr s r))"
    using d distinct_adel [OF so s(2)] st s(2) by auto
  obtain q2 q3 q4 q5 root q st' where q:
    "node_update q1 s (\<lambda>m. m\<lparr>nd_left := nd_left (pl_node lv), nd_right := r',
       nd_parent := nd_parent (pl_node lv)\<rparr>) = Some q2" "node_at q2 x = Some (pl_node lv)"
    "set_parent_if_valid q2 (nd_left (pl_node lv)) s = Some q3"
    "set_parent_if_valid q3 r' s = Some q4"
    "node_update q4 x (\<lambda>n. n\<lparr>nd_left := kInvalidPoolIndex, nd_right := kInvalidPoolIndex\<rparr>) = Some q5"
    "rebalance q5 s st1 = Some (root, q, st')"
    "tree_at (pool_at q) (nd_parent (pl_node lv)) root (bal l s (adel pr s r))" "unlinked q x"
    "node_frame (insert x (set_tree (Node l s (adel pr s r)))) q1 q"
    by (rule splice_successor [OF x1 s1 s0 l1 q1(2) d1])
  have "avl_remove p x x st = Some (root, q, st')"
    using fm q1(1) q(1-6) ne leaf nx by (simp add: rem)
  moreover have "node_frame (set_tree (Node l x r)) p q"
    using st s(2) by (intro node_frame_trans [OF q1(4) q(9)]) auto
  ultimately show ?thesis using q(7,8) ne s(1) by simp
qed

lemma avl_remove_root:
  assumes x: "pool_at p x = Some lv" "x \<noteq> kInvalidPoolIndex"
    and l: "tree_at (pool_at p) x (nd_left (pl_node lv)) l"
    and r: "tree_at (pool_at p) x (nd_right (pl_node lv)) r"
    and d: "distinct (inorder (Node l x r))" and so: "sorted_by pr (inorder r)"
    and IH: "\<And>s st. s \<in> set_tree r \<Longrightarrow>
      \<exists>r' q st'. avl_remove p (nd_right (pl_node lv)) s st = Some (r', q, st') \<and>
        tree_at (pool_at q) x r' (adel pr s r) \<and> unlinked q s \<and> node_frame (set_tree r) p q"
  shows "\<exists>root q st'. avl_remove p x x st = Some (root, q, st') \<and>
    tree_at (pool_at q) (nd_parent (pl_node lv)) root (adel pr x (Node l x r)) \<and> unlinked q x \<and>
    node_frame (set_tree (Node l x r)) p q"
proof -
  have dl: "x \<notin> set_tree l" "distinct (inorder l)" "x \<notin> set_tree r" "distinct (inorder r)"
    using d by auto
  note rem = avl_remove.simps [of p x x st] x Let_def
  note leaf = tree_at_Leaf_iff [OF l] tree_at_Leaf_iff [OF r]
  consider "l = Leaf" | "l \<noteq> Leaf" "r = Leaf" | "l \<noteq> Leaf" "r \<noteq> Leaf" by blast
  then show ?thesis
  proof cases
    case 1
    obtain q2 q where q: "set_parent_if_valid p (nd_right (pl_node lv)) (nd_parent (pl_node lv)) = Some q2"
      "node_update q2 x (\<lambda>n. n\<lparr>nd_left := kInvalidPoolIndex, nd_right := kInvalidPoolIndex\<rparr>) = Some q"
      "tree_at (pool_at q) (nd_parent (pl_node lv)) (nd_right (pl_node lv)) r" "unlinked q x"
      "node_frame (insert x (set_tree r)) p q"
      by (rule splice_child [OF x(1) r dl(3,4)])
    have "avl_remove p x x st =
        Some (nd_right (pl_node lv), q, st\<lparr>deletions := deletions st + 1\<rparr>)"
      using q(1,2) 1 leaf by (simp add: rem)
    moreover have "node_frame (set_tree (Node l x r)) p q" by (rule node_frame_mono [OF q(5)]) auto
    ultimately show ?thesis using q(3,4) 1 by simp
  next
    case 2
    obtain q2 q where q: "set_parent_if_valid p (nd_left (pl_node lv)) (nd_parent (pl_node lv)) = Some q2"
      "node_update q2 x (\<lambda>n. n\<lparr>nd_left := kInvalidPoolIndex, nd_right := kInvalidPoolIndex\<rparr>) = Some q"
      "tree_at (pool_at q) (nd_parent (pl_node lv)) (nd_left (pl_node lv)) l" "unlinked q x"
      "node_frame (insert x (set_tree l)) p q"
      by (rule splice_child [OF x(1) l dl(1,2)])
    have "avl_remove p x x st =
        Some (nd_left (pl_node lv), q, st\<lparr>deletions := deletions st + 1\<rparr>)"
      using q(1,2) 2 leaf by (simp add: rem set_parent_if_valid_def)
    moreover have "node_frame (set_tree (Node l x r)) p q" by (rule node_frame_mono [OF q(5)]) auto
    ultimately show ?thesis using q(3,4) 2 by simp
  next
    case 3
    show ?thesis by (rule avl_remove_two [OF x 3 l r d so IH])
  qed
qed

text \<open>The level is below the root, on one side: the smaller tree is hung back and the root rebalanced.\<close>

lemma avl_remove_below_left:
  assumes x: "pool_at p x = Some lv" "x \<noteq> kInvalidPoolIndex" and k: "pool_at p k = Some lk" "pl_price lk < pl_price lv"
    and t: "tree_at (pool_at p) x (nd_right (pl_node lv)) r"
    and so: "sorted_by pr (inorder l)" "k \<in> set_tree l" and d: "distinct (inorder (Node l x r))"
    and rem: "avl_remove p (nd_left (pl_node lv)) k (st\<lparr>deletions := deletions st + 1\<rparr>) = Some (c, q1, st1)"
    and q1: "tree_at (pool_at q1) x c (adel pr k l)" "unlinked q1 k" "node_frame (set_tree l) p q1"
  shows "\<exists>root q st'. avl_remove p x k st = Some (root, q, st') \<and>
    tree_at (pool_at q) (nd_parent (pl_node lv)) root (bal (adel pr k l) x r) \<and> unlinked q k \<and>
    node_frame (set_tree (Node l x r)) p q"
proof -
  have dd: "x \<notin> set_tree l" "x \<notin> set_tree r" "k \<notin> set_tree r" "k \<noteq> x" "distinct (inorder r)"
    "distinct (inorder l)" "set_tree l \<inter> set_tree r = {}"
    using d so(2) by auto
  have st: "set_tree (adel pr k l) = set_tree l - {k}" by (rule set_tree_adel [OF so])
  have d1: "distinct (inorder (Node (adel pr k l) x r))"
    using dd distinct_adel [OF so] st by auto
  have out: "set_tree l \<inter> set_tree r = {}" using dd(7) by blast
  obtain q2 q3 root q st' where q: "node_update q1 x (\<lambda>n. n\<lparr>nd_left := c\<rparr>) = Some q2"
    "set_parent_if_valid q2 c x = Some q3" "rebalance q3 x st1 = Some (root, q, st')"
    "tree_at (pool_at q) (nd_parent (pl_node lv)) root (bal (adel pr k l) x r)"
    "node_frame (set_tree (Node (adel pr k l) x r)) q1 q" "node_frame (set_tree l \<union> set_tree (Node (adel pr k l) x r)) p q"
    by (rule rehang_after_left [OF x t q1(3) dd(1) out q1(1) d1])
  have "avl_remove p x k st = Some (root, q, st')"
    using k x rem q(1-3) by (simp add: avl_remove.simps [of p x] Let_def)
  moreover have "unlinked q k" using st dd by (intro unlinked_frame [OF q1(2) q(5)]) auto
  moreover have "node_frame (set_tree (Node l x r)) p q"
    using st by (intro node_frame_mono [OF q(6)]) auto
  ultimately show ?thesis using q(4) by blast
qed

lemma avl_remove_below_right:
  assumes x: "pool_at p x = Some lv" "x \<noteq> kInvalidPoolIndex" and k: "pool_at p k = Some lk" "pl_price lv < pl_price lk"
    and t: "tree_at (pool_at p) x (nd_left (pl_node lv)) l"
    and so: "sorted_by pr (inorder r)" "k \<in> set_tree r" and d: "distinct (inorder (Node l x r))"
    and rem: "avl_remove p (nd_right (pl_node lv)) k (st\<lparr>deletions := deletions st + 1\<rparr>) = Some (c, q1, st1)"
    and q1: "tree_at (pool_at q1) x c (adel pr k r)" "unlinked q1 k" "node_frame (set_tree r) p q1"
  shows "\<exists>root q st'. avl_remove p x k st = Some (root, q, st') \<and>
    tree_at (pool_at q) (nd_parent (pl_node lv)) root (bal l x (adel pr k r)) \<and> unlinked q k \<and>
    node_frame (set_tree (Node l x r)) p q"
proof -
  have dd: "x \<notin> set_tree r" "x \<notin> set_tree l" "k \<notin> set_tree l" "k \<noteq> x" "distinct (inorder l)"
    "distinct (inorder r)" "set_tree l \<inter> set_tree r = {}"
    using d so(2) by auto
  have st: "set_tree (adel pr k r) = set_tree r - {k}" by (rule set_tree_adel [OF so])
  have d1: "distinct (inorder (Node l x (adel pr k r)))"
    using dd distinct_adel [OF so] st by auto
  have out: "set_tree r \<inter> set_tree l = {}" using dd(7) by blast
  obtain q2 q3 root q st' where q: "node_update q1 x (\<lambda>n. n\<lparr>nd_right := c\<rparr>) = Some q2"
    "set_parent_if_valid q2 c x = Some q3" "rebalance q3 x st1 = Some (root, q, st')"
    "tree_at (pool_at q) (nd_parent (pl_node lv)) root (bal l x (adel pr k r))"
    "node_frame (set_tree (Node l x (adel pr k r))) q1 q" "node_frame (set_tree r \<union> set_tree (Node l x (adel pr k r))) p q"
    by (rule rehang_after_right [OF x t q1(3) dd(1) out q1(1) d1])
  have "avl_remove p x k st = Some (root, q, st')"
    using less_not_sym [OF k(2)] k x rem q(1-3) by (simp add: avl_remove.simps [of p x] Let_def)
  moreover have "unlinked q k" using st dd by (intro unlinked_frame [OF q1(2) q(5)]) auto
  moreover have "node_frame (set_tree (Node l x r)) p q"
    using st by (intro node_frame_mono [OF q(6)]) auto
  ultimately show ?thesis using q(4) by blast
qed

lemma avl_remove_ok:
  assumes "tree_at (pool_at p) par i t" "k \<in> set_tree t" "sorted_by (price_of p) (inorder t)"
  shows "\<exists>root q st'. avl_remove p i k st = Some (root, q, st') \<and>
    tree_at (pool_at q) par root (adel (price_of p) k t) \<and> unlinked q k \<and>
    node_frame (set_tree t) p q"
  using assms
proof (induction t arbitrary: par i k st)
  case (Node l x r)
  let ?pr = "price_of p"
  obtain lv where x: "pool_at p x = Some lv" "i = x" "x \<noteq> kInvalidPoolIndex"
    "nd_parent (pl_node lv) = par" and l: "tree_at (pool_at p) x (nd_left (pl_node lv)) l"
    and r: "tree_at (pool_at p) x (nd_right (pl_node lv)) r"
    using Node.prems(1) by auto
  obtain lk where k: "pool_at p k = Some lk"
    using tree_at_live [OF Node.prems(1,2)] by auto
  have so: "sorted_by ?pr (inorder l)" "sorted_by ?pr (inorder r)"
    "\<And>j. j \<in> set_tree l \<Longrightarrow> ?pr j < ?pr x" "\<And>j. j \<in> set_tree r \<Longrightarrow> ?pr x < ?pr j"
    using Node.prems(3) by (auto simp: sorted_wrt_append)
  have d': "distinct (inorder (Node l x r))" by (rule sorted_by_distinct [OF Node.prems(3)])
  consider (lt) "pl_price lk < pl_price lv" | (gt) "pl_price lv < pl_price lk"
    | (eq) "pl_price lk = pl_price lv" by fastforce
  then show ?case
  proof cases
    case lt
    then have kl: "k \<in> set_tree l" using Node.prems(2) so(4) [of k] x(1) k by auto
    have "adel ?pr k (Node l x r) = bal (adel ?pr k l) x r" using lt x(1) k by simp
    then show ?thesis
      using Node.IH(1) [OF l kl so(1)] avl_remove_below_left [OF x(1,3) k lt r so(1) kl d'] x(2,4) by metis
  next
    case gt
    then have kr: "k \<in> set_tree r" using Node.prems(2) so(3) [of k] x(1) k by auto
    have "adel ?pr k (Node l x r) = bal l x (adel ?pr k r)" using gt less_not_sym [OF gt] x(1) k by simp
    then show ?thesis
      using Node.IH(2) [OF r kr so(2)] avl_remove_below_right [OF x(1,3) k gt l so(2) kr d'] x(2,4) by metis
  next
    case eq
    then have kx: "k = x"
      using Node.prems(2) so(3,4) [of k] x(1) k by auto
    have IH: "\<exists>r' q st'. avl_remove p (nd_right (pl_node lv)) s st = Some (r', q, st') \<and>
        tree_at (pool_at q) x r' (adel ?pr s r) \<and> unlinked q s \<and> node_frame (set_tree r) p q"
      if "s \<in> set_tree r" for s st
      using Node.IH(2) [OF r that so(2)] by blast
    show ?thesis
      unfolding x(2) kx x(4) [symmetric] by (rule avl_remove_root [OF x(1,3) l r d' so(2) IH])
  qed
qed simp

section \<open>Properties\<close>

text \<open>C18: Inserting a level whose price the tree does not hold. The recursion ends; the result is
  a tree of the pool (every child link, parent link and stored height right), it is balanced and
  ordered by price, it holds the old levels and the new one, and nothing else in the pool has
  changed apart from links and heights of these levels.\<close>

theorem avl_insert_correct:
  assumes "tree_at (pool_at p) kInvalidPoolIndex i t" "avl t" "sorted_by (price_of p) (inorder t)"
    and "pool_at p n = Some l" "n \<noteq> kInvalidPoolIndex" "price_of p n \<notin> price_of p ` set_tree t"
  shows "\<exists>root q st' t'. avl_insert p i n st = Some (root, q, st') \<and>
    tree_at (pool_at q) kInvalidPoolIndex root t' \<and> avl t' \<and> sorted_by (price_of q) (inorder t') \<and>
    set_tree t' = insert n (set_tree t) \<and> node_frame (insert n (set_tree t)) p q"
proof -
  have nt: "n \<notin> set_tree t" using assms(6) by auto
  obtain root q st' where q: "avl_insert p i n st = Some (root, q, st')"
    "tree_at (pool_at q) kInvalidPoolIndex root (ains (price_of p) n t)"
    "node_frame (insert n (set_tree t)) p q"
    using avl_insert_ok [OF assms(1,4,5) nt sorted_by_distinct [OF assms(3)], of st]
    by (auto split: if_splits)
  have "sorted_by (price_of q) (inorder (ains (price_of p) n t))"
    using q(3) assms(3,6) by (simp add: inorder_ains sorted_ins_by)
  with q avl_ains(1) [OF assms(2)] set_tree_ains show ?thesis by metis
qed

text \<open>C19: Removing a level of the tree. The recursion ends; the result is a balanced, ordered
  tree of the pool holding the other levels; the removed level keeps its slot with its child
  links cleared, and nothing else has changed apart from links and heights.\<close>

theorem avl_remove_correct:
  assumes "tree_at (pool_at p) kInvalidPoolIndex i t" "avl t" "sorted_by (price_of p) (inorder t)"
    and "k \<in> set_tree t"
  shows "\<exists>root q st' t'. avl_remove p i k st = Some (root, q, st') \<and>
    tree_at (pool_at q) kInvalidPoolIndex root t' \<and> avl t' \<and> sorted_by (price_of q) (inorder t') \<and>
    set_tree t' = set_tree t - {k} \<and> unlinked q k \<and> node_frame (set_tree t) p q"
proof -
  obtain root q st' where q: "avl_remove p i k st = Some (root, q, st')"
    "tree_at (pool_at q) kInvalidPoolIndex root (adel (price_of p) k t)" "unlinked q k"
    "node_frame (set_tree t) p q"
    using avl_remove_ok [OF assms(1,4,3), of st] by blast
  have "sorted_by (price_of q) (inorder (adel (price_of p) k t))"
    using q(4) assms(3,4) by (simp add: inorder_adel sorted_wrt_filter)
  with q avl_adel [OF assms(2)] set_tree_adel [OF assms(3,4)] show ?thesis by metis
qed

text \<open>At every node of a balanced tree the balance factor the code computes is at most one either
  way, and computing the stored height again gives the height that is stored.\<close>

lemma pool_set_same: "pool_at p i = Some x \<Longrightarrow> pool_set p i x = p"
  by (cases p) (auto simp: pool_at_def pool_set_def list_update_same_conv split: if_splits slot.splits)

lemma node_balanced:
  assumes "tree_at (pool_at p) par i t" "avl t" "x \<in> set_tree t"
  shows "(\<exists>d. balance_factor p x = Some d \<and> \<bar>d\<bar> \<le> 1) \<and> update_height p x = Some p"
  using assms
proof (induction t arbitrary: par i)
  case (Node l y r)
  show ?case
  proof (cases "x = y")
    case True
    obtain lv where y: "pool_at p y = Some lv" "nd_height (pl_node lv) = int (height (Node l y r))"
      and l: "tree_at (pool_at p) y (nd_left (pl_node lv)) l" and r: "tree_at (pool_at p) y (nd_right (pl_node lv)) r"
      using Node.prems(1) by auto
    note h = avl_height_tree [OF l] avl_height_tree [OF r]
    have "1 + max (int (height l)) (int (height r)) = nd_height (pl_node lv)" using y(2) by simp
    then have "lv\<lparr>pl_node := (pl_node lv)\<lparr>nd_height := 1 + max (int (height l)) (int (height r))\<rparr>\<rparr> = lv" by simp
    then have "update_height p y = Some p"
      using y(1) h pool_set_same [OF y(1)] by (simp add: update_height_def node_at_def node_update_def)
    moreover have "balance_factor p y = Some (int (height r) - int (height l))"
      using y(1) h by (simp add: balance_factor_def node_at_def)
    moreover have "\<bar>int (height r) - int (height l)\<bar> \<le> 1" using Node.prems(2) by auto
    ultimately show ?thesis using True by blast
  next
    case False
    then show ?thesis using Node by auto
  qed
qed simp

text \<open>For the witnesses: a pool with the tree of prices 100 and 105, and a third level.\<close>

definition demo_level :: "u32 \<Rightarrow> u32 \<Rightarrow> u32 \<Rightarrow> int \<Rightarrow> price_level" where
  "demo_level price rt up h = price_level_init\<lparr>pl_price := price,
     pl_node := \<lparr>nd_left = kInvalidPoolIndex, nd_right = rt, nd_parent = up, nd_height = h\<rparr>\<rparr>"

definition demo_pool :: level_pool where
  "demo_pool = \<lparr>slots = [Obj (demo_level 100 1 kInvalidPoolIndex 2),
     Obj (demo_level 105 kInvalidPoolIndex 0 1),
     Obj (demo_level 103 kInvalidPoolIndex kInvalidPoolIndex 1), Free kInvalidPoolIndex],
     free_head = 3, active_count = 3\<rparr>"

lemma demo_pool_at:
  "pool_at demo_pool 0 = Some (demo_level 100 1 kInvalidPoolIndex 2)"
  "pool_at demo_pool 1 = Some (demo_level 105 kInvalidPoolIndex 0 1)"
  "pool_at demo_pool 2 = Some (demo_level 103 kInvalidPoolIndex kInvalidPoolIndex 1)"
  by (simp_all add: demo_pool_def pool_at_def)

lemma demo_tree:
  "tree_at (pool_at demo_pool) kInvalidPoolIndex 0 (Node Leaf 0 (Node Leaf 1 Leaf))"
  "avl (Node Leaf 0 (Node Leaf (1 :: u32) Leaf))"
  "sorted_by (price_of demo_pool) (inorder (Node Leaf 0 (Node Leaf (1 :: u32) Leaf)))"
  by (simp_all add: demo_pool_at demo_level_def kInvalidPoolIndex_def)

theorem avl_insert_correct_witness:
  "\<exists>root q st' t'. avl_insert demo_pool 0 2 stats_init = Some (root, q, st') \<and> avl t' \<and>
     tree_at (pool_at q) kInvalidPoolIndex root t' \<and> set_tree t' = {0, 1, 2}"
  using avl_insert_correct [OF demo_tree demo_pool_at(3), of stats_init]
  by (force simp: demo_pool_at demo_level_def kInvalidPoolIndex_def insert_commute)

theorem avl_remove_correct_witness:
  "\<exists>root q st' t'. avl_remove demo_pool 0 0 stats_init = Some (root, q, st') \<and> avl t' \<and>
     tree_at (pool_at q) kInvalidPoolIndex root t' \<and> set_tree t' = {1}"
  using avl_remove_correct [OF demo_tree, of 0 stats_init] by force

end
