(* ===== verification/TC_Flat_Price_Array.thy ===== *)
theory TC_Flat_Price_Array
  imports TC_Prelude
begin

text \<open>
  \<open>orderbook/flat_price_array.hpp\<close>: the dense array from ticks to level indices. The template
  parameter \<open>MaxTicks\<close> is the length of the array. A write outside the array is an assertion
  failure (and, with assertions compiled out, a write out of bounds), so it has no result here.
\<close>

section \<open>The array and its operations\<close>

record flat_price_array =
  level_indices :: "u32 list"
  anchor_price :: u32
  tick_size :: u32
  best_idx :: u64

definition max_ticks :: "flat_price_array \<Rightarrow> nat" where
  "max_ticks f = length (level_indices f)"

text \<open>\<open>best_idx_\<close> is a \<open>size_t\<close>; its empty value is the 32-bit sentinel, widened.\<close>

definition no_best :: u64 where
  "no_best = ucast kInvalidPoolIndex"

definition fpa_new :: "nat \<Rightarrow> flat_price_array" where
  "fpa_new n = \<lparr>level_indices = replicate n kInvalidPoolIndex, anchor_price = 0, tick_size = 1,
     best_idx = no_best\<rparr>"

definition set_anchor :: "flat_price_array \<Rightarrow> u32 \<Rightarrow> u32 \<Rightarrow> flat_price_array" where
  "set_anchor f a t = f\<lparr>anchor_price := a, tick_size := t\<rparr>"

definition price_to_index :: "flat_price_array \<Rightarrow> u32 \<Rightarrow> u64 option" where
  "price_to_index f price = (if price < anchor_price f then Some (- 1)
     else do {
       tc_assert (tick_size f \<noteq> 0);
       Some (ucast ((price - anchor_price f) div tick_size f))
     })"

definition fpa_find :: "flat_price_array \<Rightarrow> u32 \<Rightarrow> u32 option" where
  "fpa_find f price = do {
     idx \<leftarrow> price_to_index f price;
     if unat idx \<ge> max_ticks f then Some kInvalidPoolIndex
     else Some (level_indices f ! unat idx)
   }"

definition is_better :: "u64 \<Rightarrow> u64 \<Rightarrow> bool" where
  "is_better a b = (a > b)"

definition update_bbo_insert :: "flat_price_array \<Rightarrow> u64 \<Rightarrow> flat_price_array" where
  "update_bbo_insert f idx =
     (if best_idx f = no_best \<or> is_better idx (best_idx f) then f\<lparr>best_idx := idx\<rparr> else f)"

text \<open>One step of the scan of \<open>update_bbo_remove\<close>, and the scan.\<close>

definition scan_step :: "u32 list \<Rightarrow> nat \<Rightarrow> u64 \<Rightarrow> u64" where
  "scan_step li i best =
     (if li ! i \<noteq> kInvalidPoolIndex \<and> (best = no_best \<or> is_better (word_of_nat i) best)
      then word_of_nat i else best)"

definition update_bbo_remove :: "flat_price_array \<Rightarrow> u64 \<Rightarrow> flat_price_array" where
  "update_bbo_remove f idx = (if idx = best_idx f
     then f\<lparr>best_idx := fold (scan_step (level_indices f)) [0 ..< max_ticks f] no_best\<rparr>
     else f)"

definition fpa_insert :: "flat_price_array \<Rightarrow> u32 \<Rightarrow> u32 \<Rightarrow> flat_price_array option" where
  "fpa_insert f price level_pool_idx = do {
     idx \<leftarrow> price_to_index f price;
     tc_assert (unat idx < max_ticks f);
     let f = f\<lparr>level_indices := (level_indices f)[unat idx := level_pool_idx]\<rparr>;
     Some (update_bbo_insert f idx)
   }"

definition fpa_remove :: "flat_price_array \<Rightarrow> u32 \<Rightarrow> flat_price_array option" where
  "fpa_remove f price = do {
     idx \<leftarrow> price_to_index f price;
     tc_assert (unat idx < max_ticks f);
     let f = f\<lparr>level_indices := (level_indices f)[unat idx := kInvalidPoolIndex]\<rparr>;
     Some (update_bbo_remove f idx)
   }"

definition best_index :: "flat_price_array \<Rightarrow> u32 option" where
  "best_index f = (if best_idx f = no_best then Some kInvalidPoolIndex
     else do {
       tc_assert (unat (best_idx f) < max_ticks f);
       Some (level_indices f ! unat (best_idx f))
     })"

definition best_price :: "flat_price_array \<Rightarrow> u32" where
  "best_price f = (if best_idx f = no_best then 0
     else ucast (ucast (anchor_price f) + best_idx f * ucast (tick_size f)))"

section \<open>The array as a map from prices\<close>

text \<open>The book sides never call \<open>set_anchor\<close>: anchor 0 and tick size 1.\<close>

definition unit_ticks :: "flat_price_array \<Rightarrow> bool" where
  "unit_ticks f \<longleftrightarrow> anchor_price f = 0 \<and> tick_size f = 1"

lemma price_to_index_unit: "unit_ticks f \<Longrightarrow> price_to_index f p = Some (ucast p)"
  by (simp add: price_to_index_def unit_ticks_def word_less_nat_alt)

lemma fpa_find_unit:
  "unit_ticks f \<Longrightarrow> fpa_find f p =
     Some (if unat p < max_ticks f then level_indices f ! unat p else kInvalidPoolIndex)"
  by (simp add: fpa_find_def price_to_index_unit)

lemma fpa_insert_unit:
  assumes "unit_ticks f"
  shows "unat p < max_ticks f \<Longrightarrow> \<exists>g. fpa_insert f p i = Some g \<and> unit_ticks g \<and>
      max_ticks g = max_ticks f \<and> fpa_find g = (fpa_find f)(p \<mapsto> i)"
    and "\<not> unat p < max_ticks f \<Longrightarrow> fpa_insert f p i = None"
proof -
  assume p: "unat p < max_ticks f"
  let ?g = "update_bbo_insert (f\<lparr>level_indices := (level_indices f)[unat p := i]\<rparr>) (ucast p)"
  have g: "unit_ticks ?g" "max_ticks ?g = max_ticks f"
    "level_indices ?g = (level_indices f)[unat p := i]"
    using assms by (auto simp: update_bbo_insert_def unit_ticks_def max_ticks_def)
  have "fpa_find ?g = (fpa_find f)(p \<mapsto> i)"
    using p by (auto simp: fun_eq_iff fpa_find_unit g assms nth_list_update unat_inj_iff max_ticks_def)
  with g p show "\<exists>g. fpa_insert f p i = Some g \<and> unit_ticks g \<and>
      max_ticks g = max_ticks f \<and> fpa_find g = (fpa_find f)(p \<mapsto> i)"
    using assms by (simp add: fpa_insert_def price_to_index_unit Let_def)
qed (simp add: fpa_insert_def price_to_index_unit assms tc_assert_def)

lemma fpa_remove_unit:
  assumes "unit_ticks f" and p: "unat p < max_ticks f"
  shows "\<exists>g. fpa_remove f p = Some g \<and> unit_ticks g \<and>
      max_ticks g = max_ticks f \<and> fpa_find g = (fpa_find f)(p \<mapsto> kInvalidPoolIndex)"
proof -
  let ?g = "update_bbo_remove (f\<lparr>level_indices := (level_indices f)[unat p := kInvalidPoolIndex]\<rparr>) (ucast p)"
  have g: "unit_ticks ?g" "max_ticks ?g = max_ticks f"
    "level_indices ?g = (level_indices f)[unat p := kInvalidPoolIndex]"
    using assms by (auto simp: update_bbo_remove_def unit_ticks_def max_ticks_def)
  have "fpa_find ?g = (fpa_find f)(p \<mapsto> kInvalidPoolIndex)"
    using p by (auto simp: fun_eq_iff fpa_find_unit g assms nth_list_update unat_inj_iff max_ticks_def)
  with g p show ?thesis
    using assms by (simp add: fpa_remove_def price_to_index_unit Let_def)
qed

lemma fpa_new_unit [simp]: "unit_ticks (fpa_new n)" "max_ticks (fpa_new n) = n"
  "fpa_find (fpa_new n) p = Some kInvalidPoolIndex"
  by (simp_all add: unit_ticks_def fpa_new_def max_ticks_def fpa_find_def price_to_index_def)

section \<open>The cached best tick\<close>

text \<open>
  \<open>best_idx\<close> is the greatest occupied tick, or the sentinel when there is none, as long as the
  array is smaller than the sentinel.
\<close>

definition best_tick :: "u32 list \<Rightarrow> u64 \<Rightarrow> bool" where
  "best_tick li b \<longleftrightarrow>
     (b = no_best \<and> (\<forall>j < length li. li ! j = kInvalidPoolIndex)) \<or>
     (unat b < length li \<and> li ! unat b \<noteq> kInvalidPoolIndex \<and>
      (\<forall>j < length li. unat b < j \<longrightarrow> li ! j = kInvalidPoolIndex))"

lemma unat_no_best: "unat no_best = 2 ^ 32 - 1"
  by (simp add: no_best_def unat_kInvalidPoolIndex)

lemma scan_best:
  assumes "m \<le> length li" "length li < 2 ^ 32"
  shows "best_tick (take m li) (fold (scan_step li) [0 ..< m] no_best)"
  using assms(1)
proof (induction m)
  case (Suc m)
  let ?b = "fold (scan_step li) [0 ..< m] no_best"
  have m: "m < length li" "m < 2 ^ 64" and IH: "best_tick (take m li) ?b"
    using Suc assms(2) by auto
  have um: "unat (word_of_nat m :: u64) = m" using m(2) by simp
  have lt: "?b = no_best \<or> unat ?b < m"
    using IH by (auto simp: best_tick_def)
  then have better: "?b = no_best \<or> is_better (word_of_nat m) ?b"
    using um by (auto simp: is_better_def word_less_nat_alt)
  have step: "fold (scan_step li) [0 ..< Suc m] no_best =
      (if li ! m \<noteq> kInvalidPoolIndex then word_of_nat m else ?b)"
    using better by (simp add: scan_step_def)
  show ?case
  proof (cases "li ! m = kInvalidPoolIndex")
    case True
    then show ?thesis
      unfolding step using IH m by (auto simp: best_tick_def less_Suc_eq)
  next
    case False
    then show ?thesis
      unfolding step using um m by (auto simp: best_tick_def)
  qed
qed (simp add: best_tick_def)

lemma best_tick_update:
  assumes b: "best_tick li (best_idx f)" and f: "level_indices f = li[i := v]"
    and i: "i < length li" "length li < 2 ^ 32" and v: "v \<noteq> kInvalidPoolIndex"
  shows "best_tick (li[i := v]) (best_idx (update_bbo_insert f (word_of_nat i)))"
proof -
  have u: "unat (word_of_nat i :: u64) = i" using i by simp
  have nb: "best_idx f = no_best \<Longrightarrow> \<forall>j < length li. li ! j = kInvalidPoolIndex"
    using b i(2) by (auto simp: best_tick_def unat_no_best)
  have bb: "best_idx f \<noteq> no_best \<Longrightarrow> unat (best_idx f) < length li \<and>
      li ! unat (best_idx f) \<noteq> kInvalidPoolIndex \<and>
      (\<forall>j < length li. unat (best_idx f) < j \<longrightarrow> li ! j = kInvalidPoolIndex)"
    using b by (auto simp: best_tick_def)
  consider (fresh) "best_idx f = no_best" | (up) "best_idx f \<noteq> no_best" "unat (best_idx f) < i"
    | (keep) "best_idx f \<noteq> no_best" "i \<le> unat (best_idx f)" by linarith
  then show ?thesis
  proof cases
    case fresh
    then show ?thesis using nb i v u
      by (auto simp: update_bbo_insert_def best_tick_def nth_list_update)
  next
    case up
    then show ?thesis using bb i v u
      by (auto simp: update_bbo_insert_def best_tick_def is_better_def word_less_nat_alt nth_list_update)
  next
    case keep
    then show ?thesis using bb i v u
      by (auto simp: update_bbo_insert_def best_tick_def is_better_def word_less_nat_alt nth_list_update)
  qed
qed

lemma fpa_best_inv_insert:
  assumes "unit_ticks f" "max_ticks f < 2 ^ 32" "best_tick (level_indices f) (best_idx f)"
    "i \<noteq> kInvalidPoolIndex" "fpa_insert f p i = Some g"
  shows "best_tick (level_indices g) (best_idx g)"
proof -
  have p: "unat p < max_ticks f" using assms(1,5) fpa_insert_unit(2) by fastforce
  let ?f = "f\<lparr>level_indices := (level_indices f)[unat p := i]\<rparr>"
  have g: "g = update_bbo_insert ?f (ucast p)"
    using assms(1,5) p by (simp add: fpa_insert_def price_to_index_unit Let_def)
  have u: "(word_of_nat (unat p) :: u64) = ucast p" by simp
  have "level_indices g = (level_indices f)[unat p := i]" unfolding g
    by (simp add: update_bbo_insert_def)
  moreover have "best_tick ((level_indices f)[unat p := i]) (best_idx g)"
    unfolding g u [symmetric]
    by (rule best_tick_update) (use assms p in \<open>simp_all add: max_ticks_def\<close>)
  ultimately show ?thesis by simp
qed

lemma fpa_best_inv_remove:
  assumes "unit_ticks f" "max_ticks f < 2 ^ 32" "best_tick (level_indices f) (best_idx f)"
    "fpa_remove f p = Some g"
  shows "best_tick (level_indices g) (best_idx g)"
proof -
  have p: "unat p < max_ticks f"
    using assms(1,4) by (auto simp: fpa_remove_def price_to_index_unit split: bind_splits)
  let ?li = "(level_indices f)[unat p := kInvalidPoolIndex]"
  have g: "g = update_bbo_remove (f\<lparr>level_indices := ?li\<rparr>) (ucast p)"
    using assms(1,4) p by (simp add: fpa_remove_def price_to_index_unit Let_def)
  show ?thesis
  proof (cases "ucast p = best_idx f")
    case True
    then show ?thesis
      using scan_best [of "length ?li" ?li] assms(2) unfolding g
      by (simp add: update_bbo_remove_def max_ticks_def)
  next
    case False
    then have "unat p \<noteq> unat (best_idx f)" by (metis unat_ucast_u32_u64 unat_inj_iff)
    then show ?thesis
      using False assms(3) p unfolding g
      by (auto simp: update_bbo_remove_def best_tick_def nth_list_update max_ticks_def)
  qed
qed

end
