(* ===== verification/TC_Snapshot.thy ===== *)
theory TC_Snapshot
  imports TC_Avl_Tree
begin

text \<open>
  \<open>orderbook/book_snapshot.hpp\<close>: the top-of-book values and the read-only view of the book
  handed to observers, with its derived quantities. A span is the list of its elements.
\<close>

record best_bid =
  bid_price :: u32
  bid_qty :: u32
  bid_order_count :: u32
  bid_valid :: bool

record best_ask =
  ask_price :: u32
  ask_qty :: u32
  ask_order_count :: u32
  ask_valid :: bool

definition no_bid :: best_bid where
  "no_bid = \<lparr>bid_price = 0, bid_qty = 0, bid_order_count = 0, bid_valid = False\<rparr>"

definition no_ask :: best_ask where
  "no_ask = \<lparr>ask_price = 0, ask_qty = 0, ask_order_count = 0, ask_valid = False\<rparr>"

record book_snapshot =
  snap_symbol :: u16
  snap_sequence_number :: u64
  snap_timestamp_ns :: u64
  snap_best_bid :: best_bid
  snap_best_ask :: best_ask
  snap_bids :: "price_level list"
  snap_asks :: "price_level list"

definition book_snapshot_init :: book_snapshot where
  "book_snapshot_init = \<lparr>snap_symbol = 0, snap_sequence_number = 0, snap_timestamp_ns = 0,
     snap_best_bid = no_bid, snap_best_ask = no_ask, snap_bids = [], snap_asks = []\<rparr>"

definition snap_has_bbo :: "book_snapshot \<Rightarrow> bool" where
  "snap_has_bbo s = (bid_valid (snap_best_bid s) \<and> ask_valid (snap_best_ask s))"

definition spread :: "book_snapshot \<Rightarrow> u32" where
  "spread s = (if \<not> snap_has_bbo s then 0 else ask_price (snap_best_ask s) - bid_price (snap_best_bid s))"

definition mid_price :: "book_snapshot \<Rightarrow> u32" where
  "mid_price s = (if \<not> snap_has_bbo s then 0
     else (bid_price (snap_best_bid s) + ask_price (snap_best_ask s)) div 2)"

definition bid_depth :: "book_snapshot \<Rightarrow> nat" where
  "bid_depth s = length (snap_bids s)"

definition ask_depth :: "book_snapshot \<Rightarrow> nat" where
  "ask_depth s = length (snap_asks s)"

section \<open>Spread and mid price\<close>

text \<open>On a book that is not crossed the 32-bit subtraction does not wrap.\<close>

lemma unat_spread:
  assumes "snap_has_bbo s" "bid_price (snap_best_bid s) \<le> ask_price (snap_best_ask s)"
  shows "unat (spread s) = unat (ask_price (snap_best_ask s)) - unat (bid_price (snap_best_bid s))"
  using assms by (simp add: spread_def unat_sub)

text \<open>
  The mid price is the floor of the average as long as the two prices add up in 32 bits; then
  it lies between them. Above that bound the addition wraps.
\<close>

lemma unat_mid_price:
  assumes "snap_has_bbo s"
    "unat (bid_price (snap_best_bid s)) + unat (ask_price (snap_best_ask s)) < 2 ^ 32"
  shows "unat (mid_price s) =
    (unat (bid_price (snap_best_bid s)) + unat (ask_price (snap_best_ask s))) div 2"
proof -
  have "unat (bid_price (snap_best_bid s) + ask_price (snap_best_ask s)) =
      unat (bid_price (snap_best_bid s)) + unat (ask_price (snap_best_ask s))"
    using assms(2) by (simp add: unat_add_lem [where 'a = 32, simplified])
  then show ?thesis using assms(1) by (simp add: mid_price_def unat_div)
qed

end
