(* ===== verification/TC_Book_Side.thy ===== *)
theory TC_Book_Side
  imports TC_Avl_Correct TC_Flat_Price_Array TC_Snapshot
begin

text \<open>
  \<open>orderbook/book_side.hpp\<close>: one side of the book, the AVL tree of its price levels with the
  cached best level, the level count and the dense array from ticks to levels. The levels live
  in the pool both sides share; every operation takes that pool and returns it. \<open>side_rep\<close> is
  the invariant of a side, and the lemmas show each operation's effect on it.
\<close>

section \<open>State and operations\<close>

record book_side =
  avl_root :: u32
  bbo_idx :: u32
  level_count :: u64
  bs_side :: u8
  dense_levels :: flat_price_array

definition book_side_new :: "u8 \<Rightarrow> book_side" where
  "book_side_new s = \<lparr>avl_root = kInvalidPoolIndex, bbo_idx = kInvalidPoolIndex, level_count = 0,
     bs_side = s, dense_levels = fpa_new 10000\<rparr>"

definition create_level :: "book_side \<Rightarrow> u32 \<Rightarrow> level_pool \<Rightarrow> (u32 \<times> level_pool) option" where
  "create_level b price pool = do {
     (lvl, pool) \<leftarrow> level_allocate pool;
     case lvl of
       None \<Rightarrow> Some (kInvalidPoolIndex, pool)
     | Some idx \<Rightarrow> do {
         pool \<leftarrow> pool_update pool idx (\<lambda>l. l\<lparr>pl_price := price, pl_total_qty := 0,
           pl_order_count := 0, pl_head_order_idx := kInvalidPoolIndex,
           pl_tail_order_idx := kInvalidPoolIndex,
           pl_node := \<lparr>nd_left = kInvalidPoolIndex, nd_right = kInvalidPoolIndex,
                       nd_parent = kInvalidPoolIndex, nd_height = 1\<rparr>,
           pl_side := bs_side b\<rparr>);
         Some (idx, pool)
       }
   }"

definition update_bbo_on_insert :: "book_side \<Rightarrow> level_pool \<Rightarrow> u32 \<Rightarrow> book_side option" where
  "update_bbo_on_insert b pool new_idx =
     (if bbo_idx b = kInvalidPoolIndex then Some (b\<lparr>bbo_idx := new_idx\<rparr>)
      else do {
        new_lvl \<leftarrow> pool_at pool new_idx;
        bbo_lvl \<leftarrow> pool_at pool (bbo_idx b);
        let new_price = pl_price new_lvl;
        let bbo_price = pl_price bbo_lvl;
        if bs_side b = 0
        then Some (if new_price > bbo_price then b\<lparr>bbo_idx := new_idx\<rparr> else b)
        else Some (if new_price < bbo_price then b\<lparr>bbo_idx := new_idx\<rparr> else b)
      })"

definition insert_level :: "u32 \<Rightarrow> book_side \<Rightarrow> level_pool \<Rightarrow> avl_statistics \<Rightarrow>
    (book_side \<times> level_pool \<times> avl_statistics) option" where
  "insert_level idx b pool stats = do {
     lvl \<leftarrow> pool_at pool idx;
     dense \<leftarrow> fpa_insert (dense_levels b) (pl_price lvl) idx;
     let b = b\<lparr>dense_levels := dense\<rparr>;
     (root, pool, stats) \<leftarrow> avl_insert pool (avl_root b) idx stats;
     let b = b\<lparr>avl_root := root\<rparr>;
     let b = b\<lparr>level_count := level_count b + 1\<rparr>;
     let stats = stats\<lparr>levels_created := levels_created stats + 1\<rparr>;
     b \<leftarrow> update_bbo_on_insert b pool idx;
     stats \<leftarrow> update_stats_height pool (avl_root b) stats;
     Some (b, pool, stats)
   }"

definition remove_level :: "u32 \<Rightarrow> book_side \<Rightarrow> level_pool \<Rightarrow> avl_statistics \<Rightarrow>
    (book_side \<times> level_pool \<times> avl_statistics) option" where
  "remove_level idx b pool stats = do {
     tc_assert (level_count b > 0);
     lvl \<leftarrow> pool_at pool idx;
     dense \<leftarrow> fpa_remove (dense_levels b) (pl_price lvl);
     let b = b\<lparr>dense_levels := dense\<rparr>;
     let was_bbo = (idx = bbo_idx b);
     (root, pool, stats) \<leftarrow> avl_remove pool (avl_root b) idx stats;
     let b = b\<lparr>avl_root := root\<rparr>;
     let b = b\<lparr>level_count := level_count b - 1\<rparr>;
     let stats = stats\<lparr>levels_destroyed := levels_destroyed stats + 1\<rparr>;
     b \<leftarrow> (if was_bbo then do {
         best \<leftarrow> (if bs_side b = 0 then find_max pool (avl_root b) else find_min pool (avl_root b));
         Some (b\<lparr>bbo_idx := best\<rparr>)
       } else Some b);
     stats \<leftarrow> update_stats_height pool (avl_root b) stats;
     Some (b, pool, stats)
   }"

definition destroy_level :: "u32 \<Rightarrow> level_pool \<Rightarrow> avl_statistics \<Rightarrow>
    (level_pool \<times> avl_statistics) option" where
  "destroy_level idx pool stats = do {
     lvl \<leftarrow> pool_at pool idx;
     tc_assert (pl_order_count lvl = 0);
     tc_assert (pl_total_qty lvl = 0);
     tc_assert (pl_head_order_idx lvl = kInvalidPoolIndex);
     tc_assert (pl_tail_order_idx lvl = kInvalidPoolIndex);
     tc_assert (nd_left (pl_node lvl) = kInvalidPoolIndex);
     tc_assert (nd_right (pl_node lvl) = kInvalidPoolIndex);
     pool \<leftarrow> pool_deallocate idx pool;
     Some (pool, stats\<lparr>levels_recycled := levels_recycled stats + 1\<rparr>)
   }"

definition remove_and_destroy_level :: "u32 \<Rightarrow> book_side \<Rightarrow> level_pool \<Rightarrow> avl_statistics \<Rightarrow>
    (book_side \<times> level_pool \<times> avl_statistics) option" where
  "remove_and_destroy_level idx b pool stats = do {
     (b, pool, stats) \<leftarrow> remove_level idx b pool stats;
     (pool, stats) \<leftarrow> destroy_level idx pool stats;
     Some (b, pool, stats)
   }"

definition has_bbo :: "book_side \<Rightarrow> bool" where
  "has_bbo b = (bbo_idx b \<noteq> kInvalidPoolIndex)"

text \<open>\<open>bbo_level\<close>: \<open>Some None\<close> is the null pointer.\<close>

definition bbo_level :: "book_side \<Rightarrow> level_pool \<Rightarrow> price_level option option" where
  "bbo_level b pool = (if bbo_idx b = kInvalidPoolIndex then Some None
     else map_option Some (pool_at pool (bbo_idx b)))"

definition find_by_price :: "book_side \<Rightarrow> level_pool \<Rightarrow> u32 \<Rightarrow> u32 option" where
  "find_by_price b pool price = do {
     dense_idx \<leftarrow> fpa_find (dense_levels b) price;
     if dense_idx \<noteq> kInvalidPoolIndex then Some dense_idx
     else avl_find pool (avl_root b) price
   }"

definition best_bid_of :: "book_side \<Rightarrow> level_pool \<Rightarrow> best_bid option" where
  "best_bid_of b pool = do {
     tc_assert (bs_side b = 0);
     if bbo_idx b = kInvalidPoolIndex then Some no_bid
     else do {
       lvl \<leftarrow> pool_at pool (bbo_idx b);
       Some \<lparr>bid_price = pl_price lvl, bid_qty = pl_total_qty lvl,
             bid_order_count = pl_order_count lvl, bid_valid = True\<rparr>
     }
   }"

definition best_ask_of :: "book_side \<Rightarrow> level_pool \<Rightarrow> best_ask option" where
  "best_ask_of b pool = do {
     tc_assert (bs_side b = 1);
     if bbo_idx b = kInvalidPoolIndex then Some no_ask
     else do {
       lvl \<leftarrow> pool_at pool (bbo_idx b);
       Some \<lparr>ask_price = pl_price lvl, ask_qty = pl_total_qty lvl,
             ask_order_count = pl_order_count lvl, ask_valid = True\<rparr>
     }
   }"

section \<open>The best level and the price index of a tree\<close>

lemma last_ins_by:
  "sorted_by pr xs \<Longrightarrow> last (ins_by pr n xs) =
     (if xs = [] then n else if pr n < pr (last xs) then last xs else n)"
proof (induction xs)
  case (Cons x xs)
  have "ins_by pr n xs \<noteq> []" by (cases xs) auto
  moreover have "xs \<noteq> [] \<Longrightarrow> pr x < pr (last xs)" using Cons.prems by simp
  ultimately show ?case using Cons by (auto dest: order.strict_trans)
qed simp

lemma hd_ins_by: "hd (ins_by pr n xs) = (if xs = [] then n else if pr n < pr (hd xs) then n else hd xs)"
  by (cases xs) auto

definition best_in :: "u8 \<Rightarrow> u32 tree \<Rightarrow> u32 option" where
  "best_in s t = (if s = 0 then tmax t else tmin t)"

lemma tree_Leaf_inorder: "inorder t = [] \<longleftrightarrow> t = Leaf"
  by (cases t) auto

lemma best_in_ains:
  assumes "sorted_by pr (inorder t)"
  shows "best_in s (ains pr n t) = (case best_in s t of None \<Rightarrow> Some n
    | Some m \<Rightarrow> if s = 0 then (if pr n < pr m then Some m else Some n)
                 else (if pr n < pr m then Some n else Some m))"
  using assms by (auto simp: best_in_def tmax_eq tmin_eq inorder_ains last_ins_by hd_ins_by tree_Leaf_inorder)

lemma last_filter_neq: "xs \<noteq> [] \<Longrightarrow> last xs \<noteq> k \<Longrightarrow> last (filter (\<lambda>x. x \<noteq> k) xs) = last xs"
  by (induction xs rule: rev_induct) auto

lemma hd_filter_neq: "xs \<noteq> [] \<Longrightarrow> hd xs \<noteq> k \<Longrightarrow> hd (filter (\<lambda>x. x \<noteq> k) xs) = hd xs"
  by (cases xs) auto

lemma best_in_adel:
  assumes "sorted_by pr (inorder t)" "k \<in> set_tree t" "best_in s t \<noteq> Some k"
  shows "best_in s (adel pr k t) = best_in s t"
proof -
  let ?xs = "inorder t"
  have ne: "?xs \<noteq> []" using assms(2) by auto
  have i: "inorder (adel pr k t) = filter (\<lambda>x. x \<noteq> k) ?xs" by (rule inorder_adel [OF assms(1,2)])
  have z: "s = 0 \<Longrightarrow> last ?xs \<noteq> k" "s \<noteq> 0 \<Longrightarrow> hd ?xs \<noteq> k"
    using assms(3) ne by (auto simp: best_in_def tmax_eq tmin_eq tree_Leaf_inorder)
  then have "\<exists>x \<in> set ?xs. x \<noteq> k" using ne last_in_set list.set_sel(1) by (cases "s = 0") blast+
  then have ne': "filter (\<lambda>x. x \<noteq> k) ?xs \<noteq> []" by (simp add: filter_empty_conv)
  with z ne show ?thesis
    by (simp add: best_in_def tmax_eq tmin_eq i last_filter_neq hd_filter_neq flip: tree_Leaf_inorder)
qed

lemma sorted_ains:
  "sorted_by pr (inorder t) \<Longrightarrow> pr n \<notin> pr ` set_tree t \<Longrightarrow> sorted_by pr (inorder (ains pr n t))"
  by (simp add: inorder_ains sorted_ins_by)

lemma sorted_adel:
  "sorted_by pr (inorder t) \<Longrightarrow> k \<in> set_tree t \<Longrightarrow> sorted_by pr (inorder (adel pr k t))"
  by (simp add: inorder_adel sorted_wrt_filter)

lemma tfind_ains:
  assumes "sorted_by pr (inorder t)" "pr n \<notin> pr ` set_tree t"
  shows "tfind pr p (ains pr n t) = (if p = pr n then Some n else tfind pr p t)"
proof (rule option_eqI)
  fix x
  have "x \<in> set_tree t \<Longrightarrow> pr x \<noteq> pr n" using assms(2) by (metis image_eqI)
  then show "tfind pr p (ains pr n t) = Some x \<longleftrightarrow>
      (if p = pr n then Some n else tfind pr p t) = Some x"
    using tfind_Some [OF assms(1)] tfind_Some [OF sorted_ains [OF assms]] by auto
qed

lemma tfind_adel:
  assumes "sorted_by pr (inorder t)" "k \<in> set_tree t"
  shows "tfind pr p (adel pr k t) = (if p = pr k then None else tfind pr p t)"
proof (rule option_eqI)
  fix x
  have "x \<in> set_tree t \<Longrightarrow> pr x = pr k \<Longrightarrow> x = k"
    using sorted_by_inj [OF assms(1)] assms(2) by simp
  then show "tfind pr p (adel pr k t) = Some x \<longleftrightarrow> (if p = pr k then None else tfind pr p t) = Some x"
    using tfind_Some [OF assms(1)] tfind_Some [OF sorted_adel [OF assms]] set_tree_adel [OF assms]
    by auto
qed

lemma tfind_cong: "(\<And>j. j \<in> set_tree t \<Longrightarrow> pr j = pr' j) \<Longrightarrow> tfind pr p t = tfind pr' p t"
  by (induction t) auto

section \<open>The invariant of a side\<close>

text \<open>
  \<open>side_rep b p t\<close>: in pool \<open>p\<close>, side \<open>b\<close> holds the AVL tree \<open>t\<close> of level indices, ordered by
  price; the cached best level, the count and the dense array agree with it, and every level
  carries the side's tag.
\<close>

definition side_rep :: "book_side \<Rightarrow> level_pool \<Rightarrow> u32 tree \<Rightarrow> bool" where
  "side_rep b p t \<longleftrightarrow>
     tree_at (pool_at p) kInvalidPoolIndex (avl_root b) t \<and> avl t \<and>
     sorted_by (price_of p) (inorder t) \<and>
     bbo_idx b = or_invalid (best_in (bs_side b) t) \<and>
     unat (level_count b) = size t \<and>
     unit_ticks (dense_levels b) \<and> max_ticks (dense_levels b) = 10000 \<and>
     (\<forall>pr. fpa_find (dense_levels b) pr = Some (or_invalid (tfind (price_of p) pr t))) \<and>
     best_tick (level_indices (dense_levels b)) (best_idx (dense_levels b)) \<and>
     (\<forall>j \<in> set_tree t. map_option pl_side (pool_at p j) = Some (bs_side b))"

definition level_key :: "price_level \<Rightarrow> avl_node \<times> u32 \<times> u8" where
  "level_key l = (pl_node l, pl_price l, pl_side l)"

lemma tree_at_cong:
  "tree_at h par i t \<Longrightarrow> (\<And>j. j \<in> set_tree t \<Longrightarrow> map_option pl_node (h' j) = map_option pl_node (h j)) \<Longrightarrow>
     tree_at h' par i t"
proof (induction t arbitrary: par i)
  case (Node l x r)
  then obtain lv where lv: "h x = Some lv" "nd_parent (pl_node lv) = par"
    "nd_height (pl_node lv) = int (height (Node l x r))" "i = x" "x \<noteq> kInvalidPoolIndex"
    "tree_at h x (nd_left (pl_node lv)) l" "tree_at h x (nd_right (pl_node lv)) r" by auto
  have "map_option pl_node (h' x) = Some (pl_node lv)" using Node.prems(2) [of x] lv(1) by simp
  then obtain lv' where lv': "h' x = Some lv'" "pl_node lv' = pl_node lv" by auto
  moreover have "tree_at h' x (nd_left (pl_node lv)) l" "tree_at h' x (nd_right (pl_node lv)) r"
    using Node.IH Node.prems(2) lv by simp_all
  ultimately show ?case using lv by simp
qed simp

lemma side_rep_frame:
  assumes b: "side_rep b p t"
    and k: "\<And>j. j \<in> set_tree t \<Longrightarrow> map_option level_key (pool_at q j) = map_option level_key (pool_at p j)"
  shows "side_rep b q t"
proof -
  have j: "map_option pl_node (pool_at q j) = map_option pl_node (pool_at p j)"
    "price_of q j = price_of p j" "map_option pl_side (pool_at q j) = map_option pl_side (pool_at p j)"
    if "j \<in> set_tree t" for j
    using k [OF that]
    by (cases "pool_at q j"; cases "pool_at p j"; simp add: level_key_def price_of_def)+
  have "tfind (price_of q) pr t = tfind (price_of p) pr t" for pr
    by (rule tfind_cong) (rule j(2))
  moreover have "sorted_by (price_of q) (inorder t) = sorted_by (price_of p) (inorder t)"
    by (rule sorted_by_cong) (use j(2) in simp)
  moreover have "tree_at (pool_at p) kInvalidPoolIndex (avl_root b) t \<Longrightarrow>
      tree_at (pool_at q) kInvalidPoolIndex (avl_root b) t"
    by (erule tree_at_cong) (rule j(1))
  ultimately show ?thesis using b j(3) by (simp add: side_rep_def)
qed

lemma side_rep_new: "side_rep (book_side_new s) p Leaf"
  by (auto simp: side_rep_def book_side_new_def best_in_def best_tick_def fpa_new_def)
    (simp_all flip: fpa_new_def)

section \<open>The operations keep the invariant\<close>

lemma side_rep_dense:
  "side_rep b p t \<Longrightarrow> fpa_find (dense_levels b) pr = Some (or_invalid (tfind (price_of p) pr t))"
  by (simp add: side_rep_def)

lemma side_rep_tree: "side_rep b p t \<Longrightarrow> tree_at (pool_at p) kInvalidPoolIndex (avl_root b) t"
  by (simp add: side_rep_def)

lemma side_rep_sorted: "side_rep b p t \<Longrightarrow> sorted_by (price_of p) (inorder t)"
  by (simp add: side_rep_def)

lemma side_rep_live: "side_rep b p t \<Longrightarrow> j \<in> set_tree t \<Longrightarrow> j \<in> dom (pool_at p) \<and> j \<noteq> kInvalidPoolIndex"
  by (rule tree_at_live [OF side_rep_tree])

lemma side_find_Some:
  "side_rep b p t \<Longrightarrow> tfind (price_of p) pr t = Some x \<longleftrightarrow> x \<in> set_tree t \<and> price_of p x = pr"
  by (rule tfind_Some [OF side_rep_sorted])

lemma side_find_None:
  "side_rep b p t \<Longrightarrow> tfind (price_of p) pr t = None \<longleftrightarrow> pr \<notin> price_of p ` set_tree t"
  by (rule tfind_None [OF side_rep_sorted])

text \<open>Every level of a side has a price inside the dense array.\<close>

lemma side_rep_price_bound:
  assumes "side_rep b p t" "j \<in> set_tree t"
  shows "unat (price_of p j) < 10000"
proof -
  have "tfind (price_of p) (price_of p j) t = Some j"
    using assms by (simp add: side_find_Some)
  then have "fpa_find (dense_levels b) (price_of p j) = Some j"
    using side_rep_dense [OF assms(1)] by simp
  moreover have "j \<noteq> kInvalidPoolIndex" using side_rep_live [OF assms] by simp
  moreover have "unit_ticks (dense_levels b)" "max_ticks (dense_levels b) = 10000"
    using assms by (auto simp: side_rep_def)
  ultimately show ?thesis by (auto simp: fpa_find_unit split: if_splits)
qed

lemma find_by_price_ok:
  assumes "side_rep b p t"
  shows "find_by_price b p pr = Some (or_invalid (tfind (price_of p) pr t))"
proof -
  have "avl_find p (avl_root b) pr = Some (or_invalid (tfind (price_of p) pr t))"
    using assms by (intro avl_find_ok) (auto simp: side_rep_def)
  then show ?thesis by (simp add: find_by_price_def side_rep_dense [OF assms])
qed

lemma find_by_price_Some:
  assumes "side_rep b p t" "find_by_price b p pr = Some i" "i \<noteq> kInvalidPoolIndex"
  shows "i \<in> set_tree t" "price_of p i = pr"
proof -
  have "tfind (price_of p) pr t = Some i"
    using assms find_by_price_ok [OF assms(1)] by (cases "tfind (price_of p) pr t") auto
  then show "i \<in> set_tree t" "price_of p i = pr"
    using side_find_Some [OF assms(1)] by simp_all
qed

lemma find_by_price_None:
  assumes "side_rep b p t"
  shows "find_by_price b p pr = Some kInvalidPoolIndex \<longleftrightarrow> pr \<notin> price_of p ` set_tree t"
proof (cases "tfind (price_of p) pr t")
  case None
  then show ?thesis using find_by_price_ok [OF assms, of pr] side_find_None [OF assms, of pr] by simp
next
  case (Some i)
  then have i: "i \<in> set_tree t" "price_of p i = pr"
    using side_find_Some [OF assms] by simp_all
  then have "i \<noteq> kInvalidPoolIndex" using side_rep_live [OF assms] by simp
  with i Some show ?thesis using find_by_price_ok [OF assms, of pr] by auto
qed

text \<open>A tree of live levels is smaller than the pool.\<close>

lemma tree_size_bound:
  assumes "tree_at (pool_at p) par i t" "distinct (inorder t)" "pool_wf p"
  shows "size t \<le> capacity p" "size t < 2 ^ 32"
proof -
  have "size t = card (set_tree t)"
    using assms(2) by (metis distinct_card length_inorder set_inorder)
  also have "\<dots> \<le> card (dom (pool_at p))"
    by (rule card_mono [OF finite_live]) (use tree_at_live [OF assms(1)] in blast)
  also have "\<dots> \<le> capacity p" by (rule card_live_le [OF assms(3)])
  finally show "size t \<le> capacity p" .
  also have "capacity p < 2 ^ 32" using assms(3) by (simp add: pool_wf_def capacity_def)
  finally show "size t < 2 ^ 32" .
qed

lemma size_ains:
  assumes "sorted_by pr (inorder t)"
  shows "size (ains pr n t) = Suc (size t)"
proof -
  have "size (ains pr n t) = length (inorder (ains pr n t))" by simp
  also have "\<dots> = Suc (size t)" unfolding inorder_ains [OF assms] by simp
  finally show ?thesis .
qed

lemma size_adel:
  assumes "sorted_by pr (inorder t)" "k \<in> set_tree t"
  shows "size (adel pr k t) = size t - 1"
proof -
  have "size (adel pr k t) = length (inorder (adel pr k t))" by simp
  also have "\<dots> = length (filter (\<lambda>x. x \<noteq> k) (inorder t))" unfolding inorder_adel [OF assms] ..
  also have "\<dots> = length (remove1 k (inorder t))"
    using sorted_by_distinct [OF assms(1)]
    by (simp add: distinct_remove1_removeAll removeAll_filter_not_eq [abs_def] conj_commute neq_commute)
  finally show ?thesis using assms(2) by (simp add: length_remove1)
qed

lemma update_stats_height_ok:
  "tree_at (pool_at p) par i t \<Longrightarrow> \<exists>st'. update_stats_height p i st = Some st'"
  by (simp add: update_stats_height_def avl_height_tree Let_def)

lemma best_in_mem:
  assumes "best_in s t = Some m"
  shows "m \<in> set_tree t"
proof -
  have "t \<noteq> Leaf" using assms by (auto simp: best_in_def split: if_splits)
  then have "inorder t \<noteq> []" by (simp add: tree_Leaf_inorder)
  from last_in_set [OF this] hd_in_set [OF this]
  have "last (inorder t) \<in> set_tree t" "hd (inorder t) \<in> set_tree t" by simp_all
  then show ?thesis using assms by (auto simp: best_in_def tmax_eq tmin_eq split: if_splits)
qed

lemma best_in_None: "best_in s t = None \<longleftrightarrow> t = Leaf"
  by (simp add: best_in_def tmax_eq tmin_eq)

text \<open>Step 1: a new level. With no free slot the result is the sentinel.\<close>

definition fresh_level :: "book_side \<Rightarrow> u32 \<Rightarrow> price_level" where
  "fresh_level b price = price_level_init\<lparr>pl_price := price,
     pl_head_order_idx := kInvalidPoolIndex, pl_tail_order_idx := kInvalidPoolIndex,
     pl_side := bs_side b\<rparr>"

lemma create_level_full:
  "pool_wf p \<Longrightarrow> card (dom (pool_at p)) = capacity p \<Longrightarrow> create_level b price p = Some (kInvalidPoolIndex, p)"
  by (simp add: create_level_def level_allocate_def pool_allocate_eq free_head_room)

lemma create_level_ok:
  assumes "pool_wf p" "card (dom (pool_at p)) \<noteq> capacity p"
  shows "\<exists>i q. create_level b price p = Some (i, q) \<and> i \<noteq> kInvalidPoolIndex \<and> pool_at p i = None \<and>
    pool_at q = (pool_at p)(i \<mapsto> fresh_level b price) \<and> pool_wf q \<and> capacity q = capacity p"
  using assms(1)
proof (cases rule: obj_pool.alloc_cases [where d = price_level_init])
  case (fresh i q)
  have qi: "pool_at q i = Some price_level_init" using fresh by simp
  let ?q = "pool_set q i (fresh_level b price)"
  have "create_level b price p = Some (i, ?q)"
    using fresh qi by (simp add: create_level_def level_allocate_def fresh_level_def price_level_init_def)
  moreover have "pool_at ?q = (pool_at p)(i \<mapsto> fresh_level b price)" "pool_wf ?q" "capacity ?q = capacity p"
    using fresh qi by (simp_all add: domIff)
  ultimately show ?thesis using fresh by blast
qed (use assms in auto)

text \<open>Step 2: inserting a level whose price the side does not hold yet.\<close>

lemma update_bbo_on_insert_ok:
  assumes bbo: "bbo_idx b = or_invalid (best_in (bs_side b) t)"
    and so: "sorted_by (price_of p) (inorder t)" "price_of p n \<notin> price_of p ` set_tree t"
    and live: "n \<in> dom (pool_at p)" "set_tree t \<subseteq> dom (pool_at p) - {kInvalidPoolIndex}"
  shows "update_bbo_on_insert b p n =
    Some (b\<lparr>bbo_idx := or_invalid (best_in (bs_side b) (ains (price_of p) n t))\<rparr>)"
proof (cases "best_in (bs_side b) t")
  case None
  then show ?thesis by (simp add: update_bbo_on_insert_def bbo best_in_ains [OF so(1)])
next
  case (Some m)
  then have m: "m \<in> set_tree t" by (rule best_in_mem)
  then obtain lm ln where "pool_at p m = Some lm" "pool_at p n = Some ln" "m \<noteq> kInvalidPoolIndex"
    using live by blast
  moreover from this m so(2) have "pl_price ln \<noteq> pl_price lm" by (metis image_eqI price_of_eq)
  ultimately show ?thesis using bbo Some
    by (cases b) (auto simp: update_bbo_on_insert_def best_in_ains [OF so(1)] Let_def)
qed

lemma pl_data_side: "pl_data l = pl_data l' \<Longrightarrow> pl_side l = pl_side l'"
  by (simp add: pl_data_def)

lemma side_tag_frame:
  assumes "node_frame S p q"
  shows "map_option pl_side (pool_at q j) = map_option pl_side (pool_at p j)"
proof -
  have "map_option pl_data (pool_at q j) = map_option pl_data (pool_at p j)"
    using assms by (simp add: node_frame_def)
  then show ?thesis by (cases "pool_at q j"; cases "pool_at p j") (auto dest: pl_data_side)
qed

lemma dense_after_insert:
  assumes b: "side_rep b p t" and n: "n \<noteq> kInvalidPoolIndex" "unat pr < 10000"
  obtains g where "fpa_insert (dense_levels b) pr n = Some g" "unit_ticks g" "max_ticks g = 10000"
    "fpa_find g = (fpa_find (dense_levels b))(pr \<mapsto> n)" "best_tick (level_indices g) (best_idx g)"
proof -
  have un: "unit_ticks (dense_levels b)" and mt: "max_ticks (dense_levels b) = 10000"
    and bt: "best_tick (level_indices (dense_levels b)) (best_idx (dense_levels b))"
    using b by (simp_all add: side_rep_def)
  obtain g where g: "fpa_insert (dense_levels b) pr n = Some g" "unit_ticks g"
    "max_ticks g = 10000" "fpa_find g = (fpa_find (dense_levels b))(pr \<mapsto> n)"
    using fpa_insert_unit(1) [OF un] mt n(2) by metis
  have "best_tick (level_indices g) (best_idx g)"
    by (rule fpa_best_inv_insert [OF un _ bt n(1) g(1)]) (simp add: mt)
  with g show ?thesis by (rule that)
qed

lemma dense_after_remove:
  assumes b: "side_rep b p t" and pr: "unat pr < 10000"
  obtains g where "fpa_remove (dense_levels b) pr = Some g" "unit_ticks g" "max_ticks g = 10000"
    "fpa_find g = (fpa_find (dense_levels b))(pr \<mapsto> kInvalidPoolIndex)" "best_tick (level_indices g) (best_idx g)"
proof -
  have un: "unit_ticks (dense_levels b)" and mt: "max_ticks (dense_levels b) = 10000"
    and bt: "best_tick (level_indices (dense_levels b)) (best_idx (dense_levels b))"
    using b by (simp_all add: side_rep_def)
  obtain g where g: "fpa_remove (dense_levels b) pr = Some g" "unit_ticks g"
    "max_ticks g = 10000" "fpa_find g = (fpa_find (dense_levels b))(pr \<mapsto> kInvalidPoolIndex)"
    using fpa_remove_unit [OF un] mt pr by metis
  have "best_tick (level_indices g) (best_idx g)"
    by (rule fpa_best_inv_remove [OF un _ bt g(1)]) (simp add: mt)
  with g show ?thesis by (rule that)
qed

lemma level_count_after:
  assumes b: "side_rep b p t" and p: "pool_wf p"
  shows "n \<notin> set_tree t \<Longrightarrow> unat (level_count b + 1) = size (ains (price_of p) n t)"
    and "k \<in> set_tree t \<Longrightarrow> 0 < level_count b"
    and "k \<in> set_tree t \<Longrightarrow> unat (level_count b - 1) = size (adel (price_of p) k t)"
proof -
  note so = side_rep_sorted [OF b]
  have u: "unat (level_count b) = size t" using b by (simp add: side_rep_def)
  have pos: "0 < size t" if "k \<in> set_tree t" using that by (cases t) auto
  show "unat (level_count b + 1) = size (ains (price_of p) n t)" if "n \<notin> set_tree t"
  proof -
    have "size t < 2 ^ 32"
      by (rule tree_size_bound(2) [OF side_rep_tree [OF b] sorted_by_distinct [OF so] p])
    then have "unat (level_count b + 1) = Suc (size t)"
      using u unat_plus_one_u64 [of "level_count b"] by simp
    then show ?thesis by (simp add: size_ains [OF so])
  qed
  show "0 < level_count b" if "k \<in> set_tree t" using u pos [OF that] by (simp add: word_less_nat_alt)
  show "unat (level_count b - 1) = size (adel (price_of p) k t)" if "k \<in> set_tree t"
    using unat_minus_one_pos [of "level_count b"] u pos [OF that] by (simp add: size_adel [OF so that])
qed

lemma insert_level_ok:
  assumes b: "side_rep b p t" and p: "pool_wf p"
    and n: "pool_at p n = Some nl" "n \<notin> set_tree t" "pl_side nl = bs_side b"
    and pr: "unat (pl_price nl) < 10000" "pl_price nl \<notin> price_of p ` set_tree t"
  shows "\<exists>b' q st'. insert_level n b p st = Some (b', q, st') \<and>
    side_rep b' q (ains (price_of p) n t) \<and> node_frame (insert n (set_tree t)) p q \<and>
    bs_side b' = bs_side b"
proof -
  let ?t = "ains (price_of p) n t"
  note so = side_rep_sorted [OF b]
  have nv: "n \<noteq> kInvalidPoolIndex" by (rule pool_at_not_invalid [OF p n(1)])
  have pn: "price_of p n \<notin> price_of p ` set_tree t" using n(1) pr(2) by simp
  obtain g where g: "fpa_insert (dense_levels b) (pl_price nl) n = Some g" "unit_ticks g" "max_ticks g = 10000"
    "fpa_find g = (fpa_find (dense_levels b))(pl_price nl \<mapsto> n)" and bg: "best_tick (level_indices g) (best_idx g)"
    by (rule dense_after_insert [OF b nv pr(1)])
  obtain root q st1 where q: "avl_insert p (avl_root b) n st = Some (root, q, st1)"
    "tree_at (pool_at q) kInvalidPoolIndex root ?t" "node_frame (insert n (set_tree t)) p q"
    using avl_insert_ok [OF side_rep_tree [OF b] n(1) nv n(2) sorted_by_distinct [OF so], of st]
    by (auto split: if_splits)
  have pq: "price_of q = price_of p" using q(3) by simp
  define b1 where "b1 = b\<lparr>dense_levels := g, avl_root := root, level_count := level_count b + 1\<rparr>"
  have live: "n \<in> dom (pool_at q)" "set_tree t \<subseteq> dom (pool_at q) - {kInvalidPoolIndex}"
    using n(1) side_rep_live [OF b] node_frame_dom [OF q(3)] by auto
  have bbo1: "bbo_idx b1 = or_invalid (best_in (bs_side b1) t)"
    using b by (simp add: b1_def side_rep_def)
  have bbo: "update_bbo_on_insert b1 q n = Some (b1\<lparr>bbo_idx := or_invalid (best_in (bs_side b) ?t)\<rparr>)"
    using update_bbo_on_insert_ok [OF bbo1, of q n] so pn live pq by (simp add: b1_def)
  obtain st2 where st2: "update_stats_height q root (st1\<lparr>levels_created := levels_created st1 + 1\<rparr>) = Some st2"
    using update_stats_height_ok [OF q(2)] by blast
  let ?b = "b1\<lparr>bbo_idx := or_invalid (best_in (bs_side b) ?t)\<rparr>"
  have "insert_level n b p st = Some (?b, q, st2)"
    using bbo st2 by (simp add: insert_level_def n(1) g(1) q(1) b1_def Let_def)
  moreover have "side_rep ?b q ?t"
  proof -
    have fd: "fpa_find g pr = Some (or_invalid (tfind (price_of p) pr ?t))" for pr
      using side_rep_dense [OF b] tfind_ains [OF so pn] n(1) by (simp add: g(4))
    have av: "avl ?t" using b avl_ains(1) by (auto simp: side_rep_def)
    have tag: "map_option pl_side (pool_at q j) = Some (bs_side b)" if "j \<in> set_tree ?t" for j
      using that b n(1,3) side_tag_frame [OF q(3), of j] by (auto simp: side_rep_def)
    show ?thesis
      using q(2) av sorted_ains [OF so pn] level_count_after(1) [OF b p n(2)] g(2,3) fd bg tag
      unfolding side_rep_def b1_def pq by simp
  qed
  ultimately show ?thesis using q(3) by (auto simp: b1_def)
qed

lemma insert_level_out_of_range:
  assumes "unit_ticks (dense_levels b)" "max_ticks (dense_levels b) = 10000"
    and "pool_at p n = Some nl" "\<not> unat (pl_price nl) < 10000"
  shows "insert_level n b p st = None"
  using fpa_insert_unit(2) [OF assms(1), of "pl_price nl" n] assms by (simp add: insert_level_def)

text \<open>Steps 3 and 4: taking a level out of the tree, and giving its slot back.\<close>

lemma remove_level_ok:
  assumes b: "side_rep b p t" and p: "pool_wf p" and k: "k \<in> set_tree t"
  shows "\<exists>b' q st'. remove_level k b p st = Some (b', q, st') \<and>
    side_rep b' q (adel (price_of p) k t) \<and> node_frame (set_tree t) p q \<and> unlinked q k \<and>
    bs_side b' = bs_side b"
proof -
  let ?t = "adel (price_of p) k t"
  note so = side_rep_sorted [OF b]
  obtain kl where kl: "pool_at p k = Some kl" and kv: "k \<noteq> kInvalidPoolIndex"
    using side_rep_live [OF b k] by auto
  have "unat (pl_price kl) < 10000"
    using side_rep_price_bound [OF b k] kl by simp
  then obtain g where g: "fpa_remove (dense_levels b) (pl_price kl) = Some g" "unit_ticks g" "max_ticks g = 10000"
    "fpa_find g = (fpa_find (dense_levels b))(pl_price kl \<mapsto> kInvalidPoolIndex)"
    and bg: "best_tick (level_indices g) (best_idx g)"
    by (rule dense_after_remove [OF b])
  obtain root q st1 where q: "avl_remove p (avl_root b) k st = Some (root, q, st1)"
    "tree_at (pool_at q) kInvalidPoolIndex root ?t" "unlinked q k" "node_frame (set_tree t) p q"
    using avl_remove_ok [OF side_rep_tree [OF b] k so, of st] by blast
  have pq: "price_of q = price_of p" using q(4) by simp
  note cnt = level_count_after(2,3) [OF b p k]
  define b1 where "b1 = b\<lparr>dense_levels := g, avl_root := root, level_count := level_count b - 1\<rparr>"
  let ?b = "b1\<lparr>bbo_idx := or_invalid (best_in (bs_side b) ?t)\<rparr>"
  have bb: "bbo_idx b = or_invalid (best_in (bs_side b) t)" using b by (simp add: side_rep_def)
  have keep: "b1 = ?b" if "k \<noteq> bbo_idx b"
  proof -
    have "best_in (bs_side b) t \<noteq> Some k" using bb that by auto
    then have "bbo_idx b1 = or_invalid (best_in (bs_side b) ?t)"
      using best_in_adel [OF so k, of "bs_side b"] bb by (simp add: b1_def)
    then show ?thesis by simp
  qed
  obtain st2 where st2: "update_stats_height q root (st1\<lparr>levels_destroyed := levels_destroyed st1 + 1\<rparr>) = Some st2"
    using update_stats_height_ok [OF q(2)] by blast
  have "remove_level k b p st = Some (?b, q, st2)"
  proof (cases "k = bbo_idx b")
    case True
    then show ?thesis
      using st2 cnt(1) kl by (simp add: remove_level_def g(1) q(1) b1_def Let_def best_in_def
        find_max_ok [OF q(2)] find_min_ok [OF q(2)] flip: True)
  next
    case False
    have "remove_level k b p st = Some (b1, q, st2)"
      using False st2 cnt(1) by (simp add: remove_level_def kl g(1) q(1) b1_def Let_def)
    then show ?thesis using keep [OF False] by simp
  qed
  moreover have "side_rep ?b q ?t"
  proof -
    have fd: "fpa_find g pr = Some (or_invalid (tfind (price_of p) pr ?t))" for pr
      using side_rep_dense [OF b] tfind_adel [OF so k] kl by (simp add: g(4))
    have av: "avl ?t" using b avl_adel by (auto simp: side_rep_def)
    have tag: "map_option pl_side (pool_at q j) = Some (bs_side b)" if "j \<in> set_tree ?t" for j
      using that b set_tree_adel [OF so k] side_tag_frame [OF q(4), of j] by (auto simp: side_rep_def)
    show ?thesis
      using q(2) av sorted_adel [OF so k] cnt(2) g(2,3) fd bg tag
      unfolding side_rep_def b1_def pq by simp
  qed
  ultimately show ?thesis using q(3,4) by (auto simp: b1_def)
qed

lemma destroy_level_ok:
  assumes "pool_at p k = Some l" "pl_order_count l = 0" "pl_total_qty l = 0"
    "pl_head_order_idx l = kInvalidPoolIndex" "pl_tail_order_idx l = kInvalidPoolIndex" "unlinked p k"
  shows "destroy_level k p st = Some (pool_free k p, st\<lparr>levels_recycled := levels_recycled st + 1\<rparr>)"
  using assms by (simp add: destroy_level_def unlinked_def pool_deallocate_eq domIff)

text \<open>An emptied level is removed and its slot is free again.\<close>

lemma remove_and_destroy_level_ok:
  assumes b: "side_rep b p t" and p: "pool_wf p" and k: "k \<in> set_tree t"
    and e: "pool_at p k = Some l" "pl_order_count l = 0" "pl_total_qty l = 0"
      "pl_head_order_idx l = kInvalidPoolIndex" "pl_tail_order_idx l = kInvalidPoolIndex"
  shows "\<exists>b' q r st'. remove_and_destroy_level k b p st = Some (b', r, st') \<and>
    side_rep b' r (adel (price_of p) k t) \<and> node_frame (set_tree t) p q \<and>
    pool_at r = (pool_at q)(k := None) \<and> pool_wf r \<and> capacity r = capacity p \<and>
    bs_side b' = bs_side b"
proof -
  obtain b' q st' where q: "remove_level k b p st = Some (b', q, st')"
    "side_rep b' q (adel (price_of p) k t)" "node_frame (set_tree t) p q" "unlinked q k"
    "bs_side b' = bs_side b"
    using remove_level_ok [OF b p k, of st] by blast
  obtain l' where l': "pool_at q k = Some l'" "pl_data l' = pl_data l"
    using node_frame_data [OF q(3) e(1)] by blast
  let ?r = "pool_free k q"
  have dq: "k \<in> dom (pool_at q)" using l' by auto
  have at: "pool_at ?r = (pool_at q)(k := None)" by (rule pool_at_free [OF dq])
  have "destroy_level k q st' = Some (?r, st'\<lparr>levels_recycled := levels_recycled st' + 1\<rparr>)"
    by (rule destroy_level_ok [OF l'(1)]) (use l'(2) e q(4) in \<open>simp_all add: pl_data_def\<close>)
  then have "remove_and_destroy_level k b p st =
      Some (b', ?r, st'\<lparr>levels_recycled := levels_recycled st' + 1\<rparr>)"
    by (simp add: remove_and_destroy_level_def q(1))
  moreover have "side_rep b' ?r (adel (price_of p) k t)"
    by (rule side_rep_frame [OF q(2)])
      (auto simp: at set_tree_adel [OF side_rep_sorted [OF b] k])
  moreover have "pool_wf ?r" using pool_wf_free [OF dq node_frame_wf [OF q(3) p]] .
  moreover have "capacity ?r = capacity p" using q(3) by (simp add: node_frame_def)
  ultimately show ?thesis using q(3,5) at by blast
qed

section \<open>Best level\<close>

lemma bbo_level_ok:
  assumes "side_rep b p t"
  shows "bbo_level b p = Some (Option.bind (best_in (bs_side b) t) (pool_at p))"
proof (cases "best_in (bs_side b) t")
  case None
  then show ?thesis using assms by (simp add: bbo_level_def side_rep_def)
next
  case (Some m)
  then obtain l where "pool_at p m = Some l" "m \<noteq> kInvalidPoolIndex"
    using side_rep_live [OF assms best_in_mem] by blast
  with Some show ?thesis using assms by (simp add: bbo_level_def side_rep_def)
qed

end
