(* ===== verification/TC_Flat_Hash_Map.thy ===== *)
theory TC_Flat_Hash_Map
  imports TC_Prelude "HOL-Library.Log_Nat"
begin

text \<open>
  \<open>orderbook/flat_hash_map.hpp\<close>: the open-addressed table from order ids to order pool indices,
  with linear probing and re-insertion of the rest of the cluster after an erasure. Key 0 marks
  a free slot. The probe loops have no bound in the code, so they are partial functions, and
  the lemmas show that they end on every table the operations can build. \<open>index_map\<close> is the
  interface the order book relies on.
\<close>

unbundle bit_operations_syntax

section \<open>Single precision load factor\<close>

text \<open>
  \<open>insert\<close> compares \<open>float(size + 1) / float(capacity)\<close> with \<open>0.75f\<close>. Converting an integer
  rounds to 24 significant bits, ties to even. The capacity is a power of two, so its
  conversion and the division are exact, and the comparison is one of naturals.
\<close>

definition f32_of_nat :: "nat \<Rightarrow> nat" where
  "f32_of_nat x = (let e = floorlog 2 x - 24; q = x div 2 ^ e; r = x mod 2 ^ e in
     if 2 * r > 2 ^ e \<or> (2 * r = 2 ^ e \<and> odd q) then (q + 1) * 2 ^ e else q * 2 ^ e)"

definition load_factor_reached :: "u64 \<Rightarrow> u64 \<Rightarrow> bool" where
  "load_factor_reached count cap = (4 * f32_of_nat (unat count) \<ge> 3 * f32_of_nat (unat cap))"

section \<open>The table and its operations\<close>

record flat_hash_map =
  fm_capacity :: u64
  fm_mask :: u64
  fm_keys :: "u64 list"
  fm_values :: "u32 list"
  fm_size :: u64

definition kEmptyKey :: u64 where
  "kEmptyKey = 0"

definition kEmpty :: u32 where
  "kEmpty = kInvalidPoolIndex"

definition bit_width :: "u64 \<Rightarrow> nat" where
  "bit_width x = floorlog 2 (unat x)"

definition next_power_of_two :: "u64 \<Rightarrow> u64 option" where
  "next_power_of_two n = (if n = 0 then Some 1
     else do {
       tc_assert (bit_width (n - 1) < 64);
       Some (push_bit (bit_width (n - 1)) 1)
     })"

definition fm_new :: "u64 \<Rightarrow> flat_hash_map option" where
  "fm_new cap = do {
     c \<leftarrow> next_power_of_two cap;
     Some \<lparr>fm_capacity = c, fm_mask = c - 1, fm_keys = replicate (unat c) kEmptyKey,
           fm_values = replicate (unat c) kEmpty, fm_size = 0\<rparr>
   }"

definition fm_hash :: "u64 \<Rightarrow> u64" where
  "fm_hash key = key * 11400714819323198485"

definition key_at :: "flat_hash_map \<Rightarrow> u64 \<Rightarrow> u64 option" where
  "key_at m idx = (if unat idx < length (fm_keys m) then Some (fm_keys m ! unat idx) else None)"

definition value_at :: "flat_hash_map \<Rightarrow> u64 \<Rightarrow> u32 option" where
  "value_at m idx = (if unat idx < length (fm_values m) then Some (fm_values m ! unat idx) else None)"

definition set_slot :: "flat_hash_map \<Rightarrow> u64 \<Rightarrow> u64 \<Rightarrow> u32 \<Rightarrow> flat_hash_map" where
  "set_slot m idx key val = m\<lparr>fm_keys := (fm_keys m)[unat idx := key],
     fm_values := (fm_values m)[unat idx := val]\<rparr>"

partial_function (option) insert_probe :: "flat_hash_map \<Rightarrow> u64 \<Rightarrow> u64 \<Rightarrow> u64 option" where
  "insert_probe m key idx = do {
     k \<leftarrow> key_at m idx;
     if k \<noteq> kEmptyKey \<and> k \<noteq> key then insert_probe m key ((idx + 1) AND fm_mask m)
     else Some idx
   }"

definition fm_insert :: "u64 \<Rightarrow> u32 \<Rightarrow> flat_hash_map \<Rightarrow> (bool \<times> flat_hash_map) option" where
  "fm_insert key val m = do {
     tc_assert (key \<noteq> kEmptyKey);
     if load_factor_reached (fm_size m + 1) (fm_capacity m) then Some (False, m)
     else do {
       idx \<leftarrow> insert_probe m key (fm_hash key AND fm_mask m);
       k \<leftarrow> key_at m idx;
       let m = (if k = kEmptyKey then m\<lparr>fm_size := fm_size m + 1\<rparr> else m);
       Some (True, set_slot m idx key val)
     }
   }"

partial_function (option) find_loop :: "flat_hash_map \<Rightarrow> u64 \<Rightarrow> u64 \<Rightarrow> u32 option" where
  "find_loop m key idx = do {
     k \<leftarrow> key_at m idx;
     if k \<noteq> kEmptyKey then (if k = key then value_at m idx
       else find_loop m key ((idx + 1) AND fm_mask m))
     else Some kEmpty
   }"

definition fm_find :: "flat_hash_map \<Rightarrow> u64 \<Rightarrow> u32 option" where
  "fm_find m key = do {
     tc_assert (key \<noteq> kEmptyKey);
     find_loop m key (fm_hash key AND fm_mask m)
   }"

partial_function (option) rehash_loop :: "flat_hash_map \<Rightarrow> u64 \<Rightarrow> flat_hash_map option" where
  "rehash_loop m idx = do {
     k \<leftarrow> key_at m idx;
     if k \<noteq> kEmptyKey then do {
       displaced_value \<leftarrow> value_at m idx;
       let m = set_slot m idx kEmptyKey kEmpty;
       let m = m\<lparr>fm_size := fm_size m - 1\<rparr>;
       (_, m) \<leftarrow> fm_insert k displaced_value m;
       rehash_loop m ((idx + 1) AND fm_mask m)
     } else Some m
   }"

definition rehash_from :: "u64 \<Rightarrow> flat_hash_map \<Rightarrow> flat_hash_map option" where
  "rehash_from erased_idx m = rehash_loop m ((erased_idx + 1) AND fm_mask m)"

partial_function (option) erase_loop :: "flat_hash_map \<Rightarrow> u64 \<Rightarrow> u64 \<Rightarrow>
    (bool \<times> flat_hash_map) option" where
  "erase_loop m key idx = do {
     k \<leftarrow> key_at m idx;
     if k \<noteq> kEmptyKey then (if k = key then do {
         let m = set_slot m idx kEmptyKey kEmpty;
         let m = m\<lparr>fm_size := fm_size m - 1\<rparr>;
         m \<leftarrow> rehash_from idx m;
         Some (True, m)
       } else erase_loop m key ((idx + 1) AND fm_mask m))
     else Some (False, m)
   }"

definition fm_erase :: "u64 \<Rightarrow> flat_hash_map \<Rightarrow> (bool \<times> flat_hash_map) option" where
  "fm_erase key m = do {
     tc_assert (key \<noteq> kEmptyKey);
     erase_loop m key (fm_hash key AND fm_mask m)
   }"

definition fm_contains :: "flat_hash_map \<Rightarrow> u64 \<Rightarrow> bool option" where
  "fm_contains m key = do { v \<leftarrow> fm_find m key; Some (v \<noteq> kEmpty) }"

definition fm_empty :: "flat_hash_map \<Rightarrow> bool" where
  "fm_empty m = (fm_size m = 0)"

definition fm_clear :: "flat_hash_map \<Rightarrow> flat_hash_map" where
  "fm_clear m = m\<lparr>fm_keys := replicate (length (fm_keys m)) kEmptyKey,
     fm_values := replicate (length (fm_values m)) kEmpty, fm_size := 0\<rparr>"

section \<open>Rounding is monotone\<close>

lemma f32_bounds:
  assumes "0 < x" "24 \<le> floorlog 2 x"
  shows "2 ^ (floorlog 2 x - 1) \<le> f32_of_nat x" "f32_of_nat x \<le> 2 ^ floorlog 2 x"
proof -
  define e q where "e = floorlog 2 x - 24" and "q = x div 2 ^ e"
  have b: "2 ^ (floorlog 2 x - 1) \<le> x" "x < 2 ^ floorlog 2 x"
    using floorlog_bounds [OF assms(1), of 2] by simp_all
  have f: "floorlog 2 x = 24 + e" "floorlog 2 x - 1 = 23 + e" using assms(2) by (simp_all add: e_def)
  have "(2::nat) ^ (23 + e) div 2 ^ e \<le> q" unfolding q_def using b(1) f by (intro div_le_mono) simp
  then have "2 ^ 23 \<le> q" by (simp add: power_add)
  then have lo: "2 ^ 23 * 2 ^ e \<le> q * 2 ^ e" by simp
  have "q < 2 ^ 24" unfolding q_def using b(2) f by (simp add: div_less_iff_less_mult power_add)
  then have hi: "(q + 1) * 2 ^ e \<le> 2 ^ 24 * 2 ^ e" by (intro mult_right_mono) auto
  have r: "f32_of_nat x = (q + 1) * 2 ^ e \<or> f32_of_nat x = q * 2 ^ e"
    by (auto simp: f32_of_nat_def Let_def e_def q_def)
  then show "2 ^ (floorlog 2 x - 1) \<le> f32_of_nat x" using lo unfolding f(2) power_add by auto
  show "f32_of_nat x \<le> 2 ^ floorlog 2 x" using r hi unfolding f(1) power_add by auto
qed

lemma f32_small: "floorlog 2 x \<le> 24 \<Longrightarrow> f32_of_nat x = x"
  by (simp add: f32_of_nat_def)

lemma f32_mono:
  assumes "x \<le> y"
  shows "f32_of_nat x \<le> f32_of_nat y"
proof (cases "floorlog 2 y \<le> 24")
  case True
  moreover have "floorlog 2 x \<le> floorlog 2 y" using assms floorlog_mono [of x y 2] by simp
  ultimately show ?thesis using assms by (simp add: f32_small)
next
  case big: False
  have le: "floorlog 2 x \<le> floorlog 2 y" using assms floorlog_mono [of x y 2] by simp
  show ?thesis
  proof (cases "floorlog 2 x = floorlog 2 y")
    case True
    define e where "e = floorlog 2 y - 24"
    let ?q = "\<lambda>x. x div 2 ^ e" and ?r = "\<lambda>x. x mod 2 ^ e :: nat"
    let ?up = "\<lambda>x. 2 * ?r x > 2 ^ e \<or> (2 * ?r x = 2 ^ e \<and> odd (?q x))"
    have f: "f32_of_nat z = (if ?up z then ?q z + 1 else ?q z) * 2 ^ e" if "z = x \<or> z = y" for z
      using that True by (auto simp: f32_of_nat_def Let_def e_def)
    have "?q x \<le> ?q y" using assms by (rule div_le_mono)
    moreover have "?q x = ?q y \<Longrightarrow> ?r x \<le> ?r y"
      using assms by (metis add_le_cancel_left mult_div_mod_eq)
    ultimately have "(if ?up x then ?q x + 1 else ?q x) \<le> (if ?up y then ?q y + 1 else ?q y)"
      by (cases "?q x = ?q y") auto
    then show ?thesis using f [of x] f [of y] by simp
  next
    case False
    have "f32_of_nat x \<le> 2 ^ floorlog 2 x"
    proof (cases "24 \<le> floorlog 2 x \<and> 0 < x")
      case True
      then show ?thesis by (simp add: f32_bounds(2))
    next
      case False
      then show ?thesis using floorlog_bounds [of x 2]
        by (cases "x = 0") (auto simp: f32_small f32_of_nat_def [of 0])
    qed
    also have "\<dots> \<le> 2 ^ (floorlog 2 y - 1)" using le False by (intro power_increasing) auto
    also have "\<dots> \<le> f32_of_nat y"
      using big f32_bounds(1) [of y] by (cases "y = 0") (auto simp: floorlog_def)
    finally show ?thesis .
  qed
qed

lemma floorlog_power2: "floorlog 2 (2 ^ w :: nat) = Suc w"
  by (simp add: floorlog_power [of 1 2 w] floorlog_def)

lemma f32_power2: "f32_of_nat (2 ^ w) = 2 ^ w"
proof (cases "23 \<le> w")
  case True
  then obtain v where w: "w = 23 + v" using le_Suc_ex by blast
  have "floorlog 2 (2 ^ w) - 24 = v" by (simp add: floorlog_power2 w)
  moreover have "(2::nat) ^ w = 2 ^ 23 * 2 ^ v" by (simp add: w power_add)
  ultimately show ?thesis by (simp add: f32_of_nat_def Let_def)
qed (simp add: f32_of_nat_def Let_def floorlog_power2)

section \<open>Well-formed tables\<close>

text \<open>
  \<open>fm_sized\<close>: the capacity is a power of two and both vectors have that length.
  \<open>steps_over ks h i d\<close>: slot \<open>i\<close> is reached from slot \<open>h\<close> in \<open>d\<close> probes over occupied slots.
\<close>

definition fm_sized :: "flat_hash_map \<Rightarrow> bool" where
  "fm_sized m \<longleftrightarrow> (\<exists>w < 64. length (fm_keys m) = 2 ^ w \<and> length (fm_values m) = 2 ^ w \<and>
     fm_capacity m = 2 ^ w \<and> fm_mask m = mask w)"

definition occupied :: "u64 list \<Rightarrow> nat set" where
  "occupied ks = {i. i < length ks \<and> ks ! i \<noteq> kEmptyKey}"

definition keys_distinct :: "u64 list \<Rightarrow> bool" where
  "keys_distinct ks \<longleftrightarrow> (\<forall>i \<in> occupied ks. \<forall>j \<in> occupied ks. ks ! i = ks ! j \<longrightarrow> i = j)"

definition home :: "u64 list \<Rightarrow> u64 \<Rightarrow> nat" where
  "home ks k = unat (fm_hash k) mod length ks"

definition steps_over :: "u64 list \<Rightarrow> nat \<Rightarrow> nat \<Rightarrow> nat \<Rightarrow> bool" where
  "steps_over ks h i d \<longleftrightarrow> d < length ks \<and> (h + d) mod length ks = i \<and>
     (\<forall>e < d. ks ! ((h + e) mod length ks) \<noteq> kEmptyKey)"

definition fm_base :: "flat_hash_map \<Rightarrow> bool" where
  "fm_base m \<longleftrightarrow> fm_sized m \<and> keys_distinct (fm_keys m) \<and>
     unat (fm_size m) = card (occupied (fm_keys m)) \<and>
     (fm_size m = 0 \<or> \<not> load_factor_reached (fm_size m) (fm_capacity m))"

definition fm_wf :: "flat_hash_map \<Rightarrow> bool" where
  "fm_wf m \<longleftrightarrow> fm_base m \<and>
     (\<forall>i \<in> occupied (fm_keys m). \<exists>d. steps_over (fm_keys m) (home (fm_keys m) (fm_keys m ! i)) i d)"

definition fm_map :: "flat_hash_map \<Rightarrow> u64 \<Rightarrow> u32 option" where
  "fm_map m k = (if k = kEmptyKey then None else map_of (zip (fm_keys m) (fm_values m)) k)"

definition fm_full :: "flat_hash_map \<Rightarrow> bool" where
  "fm_full m = load_factor_reached (fm_size m + 1) (fm_capacity m)"

lemma fm_sized_pos: "fm_sized m \<Longrightarrow> 0 < length (fm_keys m)"
  by (auto simp: fm_sized_def)

lemma fm_sized_values: "fm_sized m \<Longrightarrow> length (fm_values m) = length (fm_keys m)"
  by (auto simp: fm_sized_def)

lemma fm_sized_less:
  assumes "fm_sized m"
  shows "length (fm_keys m) < 2 ^ 64"
proof -
  obtain w where "w < 64" "length (fm_keys m) = 2 ^ w" using assms by (auto simp: fm_sized_def)
  moreover from this have "(2::nat) ^ w < 2 ^ 64" by (intro power_strict_increasing) auto
  ultimately show ?thesis by simp
qed

lemma unat_mask:
  assumes "fm_sized m"
  shows "unat (x AND fm_mask m) = unat x mod length (fm_keys m)"
proof -
  obtain w where w: "length (fm_keys m) = 2 ^ w" "fm_mask m = mask w"
    using assms by (auto simp: fm_sized_def)
  have "unat (take_bit w x) = take_bit w (unat x)" by (rule unsigned_take_bit_eq)
  then show ?thesis unfolding w by (simp add: take_bit_eq_mask [symmetric] take_bit_eq_mod)
qed

lemma unat_home: "fm_sized m \<Longrightarrow> unat (fm_hash k AND fm_mask m) = home (fm_keys m) k"
  by (simp add: unat_mask home_def)

lemma unat_next:
  assumes "fm_sized m"
  shows "unat ((x + 1) AND fm_mask m) = (unat x + 1) mod length (fm_keys m)"
proof -
  obtain w where w: "w < 64" "length (fm_keys m) = 2 ^ w" using assms by (auto simp: fm_sized_def)
  have "(2::nat) ^ w dvd 2 ^ 64" using w(1) by (intro le_imp_power_dvd) simp
  moreover have "unat (x + 1) = (unat x + 1) mod 2 ^ 64" by (simp add: unat_word_ariths)
  ultimately show ?thesis unfolding unat_mask [OF assms] w(2) by (simp add: mod_mod_cancel)
qed

lemma occupied_finite [simp]: "finite (occupied ks)"
  by (simp add: occupied_def)

text \<open>Below the load limit there is a free slot, also after one more insertion.\<close>

lemma load_limit:
  assumes "fm_sized m" "\<not> load_factor_reached c (fm_capacity m)"
  shows "unat c < length (fm_keys m)"
proof (rule ccontr)
  assume big: "\<not> ?thesis"
  obtain w where w: "w < 64" "length (fm_keys m) = 2 ^ w" "fm_capacity m = 2 ^ w"
    using assms by (auto simp: fm_sized_def)
  have "(2::nat) ^ w < 2 ^ 64" using w(1) by (intro power_strict_increasing) auto
  from unat_of_nat_u64 [OF this] have "unat (2 ^ w :: u64) = 2 ^ w" by simp
  moreover have "f32_of_nat (2 ^ w) \<le> f32_of_nat (unat c)"
    using big w(2) by (intro f32_mono) simp
  ultimately show False using assms(2) w(3) by (simp add: load_factor_reached_def f32_power2)
qed

lemma load_mono:
  "c \<le> c' \<Longrightarrow> \<not> load_factor_reached c' cap \<Longrightarrow> \<not> load_factor_reached c cap"
  using f32_mono [of "unat c" "unat c'"] by (simp add: load_factor_reached_def word_le_nat_alt)

section \<open>The probe loops\<close>

lemma key_at_eq: "unat idx < length (fm_keys m) \<Longrightarrow> key_at m idx = Some (fm_keys m ! unat idx)"
  by (simp add: key_at_def)

lemma value_at_eq: "unat idx < length (fm_values m) \<Longrightarrow> value_at m idx = Some (fm_values m ! unat idx)"
  by (simp add: value_at_def)

text \<open>A probe loop ends at the first slot, \<open>d\<close> steps on, that is free or holds the key.\<close>

definition probe_stop :: "u64 list \<Rightarrow> u64 \<Rightarrow> nat \<Rightarrow> nat \<Rightarrow> bool" where
  "probe_stop ks key h d \<longleftrightarrow> (ks ! ((h + d) mod length ks) = kEmptyKey \<or> ks ! ((h + d) mod length ks) = key) \<and>
     (\<forall>e < d. ks ! ((h + e) mod length ks) \<noteq> kEmptyKey \<and> ks ! ((h + e) mod length ks) \<noteq> key)"

lemma probe_stop_step:
  assumes "probe_stop ks key h (Suc d)"
  shows "ks ! (h mod length ks) \<noteq> kEmptyKey" "ks ! (h mod length ks) \<noteq> key"
    "probe_stop ks key ((h + 1) mod length ks) d"
proof -
  have *: "(Suc h mod length ks + e) mod length ks = Suc (h + e) mod length ks" for e
    by (simp add: mod_add_left_eq [of "Suc h"])
  show "ks ! (h mod length ks) \<noteq> kEmptyKey" "ks ! (h mod length ks) \<noteq> key"
    using assms by (auto simp: probe_stop_def dest: spec [of _ 0])
  show "probe_stop ks key ((h + 1) mod length ks) d"
    using assms by (fastforce simp: probe_stop_def *)
qed

lemma insert_probe_ok:
  "fm_sized m \<Longrightarrow> unat idx < length (fm_keys m) \<Longrightarrow> probe_stop (fm_keys m) key (unat idx) d \<Longrightarrow>
     \<exists>j. insert_probe m key idx = Some j \<and> unat j = (unat idx + d) mod length (fm_keys m)"
proof (induction d arbitrary: idx)
  case 0
  then show ?case by (auto simp: insert_probe.simps [of m key idx] key_at_eq probe_stop_def)
next
  case (Suc d)
  let ?n = "length (fm_keys m)" and ?i = "(idx + 1) AND fm_mask m"
  note st = probe_stop_step [OF Suc.prems(3)]
  have i: "unat ?i = (unat idx + 1) mod ?n" by (rule unat_next [OF Suc.prems(1)])
  have "insert_probe m key idx = insert_probe m key ?i"
    using st(1,2) Suc.prems(2) by (simp add: insert_probe.simps [of m key idx] key_at_eq)
  moreover obtain j where "insert_probe m key ?i = Some j" "unat j = (unat ?i + d) mod ?n"
    using Suc.IH [of ?i] Suc.prems(1) st(3) fm_sized_pos [OF Suc.prems(1)] by (auto simp: i)
  ultimately show ?case by (simp add: i mod_add_left_eq)
qed

text \<open>The loops of \<open>find\<close> and \<open>erase\<close> walk the same slots.\<close>

lemma find_loop_ok:
  "fm_sized m \<Longrightarrow> unat idx < length (fm_keys m) \<Longrightarrow> probe_stop (fm_keys m) key (unat idx) d \<Longrightarrow>
     j = (unat idx + d) mod length (fm_keys m) \<Longrightarrow>
     find_loop m key idx = Some (if fm_keys m ! j = kEmptyKey then kEmpty else fm_values m ! j)"
proof (induction d arbitrary: idx j)
  case 0
  then show ?case
    by (auto simp: find_loop.simps [of m key idx] key_at_eq value_at_eq probe_stop_def fm_sized_values)
next
  case (Suc d)
  let ?i = "(idx + 1) AND fm_mask m"
  note st = probe_stop_step [OF Suc.prems(3)]
  have i: "unat ?i = (unat idx + 1) mod length (fm_keys m)" by (rule unat_next [OF Suc.prems(1)])
  have "find_loop m key idx = find_loop m key ?i"
    using st(1,2) Suc.prems(2) by (simp add: find_loop.simps [of m key idx] key_at_eq)
  then show ?case
    using Suc.IH [of ?i j] Suc.prems(1,4) st(3) fm_sized_pos [OF Suc.prems(1)]
    by (simp add: i mod_add_left_eq)
qed

lemma erase_loop_ok:
  "fm_sized m \<Longrightarrow> unat idx < length (fm_keys m) \<Longrightarrow> probe_stop (fm_keys m) key (unat idx) d \<Longrightarrow>
     unat j = (unat idx + d) mod length (fm_keys m) \<Longrightarrow>
     erase_loop m key idx = (if fm_keys m ! unat j = kEmptyKey then Some (False, m)
       else map_option (Pair True)
         (rehash_from j ((set_slot m j kEmptyKey kEmpty)\<lparr>fm_size := fm_size m - 1\<rparr>)))"
proof (induction d arbitrary: idx)
  case 0
  then have "j = idx" by (simp add: unat_inj_iff)
  with 0 show ?case
    by (auto simp: erase_loop.simps [of m key idx] key_at_eq probe_stop_def Let_def set_slot_def
        map_conv_bind_option comp_def)
next
  case (Suc d)
  let ?i = "(idx + 1) AND fm_mask m"
  note st = probe_stop_step [OF Suc.prems(3)]
  have i: "unat ?i = (unat idx + 1) mod length (fm_keys m)" by (rule unat_next [OF Suc.prems(1)])
  have "erase_loop m key idx = erase_loop m key ?i"
    using st(1,2) Suc.prems(2) by (simp add: erase_loop.simps [of m key idx] key_at_eq)
  then show ?case
    using Suc.IH [of ?i] Suc.prems(1,4) st(3) fm_sized_pos [OF Suc.prems(1)]
    by (simp add: i mod_add_left_eq)
qed

section \<open>Where a probe ends\<close>

lemma reach_slot:
  assumes "s < n"
  shows "\<exists>d < n. (h + d) mod n = (s::nat)"
proof -
  define g where "g = h mod n"
  have g: "g < n" using assms by (simp add: g_def)
  define d where "d = (if g \<le> s then s - g else n - g + s)"
  have "d < n" using g assms by (auto simp: d_def)
  moreover have "(g + d) mod n = s" using g assms by (auto simp: d_def)
  ultimately show ?thesis by (auto simp: g_def mod_add_left_eq)
qed

lemma first_nat: "P (d0 :: nat) \<Longrightarrow> \<exists>l \<le> d0. P l \<and> (\<forall>e < l. \<not> P e)"
  by (induction d0 rule: less_induct) (meson le_less_trans less_or_eq_imp_le not_less)

lemma probe_stop_ex:
  assumes "s < length ks" "ks ! s = kEmptyKey"
  shows "\<exists>d < length ks. probe_stop ks key h d"
proof -
  define P where "P d \<longleftrightarrow> ks ! ((h + d) mod length ks) = kEmptyKey \<or> ks ! ((h + d) mod length ks) = key" for d
  obtain d0 where d0: "d0 < length ks" "(h + d0) mod length ks = s"
    using reach_slot [OF assms(1), of h] by blast
  have "P d0" unfolding P_def d0(2) using assms(2) by simp
  from first_nat [of P, OF this] obtain l where l: "l \<le> d0" "P l" "\<forall>e < l. \<not> P e" by blast
  have "probe_stop ks key h l" using l(2,3) by (simp add: probe_stop_def P_def)
  then show ?thesis using l(1) d0(1) le_less_trans by blast
qed

lemma probe_stop_absent:
  assumes "probe_stop ks key h d" "d < length ks" "\<forall>i \<in> occupied ks. ks ! i \<noteq> key"
  shows "steps_over ks h ((h + d) mod length ks) d" "ks ! ((h + d) mod length ks) = kEmptyKey"
proof -
  have "0 < length ks" using assms(2) by linarith
  then have "(h + d) mod length ks < length ks" by (rule mod_less_divisor)
  then show "ks ! ((h + d) mod length ks) = kEmptyKey"
    using assms(1,3) by (auto simp: probe_stop_def occupied_def)
qed (use assms in \<open>simp add: steps_over_def probe_stop_def\<close>)

lemma probe_stop_present:
  assumes st: "probe_stop ks key h d" and i: "i \<in> occupied ks" "ks ! i = key"
    and d: "keys_distinct ks" and so: "steps_over ks h i d0"
  shows "(h + d) mod length ks = i"
proof (cases "d = d0")
  case False
  have "\<not> d0 < d" using st so i by (auto simp: probe_stop_def steps_over_def)
  then have "ks ! ((h + d) mod length ks) \<noteq> kEmptyKey" using False so by (auto simp: steps_over_def)
  moreover have "0 < length ks" using so by (auto simp: steps_over_def)
  then have "(h + d) mod length ks < length ks" by (rule mod_less_divisor)
  ultimately have "(h + d) mod length ks \<in> occupied ks" "ks ! ((h + d) mod length ks) = key"
    using st by (auto simp: probe_stop_def occupied_def)
  then show ?thesis using d i by (auto simp: keys_distinct_def)
qed (use so in \<open>simp add: steps_over_def\<close>)

section \<open>The map a table stands for\<close>

lemma fm_map_Some:
  assumes "fm_sized m" "keys_distinct (fm_keys m)"
  shows "fm_map m k = Some v \<longleftrightarrow> (\<exists>i \<in> occupied (fm_keys m). fm_keys m ! i = k \<and> fm_values m ! i = v)"
proof (cases "k = kEmptyKey")
  case False
  have inz: "(k, v) \<in> set (zip (fm_keys m) (fm_values m)) \<longleftrightarrow>
      (\<exists>i \<in> occupied (fm_keys m). fm_keys m ! i = k \<and> fm_values m ! i = v)" for v
    using False fm_sized_values [OF assms(1)] by (auto simp: set_zip occupied_def)
  have uniq: "(k, v) \<in> set (zip (fm_keys m) (fm_values m)) \<Longrightarrow>
      (k, v') \<in> set (zip (fm_keys m) (fm_values m)) \<Longrightarrow> v = v'" for v'
    using assms(2) unfolding inz by (auto simp: keys_distinct_def)
  have "map_of (zip (fm_keys m) (fm_values m)) k = Some v \<longleftrightarrow> (k, v) \<in> set (zip (fm_keys m) (fm_values m))"
  proof
    assume kv: "(k, v) \<in> set (zip (fm_keys m) (fm_values m))"
    then obtain v' where v': "map_of (zip (fm_keys m) (fm_values m)) k = Some v'"
      using weak_map_of_SomeI by fast
    then have "v' = v" using uniq [OF kv] map_of_SomeD by fast
    then show "map_of (zip (fm_keys m) (fm_values m)) k = Some v" using v' by simp
  qed (rule map_of_SomeD)
  then show ?thesis using False inz by (simp add: fm_map_def)
qed (auto simp: fm_map_def occupied_def)

lemma fm_map_None:
  assumes "fm_sized m" "keys_distinct (fm_keys m)"
  shows "fm_map m k = None \<longleftrightarrow> (\<forall>i \<in> occupied (fm_keys m). fm_keys m ! i \<noteq> k)"
proof -
  have "fm_map m k = None \<longleftrightarrow> (\<forall>v. fm_map m k \<noteq> Some v)" by simp
  then show ?thesis unfolding fm_map_Some [OF assms] by blast
qed

lemma occupied_fill: "j < length ks \<Longrightarrow> k \<noteq> kEmptyKey \<Longrightarrow> occupied (ks[j := k]) = insert j (occupied ks)"
  by (auto simp: occupied_def nth_list_update)

lemma occupied_clear: "j < length ks \<Longrightarrow> occupied (ks[j := kEmptyKey]) = occupied ks - {j}"
  by (auto simp: occupied_def nth_list_update split: if_splits)

lemma set_slot_simps [simp]:
  "fm_keys (set_slot m j k v) = (fm_keys m)[unat j := k]"
  "fm_values (set_slot m j k v) = (fm_values m)[unat j := v]"
  "fm_capacity (set_slot m j k v) = fm_capacity m"
  "fm_mask (set_slot m j k v) = fm_mask m"
  "fm_size (set_slot m j k v) = fm_size m"
  by (simp_all add: set_slot_def)

lemma fm_sized_slot [simp]:
  "fm_sized (set_slot m j k v) = fm_sized m" "fm_sized (m\<lparr>fm_size := s\<rparr>) = fm_sized m"
  by (simp_all add: fm_sized_def)

text \<open>Filling a free slot with a new key, and clearing an occupied slot.\<close>

lemma fill_slot:
  assumes b: "fm_sized m" "keys_distinct (fm_keys m)" "unat (fm_size m) = card (occupied (fm_keys m))"
    and r: "\<not> fm_full m" and j: "unat j < length (fm_keys m)" "fm_keys m ! unat j = kEmptyKey"
    and k: "key \<noteq> kEmptyKey" "\<forall>i \<in> occupied (fm_keys m). fm_keys m ! i \<noteq> key"
  shows "fm_base ((set_slot m j key v)\<lparr>fm_size := fm_size m + 1\<rparr>)"
    and "fm_map ((set_slot m j key v)\<lparr>fm_size := fm_size m + 1\<rparr>) = (fm_map m)(key \<mapsto> v)"
proof -
  let ?m = "(set_slot m j key v)\<lparr>fm_size := fm_size m + 1\<rparr>"
  have oc: "occupied (fm_keys ?m) = insert (unat j) (occupied (fm_keys m))"
    using j k(1) by (simp add: occupied_fill)
  have jn: "unat j \<notin> occupied (fm_keys m)" using j by (simp add: occupied_def)
  have di: "keys_distinct (fm_keys ?m)"
    unfolding keys_distinct_def oc using b(2) k(2) j(1) jn
    by (auto simp: keys_distinct_def nth_list_update)
  have "card (occupied (fm_keys m)) \<le> card {..< length (fm_keys m)}"
    by (rule card_mono) (auto simp: occupied_def)
  then have le: "unat (fm_size m) \<le> length (fm_keys m)" unfolding b(3) by simp
  have "unat (fm_size m) < 2 ^ 64 - 1"
  proof -
    obtain w where w: "w < 64" "length (fm_keys m) = 2 ^ w" using b(1) by (auto simp: fm_sized_def)
    then have "(2::nat) ^ w \<le> 2 ^ 63" by (intro power_increasing) auto
    then have "unat (fm_size m) \<le> 2 ^ 63" using le w(2) by (metis le_trans)
    also have "(2::nat) ^ 63 < 2 ^ 64 - 1" by simp
    finally show ?thesis .
  qed
  then have "unat (fm_size m + 1) = Suc (unat (fm_size m))" by (rule unat_plus_one_u64)
  then have "unat (fm_size ?m) = card (occupied (fm_keys ?m))"
    unfolding oc using b(3) jn by simp
  then show "fm_base ?m" using b(1) di r by (simp add: fm_base_def fm_full_def)
  show "fm_map ?m = (fm_map m)(key \<mapsto> v)"
  proof (rule ext, rule option_eqI)
    fix k' v'
    have nth: "fm_keys ?m ! i = fm_keys m ! i" "fm_values ?m ! i = fm_values m ! i"
      if "i \<in> occupied (fm_keys m)" for i
      using that jn by (cases "i = unat j"; simp)+
    have "fm_keys ?m ! unat j = key" "fm_values ?m ! unat j = v"
      using j(1) fm_sized_values [OF b(1)] by simp_all
    then have "fm_map ?m k' = Some v' \<longleftrightarrow> (key = k' \<and> v = v') \<or>
        (\<exists>i \<in> occupied (fm_keys m). fm_keys m ! i = k' \<and> fm_values m ! i = v')"
      using fm_map_Some [of ?m k' v'] di b(1) nth unfolding oc by simp
    then show "fm_map ?m k' = Some v' \<longleftrightarrow> ((fm_map m)(key \<mapsto> v)) k' = Some v'"
      using fm_map_Some [OF b(1,2), of k' v'] k(2) by auto
  qed
qed

lemma clear_slot:
  assumes b: "fm_base m" and j: "unat j \<in> occupied (fm_keys m)"
  defines "m' \<equiv> (set_slot m j kEmptyKey kEmpty)\<lparr>fm_size := fm_size m - 1\<rparr>"
  shows "fm_base m'" "fm_map m' = (fm_map m)(fm_keys m ! unat j := None)"
    "fm_size m \<noteq> 0" "unat (fm_size m') = unat (fm_size m) - 1"
proof -
  have jl: "unat j < length (fm_keys m)" using j by (simp add: occupied_def)
  have sz: "fm_sized m" "keys_distinct (fm_keys m)" "unat (fm_size m) = card (occupied (fm_keys m))"
    using b by (auto simp: fm_base_def)
  have oc: "occupied (fm_keys m') = occupied (fm_keys m) - {unat j}"
    unfolding m'_def using jl by (simp add: occupied_clear)
  have nth: "fm_keys m' ! i = fm_keys m ! i" "fm_values m' ! i = fm_values m ! i" if "i \<noteq> unat j" for i
    using that by (simp_all add: m'_def)
  have pos: "0 < unat (fm_size m)" using sz(3) j by (auto simp: card_gt_0_iff)
  then show "fm_size m \<noteq> 0" by auto
  show us: "unat (fm_size m') = unat (fm_size m) - 1"
    unfolding m'_def using unat_minus_one_pos [OF pos] by simp
  have di: "keys_distinct (fm_keys m')"
    using sz(2) oc nth by (auto simp: keys_distinct_def)
  have "fm_size m' \<le> fm_size m" by (simp add: word_le_nat_alt us)
  moreover have "\<not> load_factor_reached (fm_size m) (fm_capacity m)"
    using b \<open>fm_size m \<noteq> 0\<close> by (auto simp: fm_base_def)
  ultimately have "\<not> load_factor_reached (fm_size m') (fm_capacity m)" using load_mono by blast
  moreover have "unat (fm_size m') = card (occupied (fm_keys m'))" unfolding oc us sz(3) using j by simp
  moreover have "fm_capacity m' = fm_capacity m" "fm_sized m'" using sz(1) by (simp_all add: m'_def)
  ultimately show "fm_base m'" using di by (simp add: fm_base_def)
  have uniq: "i = unat j" if "i \<in> occupied (fm_keys m)" "fm_keys m ! i = fm_keys m ! unat j" for i
    using sz(2) j that by (simp add: keys_distinct_def)
  show "fm_map m' = (fm_map m)(fm_keys m ! unat j := None)"
  proof (rule ext, rule option_eqI)
    fix k' v'
    have "fm_map m' k' = Some v' \<longleftrightarrow> (\<exists>i \<in> occupied (fm_keys m) - {unat j}. fm_keys m ! i = k' \<and> fm_values m ! i = v')"
      using fm_map_Some [of m' k' v'] di \<open>fm_sized m'\<close> nth unfolding oc by auto
    then show "fm_map m' k' = Some v' \<longleftrightarrow> ((fm_map m)(fm_keys m ! unat j := None)) k' = Some v'"
      using fm_map_Some [OF sz(1,2), of k' v'] uniq j by auto
  qed
qed

section \<open>Lookup and insertion\<close>

lemma fm_wf_base: "fm_wf m \<Longrightarrow> fm_base m"
  by (simp add: fm_wf_def)

lemma fm_base_sized: "fm_base m \<Longrightarrow> fm_sized m" and fm_base_distinct: "fm_base m \<Longrightarrow> keys_distinct (fm_keys m)"
  and fm_base_size: "fm_base m \<Longrightarrow> unat (fm_size m) = card (occupied (fm_keys m))"
  by (simp_all add: fm_base_def)

lemma fm_base_room:
  assumes "fm_base m"
  shows "\<exists>e < length (fm_keys m). fm_keys m ! e = kEmptyKey"
proof (rule ccontr)
  let ?n = "length (fm_keys m)"
  assume "\<not> ?thesis"
  then have "occupied (fm_keys m) = {..< ?n}" by (auto simp: occupied_def)
  then have full: "unat (fm_size m) = ?n" using fm_base_size [OF assms] by simp
  then have "fm_size m \<noteq> 0" using fm_sized_pos [OF fm_base_sized [OF assms]] by auto
  then have "\<not> load_factor_reached (fm_size m) (fm_capacity m)" using assms by (simp add: fm_base_def)
  from load_limit [OF fm_base_sized [OF assms] this] full show False by simp
qed

lemma home_less: "fm_sized m \<Longrightarrow> home (fm_keys m) k < length (fm_keys m)"
  unfolding home_def by (rule mod_less_divisor [OF fm_sized_pos])

text \<open>The slot at which a probe for a key ends, in a well-formed table.\<close>

lemma wf_probe:
  assumes "fm_wf m"
  obtains d where "d < length (fm_keys m)" "probe_stop (fm_keys m) key (home (fm_keys m) key) d"
    "\<And>j. j = (home (fm_keys m) key + d) mod length (fm_keys m) \<Longrightarrow>
       (if fm_map m key = None \<and> key \<noteq> kEmptyKey
        then fm_keys m ! j = kEmptyKey \<and> steps_over (fm_keys m) (home (fm_keys m) key) j d
        else key \<noteq> kEmptyKey \<longrightarrow> j \<in> occupied (fm_keys m) \<and> fm_keys m ! j = key \<and>
          fm_map m key = Some (fm_values m ! j))"
proof -
  let ?ks = "fm_keys m" and ?h = "home (fm_keys m) key"
  have b: "fm_base m" using assms by (rule fm_wf_base)
  note sz = fm_base_sized [OF b] and di = fm_base_distinct [OF b]
  obtain d where d: "d < length ?ks" "probe_stop ?ks key ?h d"
    using fm_base_room [OF b] probe_stop_ex by blast
  have "if fm_map m key = None \<and> key \<noteq> kEmptyKey
        then ?ks ! j = kEmptyKey \<and> steps_over ?ks ?h j d
        else key \<noteq> kEmptyKey \<longrightarrow> j \<in> occupied ?ks \<and> ?ks ! j = key \<and> fm_map m key = Some (fm_values m ! j)"
    if j: "j = (?h + d) mod length ?ks" for j
  proof (cases "fm_map m key")
    case None
    then have "\<forall>i \<in> occupied ?ks. ?ks ! i \<noteq> key" using fm_map_None [OF sz di] by blast
    from probe_stop_absent [OF d(2,1) this] show ?thesis using None j by simp
  next
    case (Some v)
    then obtain i where i: "i \<in> occupied ?ks" "?ks ! i = key" "fm_values m ! i = v"
      using fm_map_Some [OF sz di] by blast
    obtain d0 where "steps_over ?ks (home ?ks (?ks ! i)) i d0" using assms i(1) by (auto simp: fm_wf_def)
    then have "steps_over ?ks ?h i d0" by (simp add: i(2))
    from probe_stop_present [OF d(2) i(1,2) di this] i j Some show ?thesis by simp
  qed
  with d that show ?thesis by blast
qed

lemma fm_find_ok:
  assumes "fm_wf m" "k \<noteq> kEmptyKey"
  shows "fm_find m k = Some (or_invalid (fm_map m k))"
proof -
  let ?ks = "fm_keys m" and ?h = "home (fm_keys m) k"
  have sz: "fm_sized m" using assms fm_wf_base fm_base_sized by blast
  obtain d where d: "probe_stop ?ks k ?h d" and
    j: "\<And>j. j = (?h + d) mod length ?ks \<Longrightarrow>
       (if fm_map m k = None \<and> k \<noteq> kEmptyKey then ?ks ! j = kEmptyKey \<and> steps_over ?ks ?h j d
        else k \<noteq> kEmptyKey \<longrightarrow> j \<in> occupied ?ks \<and> ?ks ! j = k \<and> fm_map m k = Some (fm_values m ! j))"
    using wf_probe [OF assms(1), of k] by blast
  have "find_loop m k (fm_hash k AND fm_mask m) =
      Some (if ?ks ! ((?h + d) mod length ?ks) = kEmptyKey then kEmpty else fm_values m ! ((?h + d) mod length ?ks))"
    by (rule find_loop_ok [OF sz]) (simp_all add: unat_home sz home_less d)
  then show ?thesis
    using j [OF refl] assms(2) by (cases "fm_map m k") (simp_all add: fm_find_def kEmpty_def)
qed

lemma steps_over_fill:
  assumes "steps_over ks h i d" "k \<noteq> kEmptyKey"
  shows "steps_over (ks[j := k]) h i d"
proof -
  have "ks[j := k] ! x \<noteq> kEmptyKey" if "x < length ks" "ks ! x \<noteq> kEmptyKey" for x
    using that assms(2) by (cases "x = j") simp_all
  moreover have "0 < length ks" using assms(1) by (auto simp: steps_over_def)
  then have "(h + e) mod length ks < length ks" for e by (rule mod_less_divisor)
  ultimately show ?thesis using assms(1) by (simp add: steps_over_def)
qed

lemma home_update [simp]: "home (ks[j := x]) k = home ks k"
  by (simp add: home_def)

text \<open>Inserting an absent key below the load limit, in a table that need not be well-formed.\<close>

lemma insert_absent:
  assumes b: "fm_sized m" "e < length (fm_keys m)" "fm_keys m ! e = kEmptyKey"
    and k: "key \<noteq> kEmptyKey" "\<forall>i \<in> occupied (fm_keys m). fm_keys m ! i \<noteq> key" and r: "\<not> fm_full m"
  obtains j d where
    "fm_insert key v m = Some (True, (set_slot m j key v)\<lparr>fm_size := fm_size m + 1\<rparr>)"
    "unat j < length (fm_keys m)" "fm_keys m ! unat j = kEmptyKey"
    "steps_over (fm_keys m) (home (fm_keys m) key) (unat j) d"
proof -
  let ?ks = "fm_keys m" and ?h = "home (fm_keys m) key"
  obtain d where d: "d < length ?ks" "probe_stop ?ks key ?h d"
    using probe_stop_ex [OF b(2,3)] by blast
  note st = probe_stop_absent [OF d(2,1) k(2)]
  obtain j where j: "insert_probe m key (fm_hash key AND fm_mask m) = Some j"
    "unat j = (?h + d) mod length ?ks"
    using insert_probe_ok [OF b(1), of "fm_hash key AND fm_mask m" key d] d(2)
    by (auto simp: unat_home b(1) home_less)
  have jl: "unat j < length ?ks" unfolding j(2) by (rule mod_less_divisor [OF fm_sized_pos [OF b(1)]])
  have "set_slot (m\<lparr>fm_size := fm_size m + 1\<rparr>) j key v = (set_slot m j key v)\<lparr>fm_size := fm_size m + 1\<rparr>"
    by (simp add: set_slot_def)
  then have "fm_insert key v m = Some (True, (set_slot m j key v)\<lparr>fm_size := fm_size m + 1\<rparr>)"
    using r k(1) st(2) jl j
    by (simp add: fm_insert_def fm_full_def key_at_eq Let_def)
  then show ?thesis using that jl st j(2) by simp
qed

lemma fm_wf_fill:
  assumes "fm_wf m" "key \<noteq> kEmptyKey" "steps_over (fm_keys m) (home (fm_keys m) key) j d"
    "j < length (fm_keys m)" "fm_keys m ! j = kEmptyKey"
  shows "\<forall>i \<in> occupied ((fm_keys m)[j := key]).
    \<exists>d. steps_over ((fm_keys m)[j := key]) (home (fm_keys m) (((fm_keys m)[j := key]) ! i)) i d"
proof
  fix i assume "i \<in> occupied ((fm_keys m)[j := key])"
  then have i: "i = j \<or> (i \<noteq> j \<and> i \<in> occupied (fm_keys m))"
    using assms(2,4) by (auto simp: occupied_fill)
  have "\<exists>d. steps_over (fm_keys m) (home (fm_keys m) (((fm_keys m)[j := key]) ! i)) i d"
    using i assms by (auto simp: fm_wf_def)
  then show "\<exists>d. steps_over ((fm_keys m)[j := key]) (home (fm_keys m) (((fm_keys m)[j := key]) ! i)) i d"
    using steps_over_fill [OF _ assms(2)] by blast
qed

lemma fm_insert_new:
  assumes "fm_wf m" "k \<noteq> kEmptyKey" "fm_map m k = None" "\<not> fm_full m"
  shows "\<exists>m'. fm_insert k v m = Some (True, m') \<and> fm_wf m' \<and> fm_map m' = (fm_map m)(k \<mapsto> v) \<and>
    fm_capacity m' = fm_capacity m"
proof -
  have b: "fm_base m" using assms(1) by (rule fm_wf_base)
  note sz = fm_base_sized [OF b] and di = fm_base_distinct [OF b]
  have ab: "\<forall>i \<in> occupied (fm_keys m). fm_keys m ! i \<noteq> k"
    using assms(3) fm_map_None [OF sz di] by blast
  obtain e where e: "e < length (fm_keys m)" "fm_keys m ! e = kEmptyKey"
    using fm_base_room [OF b] by blast
  obtain j d where j: "fm_insert k v m = Some (True, (set_slot m j k v)\<lparr>fm_size := fm_size m + 1\<rparr>)"
    "unat j < length (fm_keys m)" "fm_keys m ! unat j = kEmptyKey"
    "steps_over (fm_keys m) (home (fm_keys m) k) (unat j) d"
    by (rule insert_absent [OF sz e assms(2) ab assms(4)])
  note f = fill_slot [OF sz di fm_base_size [OF b] assms(4) j(2,3) assms(2) ab, of v]
  have "fm_wf ((set_slot m j k v)\<lparr>fm_size := fm_size m + 1\<rparr>)"
    using f(1) fm_wf_fill [OF assms(1,2) j(4,2,3)] by (simp add: fm_wf_def)
  with f(2) j(1) show ?thesis by auto
qed

lemma load_step:
  assumes "fm_base m" "fm_size m \<noteq> 0"
  shows "\<not> load_factor_reached (fm_size m) (fm_capacity m)"
  using assms by (auto simp: fm_base_def)

lemma fm_insert_present:
  assumes "fm_wf m" "k \<noteq> kEmptyKey" "fm_map m k = Some w" "\<not> fm_full m"
  shows "\<exists>m'. fm_insert k v m = Some (True, m') \<and> fm_wf m' \<and> fm_map m' = (fm_map m)(k \<mapsto> v) \<and>
    fm_capacity m' = fm_capacity m"
proof -
  let ?ks = "fm_keys m" and ?h = "home (fm_keys m) k"
  have b: "fm_base m" using assms(1) by (rule fm_wf_base)
  note sz = fm_base_sized [OF b] and di = fm_base_distinct [OF b]
  obtain d where d: "d < length ?ks" "probe_stop ?ks k ?h d" and
    s: "\<And>j. j = (?h + d) mod length ?ks \<Longrightarrow>
       (if fm_map m k = None \<and> k \<noteq> kEmptyKey then ?ks ! j = kEmptyKey \<and> steps_over ?ks ?h j d
        else k \<noteq> kEmptyKey \<longrightarrow> j \<in> occupied ?ks \<and> ?ks ! j = k \<and> fm_map m k = Some (fm_values m ! j))"
    using wf_probe [OF assms(1), of k] by blast
  obtain j where j: "insert_probe m k (fm_hash k AND fm_mask m) = Some j"
    "unat j = (?h + d) mod length ?ks"
    using insert_probe_ok [OF sz, of "fm_hash k AND fm_mask m" k d] d(2)
    by (auto simp: unat_home sz home_less)
  have jo: "unat j \<in> occupied ?ks" "?ks ! unat j = k" using s [OF j(2)] assms(2,3) by simp_all
  then have jl: "unat j < length ?ks" by (simp add: occupied_def)
  let ?m = "set_slot m j k v"
  have ks: "fm_keys ?m = ?ks" using list_update_id [of ?ks "unat j"] jo(2) by simp
  have "fm_insert k v m = Some (True, ?m)"
    using assms(2,4) jl jo(2) j(1) by (simp add: fm_insert_def fm_full_def key_at_eq Let_def)
  moreover have wf: "fm_wf ?m" using assms(1) sz ks by (simp add: fm_wf_def fm_base_def)
  moreover have "fm_map ?m = (fm_map m)(k \<mapsto> v)"
  proof (rule ext, rule option_eqI)
    fix k' v'
    have "fm_map ?m k' = Some v' \<longleftrightarrow> (\<exists>i \<in> occupied ?ks. ?ks ! i = k' \<and> (fm_values m)[unat j := v] ! i = v')"
      using fm_map_Some [of ?m k' v'] sz di ks by simp
    moreover have "i = unat j \<longleftrightarrow> ?ks ! i = k" if "i \<in> occupied ?ks" for i
      using di jo that by (auto simp: keys_distinct_def)
    ultimately show "fm_map ?m k' = Some v' \<longleftrightarrow> ((fm_map m)(k \<mapsto> v)) k' = Some v'"
      using fm_map_Some [OF sz di, of k' v'] jo jl fm_sized_values [OF sz]
      by (auto simp: nth_list_update)
  qed
  ultimately show ?thesis by auto
qed

lemma fm_insert_ok:
  assumes "fm_wf m" "k \<noteq> kEmptyKey" "\<not> fm_full m"
  shows "\<exists>m'. fm_insert k v m = Some (True, m') \<and> fm_wf m' \<and> fm_map m' = (fm_map m)(k \<mapsto> v) \<and>
    fm_capacity m' = fm_capacity m"
  using fm_insert_new [OF assms(1,2) _ assms(3)] fm_insert_present [OF assms(1,2) _ assms(3)]
  by (cases "fm_map m k") auto

lemma fm_insert_full:
  "k \<noteq> kEmptyKey \<Longrightarrow> fm_full m \<Longrightarrow> fm_insert k v m = Some (False, m)"
  by (simp add: fm_insert_def fm_full_def)

section \<open>Erasure\<close>

text \<open>
  Erasing leaves a hole and re-inserts what follows it. Seen from a free slot \<open>e\<close>, the table is
  a line of positions: position \<open>p\<close> is slot \<open>lslot ks e p\<close>, and \<open>e\<close> itself is the last one. No
  entry's probe path crosses \<open>e\<close>, so every path is an interval of positions. While the cursor
  is at position \<open>t\<close>, a path may have holes before \<open>t\<close> if its entry is in the cluster from \<open>t\<close>.
\<close>

definition lslot :: "u64 list \<Rightarrow> nat \<Rightarrow> nat \<Rightarrow> nat" where
  "lslot ks e p = (e + 1 + p) mod length ks"

definition line_inv :: "u64 list \<Rightarrow> nat \<Rightarrow> nat \<Rightarrow> bool" where
  "line_inv ks e t \<longleftrightarrow> e < length ks \<and> ks ! e = kEmptyKey \<and>
     (\<forall>i < length ks. ks ! lslot ks e i \<noteq> kEmptyKey \<longrightarrow>
        (\<exists>g \<le> i. lslot ks e g = home ks (ks ! lslot ks e i) \<and>
           (\<forall>p. g \<le> p \<and> p < i \<longrightarrow> ks ! lslot ks e p \<noteq> kEmptyKey \<or>
              (p < t \<and> t \<le> i \<and> (\<forall>q. t \<le> q \<and> q \<le> i \<longrightarrow> ks ! lslot ks e q \<noteq> kEmptyKey)))))"

lemma line_invE:
  assumes "line_inv ks e t" "i < length ks" "ks ! lslot ks e i \<noteq> kEmptyKey"
  obtains g where "g \<le> i" "lslot ks e g = home ks (ks ! lslot ks e i)"
    "\<forall>p. g \<le> p \<and> p < i \<longrightarrow> ks ! lslot ks e p \<noteq> kEmptyKey \<or>
       (p < t \<and> t \<le> i \<and> (\<forall>q. t \<le> q \<and> q \<le> i \<longrightarrow> ks ! lslot ks e q \<noteq> kEmptyKey))"
proof -
  have "\<exists>g \<le> i. lslot ks e g = home ks (ks ! lslot ks e i) \<and>
      (\<forall>p. g \<le> p \<and> p < i \<longrightarrow> ks ! lslot ks e p \<noteq> kEmptyKey \<or>
        (p < t \<and> t \<le> i \<and> (\<forall>q. t \<le> q \<and> q \<le> i \<longrightarrow> ks ! lslot ks e q \<noteq> kEmptyKey)))"
    using assms by (simp add: line_inv_def)
  then obtain g where "g \<le> i \<and> lslot ks e g = home ks (ks ! lslot ks e i) \<and>
      (\<forall>p. g \<le> p \<and> p < i \<longrightarrow> ks ! lslot ks e p \<noteq> kEmptyKey \<or>
        (p < t \<and> t \<le> i \<and> (\<forall>q. t \<le> q \<and> q \<le> i \<longrightarrow> ks ! lslot ks e q \<noteq> kEmptyKey)))" ..
  then show ?thesis by (intro that [of g]) simp_all
qed

lemma lslot_less: "0 < length ks \<Longrightarrow> lslot ks e p < length ks"
  by (simp add: lslot_def)

lemma lslot_inj:
  assumes "p < length ks" "q < length ks" "lslot ks e p = lslot ks e q"
  shows "p = q"
proof -
  have *: "a = b" if "a \<le> b" "b < length ks" "lslot ks e a = lslot ks e b" for a b
  proof -
    have "length ks dvd (e + 1 + b) - (e + 1 + a)"
      using that mod_eq_dvd_iff_nat [of "e + 1 + a" "e + 1 + b" "length ks"] by (simp add: lslot_def)
    then show ?thesis using that by (auto dest: dvd_imp_le)
  qed
  show ?thesis using *[of p q] *[of q p] assms by (cases "p \<le> q") auto
qed

lemma lslot_surj:
  assumes "s < length ks"
  obtains p where "p < length ks" "lslot ks e p = s"
  using reach_slot [OF assms, of "e + 1"] that by (auto simp: lslot_def)

lemma lslot_last:
  assumes "e < length ks"
  shows "lslot ks e (length ks - 1) = e"
proof -
  have "e + 1 + (length ks - 1) = e + length ks" using assms by linarith
  then show ?thesis using assms by (simp add: lslot_def)
qed

lemma lslot_step: "(lslot ks e p + d) mod length ks = lslot ks e (p + d)"
  by (simp add: lslot_def mod_add_left_eq add.assoc)

lemma lslot_update [simp]: "lslot (ks[j := x]) e p = lslot ks e p"
  by (simp add: lslot_def)

text \<open>In a well-formed table, seen from any free slot, paths are intervals without holes.\<close>

lemma line_of_steps:
  assumes e: "e < length ks" "ks ! e = kEmptyKey" and i: "i < length ks"
    and s: "steps_over ks h (lslot ks e i) d" and h: "h < length ks"
  shows "\<exists>g \<le> i. lslot ks e g = h \<and> (\<forall>p. g \<le> p \<and> p < i \<longrightarrow> ks ! lslot ks e p \<noteq> kEmptyKey)"
proof -
  obtain g where g: "g < length ks" "lslot ks e g = h" by (rule lslot_surj [OF h])
  have over: "ks ! lslot ks e (g + x) \<noteq> kEmptyKey" if "x < d" for x
    using s that g(2) by (auto simp: steps_over_def lslot_step)
  have fit: "g + d < length ks"
  proof (rule ccontr)
    assume "\<not> ?thesis"
    then have "length ks - 1 - g < d" using g(1) by linarith
    from over [OF this] have "ks ! lslot ks e (length ks - 1) \<noteq> kEmptyKey" using g(1) by simp
    then show False using e lslot_last by simp
  qed
  have "lslot ks e (g + d) = lslot ks e i"
    using s g(2) lslot_step [of ks e g d] by (simp add: steps_over_def)
  from lslot_inj [OF fit i this] have gi: "g + d = i" .
  have "ks ! lslot ks e p \<noteq> kEmptyKey" if "g \<le> p" "p < i" for p
    using over [of "p - g"] that gi by simp
  then show ?thesis using gi g(2) by (intro exI [of _ g]) simp
qed

lemma steps_of_line:
  assumes "g \<le> i" "i < length ks" "lslot ks e g = h"
    "\<forall>p. g \<le> p \<and> p < i \<longrightarrow> ks ! lslot ks e p \<noteq> kEmptyKey"
  shows "steps_over ks h (lslot ks e i) (i - g)"
  unfolding steps_over_def
proof (intro conjI allI impI)
  show "(h + (i - g)) mod length ks = lslot ks e i"
    using assms(1,3) lslot_step [of ks e g "i - g"] by simp
  fix x assume "x < i - g"
  then show "ks ! ((h + x) mod length ks) \<noteq> kEmptyKey"
    using assms(3,4) lslot_step [of ks e g x] by simp
qed (use assms in simp)

text \<open>The hole left by an erasure at position \<open>t\<close>.\<close>

lemma line_inv_hole:
  assumes wf: "fm_wf m" and e: "e < length (fm_keys m)" "fm_keys m ! e = kEmptyKey"
    and t: "t < length (fm_keys m)" "lslot (fm_keys m) e t \<in> occupied (fm_keys m)"
  shows "line_inv ((fm_keys m)[lslot (fm_keys m) e t := kEmptyKey]) e (Suc t)"
proof -
  let ?ks = "fm_keys m" and ?s = "lslot (fm_keys m) e"
  have sz: "fm_sized m" using wf by (simp add: fm_wf_def fm_base_def)
  have other: "?ks[?s t := kEmptyKey] ! ?s p = (if p = t then kEmptyKey else ?ks ! ?s p)"
    if "p < length ?ks" for p
  proof -
    have "?s t = ?s p \<longleftrightarrow> p = t" using lslot_inj [OF that t(1), of e] by metis
    then show ?thesis using t(2) by (simp add: nth_list_update occupied_def)
  qed
  have "\<exists>g \<le> i. ?s g = home ?ks (?ks[?s t := kEmptyKey] ! ?s i) \<and>
      (\<forall>p. g \<le> p \<and> p < i \<longrightarrow> ?ks[?s t := kEmptyKey] ! ?s p \<noteq> kEmptyKey \<or>
        (p < Suc t \<and> Suc t \<le> i \<and> (\<forall>q. Suc t \<le> q \<and> q \<le> i \<longrightarrow> ?ks[?s t := kEmptyKey] ! ?s q \<noteq> kEmptyKey)))"
    if i: "i < length ?ks" "?ks[?s t := kEmptyKey] ! ?s i \<noteq> kEmptyKey" for i
  proof -
    have it: "i \<noteq> t" "?ks ! ?s i \<noteq> kEmptyKey" using i other [OF i(1)] by (auto split: if_splits)
    have "?s i \<in> occupied ?ks"
      using it(2) lslot_less [OF fm_sized_pos [OF sz]] by (simp add: occupied_def)
    then obtain d where "steps_over ?ks (home ?ks (?ks ! ?s i)) (?s i) d" using wf by (auto simp: fm_wf_def)
    from line_of_steps [OF e i(1) this home_less [OF sz]]
    obtain g where g: "g \<le> i" "?s g = home ?ks (?ks ! ?s i)"
      "\<And>p. g \<le> p \<Longrightarrow> p < i \<Longrightarrow> ?ks ! ?s p \<noteq> kEmptyKey" by blast
    have "?ks[?s t := kEmptyKey] ! ?s p \<noteq> kEmptyKey \<or>
        (p < Suc t \<and> Suc t \<le> i \<and> (\<forall>q. Suc t \<le> q \<and> q \<le> i \<longrightarrow> ?ks[?s t := kEmptyKey] ! ?s q \<noteq> kEmptyKey))"
      if p: "g \<le> p" "p < i" for p
    proof (cases "p = t")
      case True
      have "?ks[?s t := kEmptyKey] ! ?s q \<noteq> kEmptyKey" if q: "Suc t \<le> q" "q \<le> i" for q
      proof -
        have "?ks ! ?s q \<noteq> kEmptyKey" using g(3) [of q] it(2) q p True by (cases "q = i") auto
        then show ?thesis using other [of q] q i(1) by simp
      qed
      then show ?thesis using True p by simp
    next
      case False
      then show ?thesis using g(3) [OF p] other [of p] p i(1) by simp
    qed
    moreover have "?s g = home ?ks (?ks[?s t := kEmptyKey] ! ?s i)"
      using g(2) other [OF i(1)] it(1) by simp
    ultimately show ?thesis using g(1) by blast
  qed
  moreover have "?ks[?s t := kEmptyKey] ! e = kEmptyKey"
    using e by (cases "e = ?s t") simp_all
  ultimately show ?thesis using e(1) by (simp add: line_inv_def)
qed

text \<open>
  One round: the entry at position \<open>t\<close> is taken out and put back at the first hole \<open>f\<close> on its
  path, which lies at or before \<open>t\<close>.
\<close>

text \<open>
  Positions on the line that starts after \<open>e\<close>; \<open>occ\<close> are the occupied ones before the move and
  \<open>occ'\<close> after it, when the hole goes from \<open>t\<close> to an earlier position.
\<close>

lemma path_kept:
  fixes occ occ' :: "nat \<Rightarrow> bool"
  assumes path: "\<And>p. h \<le> p \<Longrightarrow> p < i \<Longrightarrow> occ p \<or> (p < t \<and> t \<le> i \<and> (\<forall>q. t \<le> q \<and> q \<le> i \<longrightarrow> occ q))"
    and it: "i \<noteq> t" "occ i" and keep: "\<And>q. q \<le> i \<Longrightarrow> q \<noteq> t \<Longrightarrow> occ q \<Longrightarrow> occ' q"
    and p: "h \<le> p" "p < i"
  shows "occ' p \<or> (p < Suc t \<and> Suc t \<le> i \<and> (\<forall>q. Suc t \<le> q \<and> q \<le> i \<longrightarrow> occ' q))"
proof (cases "occ p \<and> p \<noteq> t")
  case True
  then show ?thesis using keep [of p] p by simp
next
  case pt: False
  have "occ' q" if q: "Suc t \<le> q" "q \<le> i" for q
  proof -
    have "occ q"
    proof (cases "p = t")
      case True
      then show ?thesis using path [of q] q p it by (cases "q = i") auto
    next
      case False
      then show ?thesis using path [OF p] pt q by simp
    qed
    then show ?thesis using keep [of q] q by simp
  qed
  moreover have "p < Suc t \<and> Suc t \<le> i" using pt path [OF p] p it(1) by (cases "p = t") auto
  ultimately show ?thesis by blast
qed

text \<open>Where the moved key came from and where it goes, as positions on the line.\<close>

lemma line_move_target:
  fixes ks :: "u64 list"
  assumes inv: "line_inv ks e t" and t: "t < length ks" and k: "k = ks ! lslot ks e t" "k \<noteq> kEmptyKey"
    and f: "steps_over (ks[lslot ks e t := kEmptyKey]) (home ks k) f d"
  obtains g fp where "lslot ks e g = home ks k" "g \<le> fp" "fp \<le> t" "f = lslot ks e fp"
    "\<And>p. g \<le> p \<Longrightarrow> p < fp \<Longrightarrow> (ks[lslot ks e t := kEmptyKey]) ! lslot ks e p \<noteq> kEmptyKey"
proof -
  let ?s = "lslot ks e" and ?k0 = "ks[lslot ks e t := kEmptyKey]"
  obtain g where g: "g \<le> t" "?s g = home ks k" using inv t k by (auto simp: line_inv_def)
  have over: "?k0 ! ?s p \<noteq> kEmptyKey" if "g \<le> p" "p < g + d" for p
  proof -
    have *: "\<forall>x < d. ?k0 ! ((home ks k + x) mod length ks) \<noteq> kEmptyKey" using f by (simp add: steps_over_def)
    have "p - g < d" using that by simp
    from * [rule_format, OF this] have "?k0 ! ((home ks k + (p - g)) mod length ks) \<noteq> kEmptyKey" .
    then show ?thesis using that lslot_step [of ks e g "p - g"] g(2) by simp
  qed
  have "f = ?s (g + d)" using f lslot_step [of ks e g d] g(2) by (simp add: steps_over_def)
  moreover have "g + d \<le> t"
  proof (rule ccontr)
    assume "\<not> ?thesis"
    then have "?k0 ! ?s t \<noteq> kEmptyKey" using g(1) by (intro over) simp_all
    moreover have "?s t < length ks" using t by (intro lslot_less) linarith
    ultimately show False by simp
  qed
  ultimately show ?thesis using that [of g "g + d"] g(2) over by simp
qed

lemma moved_at:
  fixes ks :: "u64 list"
  assumes "p < length ks" "t < length ks" "fp < length ks"
  shows "ks[lslot ks e t := kEmptyKey, lslot ks e fp := k] ! lslot ks e p =
    (if p = fp then k else if p = t then kEmptyKey else ks ! lslot ks e p)"
proof -
  have "lslot ks e t = lslot ks e p \<longleftrightarrow> p = t" "lslot ks e fp = lslot ks e p \<longleftrightarrow> p = fp"
    using lslot_inj [OF assms(1,2), of e] lslot_inj [OF assms(1,3), of e] by metis+
  moreover have "0 < length ks" using assms(1) by linarith
  then have "lslot ks e x < length ks" for x by (rule lslot_less)
  ultimately show ?thesis by (simp add: nth_list_update)
qed

lemma line_inv_move:
  fixes ks :: "u64 list"
  assumes inv: "line_inv ks e t" and t: "t < length ks" and k: "k = ks ! lslot ks e t" "k \<noteq> kEmptyKey"
    and f: "f < length ks" "(ks[lslot ks e t := kEmptyKey]) ! f = kEmptyKey"
      "steps_over (ks[lslot ks e t := kEmptyKey]) (home ks k) f d"
  shows "line_inv (ks[lslot ks e t := kEmptyKey, f := k]) e (Suc t)" and "Suc t < length ks"
proof -
  let ?s = "lslot ks e" and ?K = "\<lambda>p. ks ! lslot ks e p"
  let ?ks = "ks[lslot ks e t := kEmptyKey, f := k]"
  have el: "e < length ks" "ks ! e = kEmptyKey" using inv by (auto simp: line_inv_def)
  have last: "?K (length ks - 1) = kEmptyKey" using el lslot_last by simp
  then have "t \<noteq> length ks - 1" using k by auto
  then show st: "Suc t < length ks" using t by linarith
  obtain g fp where g: "?s g = home ks k" "g \<le> fp" "fp \<le> t" "f = ?s fp"
    and over: "\<And>p. g \<le> p \<Longrightarrow> p < fp \<Longrightarrow> (ks[?s t := kEmptyKey]) ! ?s p \<noteq> kEmptyKey"
    by (rule line_move_target [OF inv t k f(3)]) (rule that)
  have K': "?ks ! ?s p = (if p = fp then k else if p = t then kEmptyKey else ?K p)" if "p < length ks" for p
    unfolding g(4) by (rule moved_at [OF that t]) (use g(3) t in linarith)
  have "\<exists>g \<le> i. ?s g = home ks (?ks ! ?s i) \<and>
      (\<forall>p. g \<le> p \<and> p < i \<longrightarrow> ?ks ! ?s p \<noteq> kEmptyKey \<or>
        (p < Suc t \<and> Suc t \<le> i \<and> (\<forall>q. Suc t \<le> q \<and> q \<le> i \<longrightarrow> ?ks ! ?s q \<noteq> kEmptyKey)))"
    if i: "i < length ks" "?ks ! ?s i \<noteq> kEmptyKey" for i
  proof (cases "i = fp")
    case True
    have "?ks ! ?s p \<noteq> kEmptyKey" if p: "g \<le> p" "p < fp" for p
    proof -
      have "p < length ks" "p \<noteq> t" using p g(3) t by linarith+
      moreover from this have "?s t \<noteq> ?s p" using lslot_inj [OF _ t] by metis
      ultimately show ?thesis using over [OF p] K' [of p] k(2) by simp
    qed
    then show ?thesis using True g(1,2) K' [OF i(1)] by (intro exI [of _ g]) simp
  next
    case False
    have it: "i \<noteq> t" "?K i \<noteq> kEmptyKey" using i K' [OF i(1)] False by (auto split: if_splits)
    obtain h where h: "h \<le> i" "?s h = home ks (?K i)"
      and h3: "\<forall>p. h \<le> p \<and> p < i \<longrightarrow> ?K p \<noteq> kEmptyKey \<or>
         (p < t \<and> t \<le> i \<and> (\<forall>q. t \<le> q \<and> q \<le> i \<longrightarrow> ?K q \<noteq> kEmptyKey))"
      by (rule line_invE [OF inv i(1) it(2)])
    have "?ks ! ?s p \<noteq> kEmptyKey \<or>
        (p < Suc t \<and> Suc t \<le> i \<and> (\<forall>q. Suc t \<le> q \<and> q \<le> i \<longrightarrow> ?ks ! ?s q \<noteq> kEmptyKey))"
      if "h \<le> p" "p < i" for p
    proof (rule path_kept [where occ = "\<lambda>p. ?K p \<noteq> kEmptyKey", OF _ it _ that])
      fix p assume "h \<le> p" "p < i"
      with h3 show "?K p \<noteq> kEmptyKey \<or> (p < t \<and> t \<le> i \<and> (\<forall>q. t \<le> q \<and> q \<le> i \<longrightarrow> ?K q \<noteq> kEmptyKey))"
        by blast
    next
      fix q assume "q \<le> i" "q \<noteq> t" "?K q \<noteq> kEmptyKey"
      then show "?ks ! ?s q \<noteq> kEmptyKey" using K' [of q] i(1) k(2) by simp
    qed
    moreover have "?s h = home ks (?ks ! ?s i)" using h(2) K' [OF i(1)] False it(1) by simp
    ultimately show ?thesis using h(1) by blast
  qed
  moreover have "?ks ! e = kEmptyKey"
  proof -
    have "length ks - 1 \<noteq> fp" "length ks - 1 \<noteq> t" "length ks - 1 < length ks" using st g(3) by linarith+
    then show ?thesis using K' [of "length ks - 1"] last lslot_last [OF el(1)] by simp
  qed
  ultimately show "line_inv ?ks e (Suc t)" using el(1) by (simp add: line_inv_def)
qed

lemma line_inv_done:
  assumes "fm_base m" "line_inv (fm_keys m) e t" "t < length (fm_keys m)"
    "fm_keys m ! lslot (fm_keys m) e t = kEmptyKey"
  shows "fm_wf m"
  unfolding fm_wf_def
proof (intro conjI ballI)
  fix s assume s: "s \<in> occupied (fm_keys m)"
  then have "s < length (fm_keys m)" by (simp add: occupied_def)
  then obtain i where i: "i < length (fm_keys m)" "lslot (fm_keys m) e i = s" by (rule lslot_surj)
  have "fm_keys m ! lslot (fm_keys m) e i \<noteq> kEmptyKey" using s i(2) by (simp add: occupied_def)
  from line_invE [OF assms(2) i(1) this] obtain g where g: "g \<le> i"
    "lslot (fm_keys m) e g = home (fm_keys m) (fm_keys m ! s)"
    "\<forall>p. g \<le> p \<and> p < i \<longrightarrow> fm_keys m ! lslot (fm_keys m) e p \<noteq> kEmptyKey \<or> (p < t \<and> t \<le> i \<and>
       (\<forall>q. t \<le> q \<and> q \<le> i \<longrightarrow> fm_keys m ! lslot (fm_keys m) e q \<noteq> kEmptyKey))"
    unfolding i(2) by blast
  then have "\<forall>p. g \<le> p \<and> p < i \<longrightarrow> fm_keys m ! lslot (fm_keys m) e p \<noteq> kEmptyKey"
    using assms(4) by (metis order_refl)
  from steps_of_line [OF g(1) i(1) g(2) this]
  show "\<exists>d. steps_over (fm_keys m) (home (fm_keys m) (fm_keys m ! s)) s d" unfolding i(2) by blast
qed (rule assms(1))

text \<open>One round of the rehash loop: the entry at the cursor is cleared and inserted again, which keeps the
  table and moves the invariant of the run one step on.\<close>

lemma rehash_round:
  assumes b: "fm_base m" and inv: "line_inv (fm_keys m) e t" and t: "t < length (fm_keys m)"
    and idx: "unat idx = lslot (fm_keys m) e t" and ne: "fm_keys m ! unat idx \<noteq> kEmptyKey"
  obtains m2 where "rehash_loop m idx = rehash_loop m2 ((idx + 1) AND fm_mask m)" "fm_base m2"
    "line_inv (fm_keys m2) e (Suc t)" "Suc t < length (fm_keys m2)" "length (fm_keys m2) = length (fm_keys m)"
    "unat ((idx + 1) AND fm_mask m) = lslot (fm_keys m2) e (Suc t)"
    "fm_map m2 = fm_map m" "fm_capacity m2 = fm_capacity m"
proof -
  let ?ks = "fm_keys m"
  note sz = fm_base_sized [OF b]
  have il: "unat idx < length ?ks" unfolding idx by (rule lslot_less [OF fm_sized_pos [OF sz]])
  define k v where "k = ?ks ! unat idx" and "v = fm_values m ! unat idx"
  define m1 where "m1 = (set_slot m idx kEmptyKey kEmpty)\<lparr>fm_size := fm_size m - 1\<rparr>"
  have io: "unat idx \<in> occupied ?ks" using il ne by (simp add: occupied_def)
  note c = clear_slot [OF b io, folded m1_def k_def]
  have k0: "k \<noteq> kEmptyKey" using ne by (simp add: k_def)
  have ks1: "fm_keys m1 = ?ks[unat idx := kEmptyKey]" and cap1: "fm_capacity m1 = fm_capacity m"
    by (simp_all add: m1_def)
  note sz1 = fm_base_sized [OF c(1)] and di1 = fm_base_distinct [OF c(1)]
  have nf: "\<not> fm_full m1"
    using load_step [OF b c(3)] by (simp add: fm_full_def m1_def)
  have ab: "\<forall>i \<in> occupied (fm_keys m1). fm_keys m1 ! i \<noteq> k"
    using fm_map_None [OF sz1 di1, of k] by (simp add: c(2))
  have e1: "unat idx < length (fm_keys m1)" "fm_keys m1 ! unat idx = kEmptyKey" using il ks1 by simp_all
  obtain j d where j: "fm_insert k v m1 = Some (True, (set_slot m1 j k v)\<lparr>fm_size := fm_size m1 + 1\<rparr>)"
    "unat j < length (fm_keys m1)" "fm_keys m1 ! unat j = kEmptyKey"
    "steps_over (fm_keys m1) (home (fm_keys m1) k) (unat j) d"
    by (rule insert_absent [OF sz1 e1 k0 ab nf])
  let ?m2 = "(set_slot m1 j k v)\<lparr>fm_size := fm_size m1 + 1\<rparr>"
  note f = fill_slot [OF sz1 di1 fm_base_size [OF c(1)] nf j(2,3) k0 ab, of v]
  have kt: "k = ?ks ! lslot ?ks e t" by (simp add: k_def idx)
  have mv: "line_inv (?ks[lslot ?ks e t := kEmptyKey, unat j := k]) e (Suc t)" "Suc t < length ?ks"
    using line_inv_move [OF inv t kt k0, of "unat j" d] j(2-4) by (simp_all add: ks1 idx)
  have nx: "unat ((idx + 1) AND fm_mask m) = lslot ?ks e (Suc t)"
    using unat_next [OF sz, of idx] lslot_step [of ?ks e t 1] by (simp add: idx)
  show ?thesis
  proof (rule that [of ?m2])
    show "rehash_loop m idx = rehash_loop ?m2 ((idx + 1) AND fm_mask m)"
      using ne il fm_sized_values [OF sz] j(1)
      by (simp add: rehash_loop.simps [of m idx] key_at_eq value_at_eq Let_def
        flip: k_def v_def) (simp add: m1_def)
    have "fm_map m k = Some v" using fm_map_Some [OF sz fm_base_distinct [OF b]] io k_def v_def by blast
    then show "fm_map ?m2 = fm_map m" unfolding f(2) c(2) by auto
  qed (use f(1) mv nx cap1 in \<open>simp_all add: ks1 idx lslot_def\<close>)
qed

lemma rehash_loop_ok:
  assumes "fm_base m" "line_inv (fm_keys m) e t" "t < length (fm_keys m)"
    "unat idx = lslot (fm_keys m) e t"
  shows "\<exists>m'. rehash_loop m idx = Some m' \<and> fm_wf m' \<and> fm_map m' = fm_map m \<and>
    fm_capacity m' = fm_capacity m"
  using assms
proof (induction "length (fm_keys m) - t" arbitrary: m t idx rule: less_induct)
  case less
  let ?ks = "fm_keys m"
  note b = less.prems(1) and inv = less.prems(2) and t = less.prems(3) and idx = less.prems(4)
  note sz = fm_base_sized [OF b]
  have il: "unat idx < length ?ks" unfolding idx by (rule lslot_less [OF fm_sized_pos [OF sz]])
  show ?case
  proof (cases "?ks ! unat idx = kEmptyKey")
    case True
    then have "rehash_loop m idx = Some m"
      by (simp add: rehash_loop.simps [of m idx] key_at_eq il)
    moreover have "fm_wf m" by (rule line_inv_done [OF b inv t]) (use True idx in simp)
    ultimately show ?thesis by simp
  next
    case False
    obtain m2 where m2: "rehash_loop m idx = rehash_loop m2 ((idx + 1) AND fm_mask m)" "fm_base m2"
      "line_inv (fm_keys m2) e (Suc t)" "Suc t < length (fm_keys m2)" "length (fm_keys m2) = length ?ks"
      "unat ((idx + 1) AND fm_mask m) = lslot (fm_keys m2) e (Suc t)"
      "fm_map m2 = fm_map m" "fm_capacity m2 = fm_capacity m"
      by (rule rehash_round [OF b inv t idx False])
    have "length (fm_keys m2) - Suc t < length ?ks - t" using m2(5) t by simp
    from less.hyps [OF this m2(2-4,6)] show ?thesis by (simp only: m2(1,7,8))
  qed
qed

lemma fm_erase_ok:
  assumes wf: "fm_wf m" and k: "k \<noteq> kEmptyKey" "fm_map m k = Some v"
  shows "\<exists>m'. fm_erase k m = Some (True, m') \<and> fm_wf m' \<and> fm_map m' = (fm_map m)(k := None) \<and>
    fm_capacity m' = fm_capacity m"
proof -
  let ?ks = "fm_keys m" and ?h = "home (fm_keys m) k"
  have b: "fm_base m" using wf by (rule fm_wf_base)
  note sz = fm_base_sized [OF b]
  obtain d where d: "d < length ?ks" "probe_stop ?ks k ?h d" and
    s: "\<And>j. j = (?h + d) mod length ?ks \<Longrightarrow>
       (if fm_map m k = None \<and> k \<noteq> kEmptyKey then ?ks ! j = kEmptyKey \<and> steps_over ?ks ?h j d
        else k \<noteq> kEmptyKey \<longrightarrow> j \<in> occupied ?ks \<and> ?ks ! j = k \<and> fm_map m k = Some (fm_values m ! j))"
    using wf_probe [OF wf, of k] by blast
  define j :: u64 where "j = word_of_nat ((?h + d) mod length ?ks)"
  have jl: "(?h + d) mod length ?ks < length ?ks" by (rule mod_less_divisor [OF fm_sized_pos [OF sz]])
  then have uj: "unat j = (?h + d) mod length ?ks"
    unfolding j_def using fm_sized_less [OF sz] by (intro unat_of_nat_u64) (rule less_trans)
  have jo: "unat j \<in> occupied ?ks" "?ks ! unat j = k" using s [OF uj] k by simp_all
  define m1 where "m1 = (set_slot m j kEmptyKey kEmpty)\<lparr>fm_size := fm_size m - 1\<rparr>"
  note c = clear_slot [OF b jo(1), folded m1_def, unfolded jo(2)]
  have er: "fm_erase k m = map_option (Pair True) (rehash_from j m1)"
    using erase_loop_ok [OF sz, of "fm_hash k AND fm_mask m" k d j] d(2) uj jo k(1)
    by (simp add: fm_erase_def unat_home sz home_less occupied_def m1_def)
  obtain e where e: "e < length ?ks" "?ks ! e = kEmptyKey" using fm_base_room [OF b] by blast
  obtain t where t: "t < length ?ks" "lslot ?ks e t = unat j" by (rule lslot_surj [of "unat j"]) (use jl uj in simp)
  have ks1: "fm_keys m1 = ?ks[lslot ?ks e t := kEmptyKey]" by (simp add: m1_def t(2))
  have inv: "line_inv (fm_keys m1) e (Suc t)"
    unfolding ks1 by (rule line_inv_hole [OF wf e t(1)]) (use t(2) jo(1) in simp)
  have "t \<noteq> length ?ks - 1"
    using t(2) lslot_last [OF e(1)] e(2) jo by (auto simp: occupied_def)
  then have st: "Suc t < length (fm_keys m1)" using t(1) by (simp add: ks1)
  have nx: "unat ((j + 1) AND fm_mask m1) = lslot (fm_keys m1) e (Suc t)"
    using unat_next [OF fm_base_sized [OF c(1)], of j] lslot_step [of ?ks e t 1] t(2) by (simp add: ks1)
  obtain m' where m': "rehash_loop m1 ((j + 1) AND fm_mask m1) = Some m'" "fm_wf m'"
    "fm_map m' = fm_map m1" "fm_capacity m' = fm_capacity m1"
    using rehash_loop_ok [OF c(1) inv st nx] by blast
  then show ?thesis using er c(2) by (simp add: rehash_from_def m1_def)
qed

lemma fm_erase_absent:
  assumes wf: "fm_wf m" and k: "k \<noteq> kEmptyKey" "fm_map m k = None"
  shows "fm_erase k m = Some (False, m)"
proof -
  let ?ks = "fm_keys m" and ?h = "home (fm_keys m) k"
  note sz = fm_base_sized [OF fm_wf_base [OF wf]]
  obtain d where d: "d < length ?ks" "probe_stop ?ks k ?h d" and
    s: "\<And>j. j = (?h + d) mod length ?ks \<Longrightarrow>
       (if fm_map m k = None \<and> k \<noteq> kEmptyKey then ?ks ! j = kEmptyKey \<and> steps_over ?ks ?h j d
        else k \<noteq> kEmptyKey \<longrightarrow> j \<in> occupied ?ks \<and> ?ks ! j = k \<and> fm_map m k = Some (fm_values m ! j))"
    using wf_probe [OF wf, of k] by blast
  define j :: u64 where "j = word_of_nat ((?h + d) mod length ?ks)"
  have jl: "(?h + d) mod length ?ks < length ?ks" by (rule mod_less_divisor [OF fm_sized_pos [OF sz]])
  then have uj: "unat j = (?h + d) mod length ?ks"
    unfolding j_def using fm_sized_less [OF sz] by (intro unat_of_nat_u64) (rule less_trans)
  have "?ks ! unat j = kEmptyKey" using s [OF uj] k by simp
  then show ?thesis
    using erase_loop_ok [OF sz, of "fm_hash k AND fm_mask m" k d j] d(2) uj k(1)
    by (simp add: fm_erase_def unat_home sz home_less)
qed

section \<open>Construction and clearing\<close>

lemma next_power_of_two_ok:
  assumes "0 < n" "unat n \<le> 2 ^ 63"
  shows "\<exists>w < 64. next_power_of_two n = Some (2 ^ w) \<and> unat n \<le> 2 ^ w \<and> (2::nat) ^ w < 2 * unat n"
proof -
  let ?w = "bit_width (n - 1)"
  have pos: "0 < unat n" using assms(1) by (simp add: word_less_nat_alt)
  have u: "unat (n - 1) = unat n - 1" by (rule unat_minus_one_pos [OF pos])
  have "unat n - 1 < 2 ^ 63" using assms(2) pos by linarith
  then have w: "?w \<le> 63" unfolding bit_width_def u by (intro floorlog_leI) auto
  have "unat n \<le> 2 ^ ?w \<and> (2::nat) ^ ?w < 2 * unat n"
  proof (cases "unat n = 1")
    case True
    then show ?thesis by (simp add: bit_width_def u floorlog_def)
  next
    case False
    then have "0 < unat n - 1" using pos by linarith
    from floorlog_bounds [OF this, of 2]
    have f: "2 ^ (?w - 1) \<le> unat n - 1" "unat n - 1 < 2 ^ ?w" by (simp_all add: bit_width_def u)
    have "?w \<noteq> 0" using f \<open>0 < unat n - 1\<close> by (intro notI) simp
    then have "(2::nat) ^ ?w = 2 * 2 ^ (?w - 1)" by (cases ?w) simp_all
    then show ?thesis using f pos by linarith
  qed
  moreover have "next_power_of_two n = Some (2 ^ ?w)"
    using assms(1) w by (auto simp: next_power_of_two_def)
  ultimately show ?thesis using w by (intro exI [of _ ?w]) simp
qed

lemma fm_map_empty: "set (fm_keys m) \<subseteq> {kEmptyKey} \<Longrightarrow> fm_map m = Map.empty"
  by (rule ext) (auto simp: fm_map_def map_of_eq_None_iff dest: set_zip_leftD)

lemma occupied_empty [simp]: "occupied (replicate n kEmptyKey) = {}"
  by (auto simp: occupied_def)

lemma fm_wf_empty:
  assumes "fm_sized m" "fm_keys m = replicate n kEmptyKey" "fm_size m = 0"
  shows "fm_wf m" "fm_map m = Map.empty"
  using assms by (auto simp: fm_wf_def fm_base_def keys_distinct_def intro: fm_map_empty)

lemma fm_new_ok:
  assumes "0 < cap" "unat cap \<le> 2 ^ 63"
  shows "\<exists>m. fm_new cap = Some m \<and> fm_wf m \<and> fm_map m = Map.empty \<and>
    unat cap \<le> unat (fm_capacity m) \<and> unat (fm_capacity m) < 2 * unat cap"
proof -
  obtain w where w: "w < 64" "next_power_of_two cap = Some (2 ^ w)" "unat cap \<le> 2 ^ w"
    "(2::nat) ^ w < 2 * unat cap"
    using next_power_of_two_ok [OF assms] by blast
  have "(2::nat) ^ w < 2 ^ 64" using w(1) by (intro power_strict_increasing) auto
  from unat_of_nat_u64 [OF this] have u: "unat (2 ^ w :: u64) = 2 ^ w" by simp
  let ?m = "\<lparr>fm_capacity = 2 ^ w, fm_mask = 2 ^ w - 1, fm_keys = replicate (2 ^ w) kEmptyKey,
    fm_values = replicate (2 ^ w) kEmpty, fm_size = 0\<rparr>"
  have "fm_new cap = Some ?m" by (simp add: fm_new_def w(2) u)
  moreover have "fm_sized ?m" using w(1) by (auto simp: fm_sized_def mask_eq_exp_minus_1)
  ultimately show ?thesis using fm_wf_empty [of ?m "2 ^ w"] w u by simp
qed

lemma fm_clear_ok:
  assumes "fm_wf m"
  shows "fm_wf (fm_clear m)" "fm_map (fm_clear m) = Map.empty" "fm_capacity (fm_clear m) = fm_capacity m"
proof -
  have "fm_sized (fm_clear m)"
    using fm_base_sized [OF fm_wf_base [OF assms]] by (simp add: fm_sized_def fm_clear_def)
  then show "fm_wf (fm_clear m)" "fm_map (fm_clear m) = Map.empty"
    using fm_wf_empty [of "fm_clear m" "length (fm_keys m)"] by (simp_all add: fm_clear_def)
qed (simp add: fm_clear_def)

text \<open>The size is the number of keys of the map.\<close>

lemma fm_card:
  assumes "fm_wf m"
  shows "card (dom (fm_map m)) = unat (fm_size m)"
proof -
  have b: "fm_base m" using assms by (rule fm_wf_base)
  have "dom (fm_map m) = (!) (fm_keys m) ` occupied (fm_keys m)"
    using fm_map_None [OF fm_base_sized [OF b] fm_base_distinct [OF b]] by (auto simp: dom_def)
  moreover have "inj_on ((!) (fm_keys m)) (occupied (fm_keys m))"
    using fm_base_distinct [OF b] by (auto simp: inj_on_def keys_distinct_def)
  ultimately show ?thesis using fm_base_size [OF b] by (simp add: card_image)
qed

lemma fm_finite: "finite (dom (fm_map m))"
proof (rule finite_subset)
  show "dom (fm_map m) \<subseteq> set (fm_keys m)"
    by (auto simp: fm_map_def split: if_splits dest!: map_of_SomeD set_zip_leftD)
qed simp

definition index_room :: "u64 \<Rightarrow> nat \<Rightarrow> bool" where
  "index_room cap n = (\<not> load_factor_reached (word_of_nat n + 1) cap)"

lemma fm_full_room: "fm_wf m \<Longrightarrow> fm_full m \<longleftrightarrow> \<not> index_room (fm_capacity m) (card (dom (fm_map m)))"
  by (simp add: fm_full_def index_room_def fm_card)

section \<open>The interface of the order index\<close>

text \<open>
  What the order book relies on: a finite map from non-zero ids to pool indices, of fixed
  capacity, in which lookups, updates below the load limit, and erasures do what they say.
\<close>

locale index_map =
  fixes wf :: "'m \<Rightarrow> bool"
    and look :: "'m \<Rightarrow> u64 \<Rightarrow> u32 option"
    and cap :: "'m \<Rightarrow> u64"
    and room :: "u64 \<Rightarrow> nat \<Rightarrow> bool"
    and get :: "'m \<Rightarrow> u64 \<Rightarrow> u32 option"
    and put :: "u64 \<Rightarrow> u32 \<Rightarrow> 'm \<Rightarrow> (bool \<times> 'm) option"
    and del :: "u64 \<Rightarrow> 'm \<Rightarrow> (bool \<times> 'm) option"
  assumes look_finite: "finite (dom (look m))"
    and get_eq: "wf m \<Longrightarrow> k \<noteq> 0 \<Longrightarrow> get m k = Some (or_invalid (look m k))"
    and put_room: "wf m \<Longrightarrow> k \<noteq> 0 \<Longrightarrow> room (cap m) (card (dom (look m))) \<Longrightarrow>
      \<exists>m'. put k v m = Some (True, m') \<and> wf m' \<and> look m' = (look m)(k \<mapsto> v) \<and> cap m' = cap m"
    and put_full: "wf m \<Longrightarrow> k \<noteq> 0 \<Longrightarrow> \<not> room (cap m) (card (dom (look m))) \<Longrightarrow>
      put k v m = Some (False, m)"
    and del_live: "wf m \<Longrightarrow> k \<noteq> 0 \<Longrightarrow> look m k = Some v \<Longrightarrow>
      \<exists>m'. del k m = Some (True, m') \<and> wf m' \<and> look m' = (look m)(k := None) \<and> cap m' = cap m"
    and del_absent: "wf m \<Longrightarrow> k \<noteq> 0 \<Longrightarrow> look m k = None \<Longrightarrow> del k m = Some (False, m)"
begin

lemma put_wf:
  assumes "wf m" "k \<noteq> 0" "put k v m = Some (b, m')"
  shows "wf m' \<and> cap m' = cap m \<and> look m' = (if b then (look m)(k \<mapsto> v) else look m)"
  using assms put_room [OF assms(1,2), of v] put_full [OF assms(1,2), of v]
  by (cases "room (cap m) (card (dom (look m)))") auto

lemma get_put:
  assumes "wf m" "k \<noteq> 0" "k' \<noteq> 0" "put k v m = Some (True, m')"
  shows "get m' k' = (if k' = k then Some v else get m k')"
  using put_wf [OF assms(1,2,4)] get_eq [of m' k'] get_eq [of m k'] assms by auto

lemma del_total:
  assumes "wf m" "k \<noteq> 0"
  obtains b m' where "del k m = Some (b, m')" "b \<longleftrightarrow> look m k \<noteq> None" "wf m'"
    "look m' = (look m)(k := None)" "cap m' = cap m"
proof (cases "look m k")
  case None
  then show ?thesis using that [of False m] del_absent [OF assms None] assms by (simp add: fun_upd_idem)
next
  case (Some v)
  then show ?thesis using that [of True] del_live [OF assms Some] by auto
qed

lemma get_del:
  assumes "wf m" "k \<noteq> 0" "k' \<noteq> 0" "del k m = Some (b, m')"
  shows "get m' k' = (if k' = k then Some kInvalidPoolIndex else get m k')"
  by (rule del_total [OF assms(1,2)])
    (use assms in \<open>auto simp: get_eq\<close>)

lemma put_del:
  assumes "wf m" "k \<noteq> 0" "look m k = None" "put k v m = Some (True, m')"
  shows "\<exists>m''. del k m' = Some (True, m'') \<and> wf m'' \<and> look m'' = look m"
proof -
  have "wf m' \<and> look m' = (look m)(k \<mapsto> v)" using put_wf [OF assms(1,2,4)] by simp
  with del_live [of m' k v] assms(2,3) show ?thesis by (auto simp: fun_upd_idem)
qed

end

interpretation order_index: index_map fm_wf fm_map fm_capacity index_room fm_find fm_insert fm_erase
proof
  fix m k v
  show "finite (dom (fm_map m))" by (rule fm_finite)
  show "fm_wf m \<Longrightarrow> k \<noteq> 0 \<Longrightarrow> fm_find m k = Some (or_invalid (fm_map m k))"
    using fm_find_ok by (simp add: kEmptyKey_def)
  show "fm_wf m \<Longrightarrow> k \<noteq> 0 \<Longrightarrow> index_room (fm_capacity m) (card (dom (fm_map m))) \<Longrightarrow>
      \<exists>m'. fm_insert k v m = Some (True, m') \<and> fm_wf m' \<and> fm_map m' = (fm_map m)(k \<mapsto> v) \<and>
        fm_capacity m' = fm_capacity m"
    using fm_insert_ok fm_full_room by (simp add: kEmptyKey_def)
  show "fm_wf m \<Longrightarrow> k \<noteq> 0 \<Longrightarrow> \<not> index_room (fm_capacity m) (card (dom (fm_map m))) \<Longrightarrow>
      fm_insert k v m = Some (False, m)"
    using fm_insert_full fm_full_room by (simp add: kEmptyKey_def)
  show "fm_wf m \<Longrightarrow> k \<noteq> 0 \<Longrightarrow> fm_map m k = Some v \<Longrightarrow>
      \<exists>m'. fm_erase k m = Some (True, m') \<and> fm_wf m' \<and> fm_map m' = (fm_map m)(k := None) \<and>
        fm_capacity m' = fm_capacity m"
    using fm_erase_ok by (simp add: kEmptyKey_def)
  show "fm_wf m \<Longrightarrow> k \<noteq> 0 \<Longrightarrow> fm_map m k = None \<Longrightarrow> fm_erase k m = Some (False, m)"
    using fm_erase_absent by (simp add: kEmptyKey_def)
qed

text \<open>Below \<open>2 ^ 24\<close> entries the load limit is three quarters of the capacity exactly.\<close>

lemma unat_power_u64: "w < 64 \<Longrightarrow> unat ((2 :: u64) ^ w) = 2 ^ w"
  using unat_of_nat_u64 [of "2 ^ w"] power_strict_increasing [of w 64 "2 :: nat"] by simp

lemma load_factor_exact:
  assumes "unat c < 2 ^ 24" "w < 64"
  shows "load_factor_reached c (2 ^ w) \<longleftrightarrow> 3 * 2 ^ w \<le> 4 * unat c"
proof -
  have "floorlog 2 (unat c) \<le> 24" by (rule floorlog_leI) (use assms(1) in simp_all)
  then have "f32_of_nat (unat c) = unat c" by (rule f32_small)
  moreover have "unat ((2 :: u64) ^ w) = 2 ^ w" using assms(2) by (simp add: unat_power_u64)
  ultimately show ?thesis by (simp add: load_factor_reached_def f32_power2)
qed

lemma load_limit_exact:
  assumes "fm_wf m" "unat (fm_size m) + 1 < 2 ^ 24"
  shows "load_factor_reached (fm_size m + 1) (fm_capacity m) \<longleftrightarrow> 3 * unat (fm_capacity m) \<le> 4 * (unat (fm_size m) + 1)"
proof -
  obtain w where w: "w < 64" "fm_capacity m = 2 ^ w"
    using fm_base_sized [OF fm_wf_base [OF assms(1)]] by (auto simp: fm_sized_def)
  have c: "unat (fm_size m + 1) = unat (fm_size m) + 1" using assms(2) by (simp add: unat_word_ariths)
  have "unat (fm_capacity m) = 2 ^ w" using w by (simp add: unat_power_u64)
  then show ?thesis using load_factor_exact [of "fm_size m + 1" w] assms(2) w by (simp add: c)
qed

section \<open>Properties\<close>

text \<open>C16: Insertion and lookup. On a well-formed table and a non-zero key, \<open>insert\<close> terminates;
  it returns false and changes nothing exactly when the load limit is reached, which below
  \<open>2 ^ 24\<close> entries, where the float arithmetic is exact, is three quarters of the capacity; otherwise
  it returns true, after which \<open>find\<close> terminates for every non-zero key with the new value for this
  key and the old answer for all others.\<close>

theorem hash_map_insert:
  assumes "fm_wf m" "k \<noteq> kEmptyKey"
  shows "\<exists>b m'. fm_insert k v m = Some (b, m') \<and> b = (\<not> load_factor_reached (fm_size m + 1) (fm_capacity m)) \<and>
    (unat (fm_size m) + 1 < 2 ^ 24 \<longrightarrow> b = (4 * (unat (fm_size m) + 1) < 3 * unat (fm_capacity m))) \<and>
    fm_wf m' \<and> (\<forall>k'. k' \<noteq> kEmptyKey \<longrightarrow>
      fm_find m' k' = (if b \<and> k' = k then Some v else fm_find m k'))"
proof (cases "fm_full m")
  case True
  then have "fm_insert k v m = Some (False, m)" "load_factor_reached (fm_size m + 1) (fm_capacity m)"
    using fm_insert_full [OF assms(2)] by (simp_all add: fm_full_def)
  then show ?thesis using assms(1) load_limit_exact [OF assms(1)]
    by (intro exI [of _ False] exI [of _ m]) (simp add: not_less)
next
  case False
  then obtain m' where m': "fm_insert k v m = Some (True, m')" "fm_wf m'" "fm_map m' = (fm_map m)(k \<mapsto> v)"
    using fm_insert_ok [OF assms] by blast
  have "fm_find m' k' = (if k' = k then Some v else fm_find m k')" if "k' \<noteq> kEmptyKey" for k'
    using that m'(2,3) assms(1) by (simp add: fm_find_ok)
  moreover have nf: "\<not> load_factor_reached (fm_size m + 1) (fm_capacity m)" using False by (simp add: fm_full_def)
  moreover have "unat (fm_size m) + 1 < 2 ^ 24 \<longrightarrow> 4 * (unat (fm_size m) + 1) < 3 * unat (fm_capacity m)"
    using load_limit_exact [OF assms(1)] nf by (simp add: not_le)
  ultimately show ?thesis using m'(1,2) by (intro exI [of _ True] exI [of _ m']) simp
qed

lemma demo_map:
  "fm_new 4 = Some \<lparr>fm_capacity = 4, fm_mask = 3, fm_keys = [0, 0, 0, 0],
     fm_values = [kEmpty, kEmpty, kEmpty, kEmpty], fm_size = 0\<rparr>"
  "\<not> load_factor_reached 1 4" "\<not> load_factor_reached 2 4" "load_factor_reached 3 4"
  by code_simp+

theorem hash_map_insert_witness:
  "\<exists>m m'. fm_new 4 = Some m \<and> fm_insert 42 7 m = Some (True, m') \<and> fm_find m' 42 = Some 7"
proof -
  obtain m where m: "fm_new 4 = Some m" "fm_wf m" using fm_new_ok [of 4] by auto
  then have "\<not> load_factor_reached (fm_size m + 1) (fm_capacity m)" using demo_map by auto
  then show ?thesis using hash_map_insert [OF m(2), of 42 7] m(1) by (auto simp: kEmptyKey_def)
qed

text \<open>C17: Erasure. On a well-formed table and a non-zero key, \<open>erase\<close> and its re-insertion loop
  terminate; it returns whether the key was present, the key is gone afterwards, every other key
  is found as before (no probe chain is broken), and the table stays well-formed.\<close>

theorem hash_map_erase:
  assumes "fm_wf m" "k \<noteq> kEmptyKey"
  shows "\<exists>b m'. fm_erase k m = Some (b, m') \<and> b = (fm_map m k \<noteq> None) \<and> fm_wf m' \<and>
    fm_map m' = (fm_map m)(k := None) \<and>
    (\<forall>k'. k' \<noteq> kEmptyKey \<longrightarrow> fm_find m' k' = (if k' = k then Some kEmpty else fm_find m k'))"
proof -
  have k0: "k \<noteq> 0" using assms(2) by (simp add: kEmptyKey_def)
  obtain b m' where m': "fm_erase k m = Some (b, m')" "b \<longleftrightarrow> fm_map m k \<noteq> None" "fm_wf m'"
    "fm_map m' = (fm_map m)(k := None)"
    by (rule order_index.del_total [OF assms(1) k0])
  have "fm_find m' k' = (if k' = k then Some kEmpty else fm_find m k')" if "k' \<noteq> kEmptyKey" for k'
    using that m'(3,4) assms(1) by (simp add: fm_find_ok kEmpty_def)
  with m' show ?thesis by blast
qed

text \<open>The keys 42 and 46 have the same home slot in a table of four, so erasing the first has to move
  the second.\<close>

theorem hash_map_erase_witness:
  "\<exists>m m1 m2 m3. fm_new 4 = Some m \<and> fm_insert 42 7 m = Some (True, m1) \<and> fm_insert 46 8 m1 = Some (True, m2) \<and>
     fm_hash 42 AND fm_mask m2 = fm_hash 46 AND fm_mask m2 \<and> fm_erase 42 m2 = Some (True, m3) \<and> fm_find m3 42 = Some kEmpty \<and> fm_find m3 46 = Some 8"
proof -
  obtain m where m: "fm_new 4 = Some m" "fm_wf m" "fm_map m = Map.empty" using fm_new_ok [of 4] by auto
  then have c: "fm_size m = 0" "fm_capacity m = 4" using demo_map(1) by auto
  have k: "(42 :: u64) \<noteq> kEmptyKey" "(46 :: u64) \<noteq> kEmptyKey" by (simp_all add: kEmptyKey_def)
  obtain m1 where m1: "fm_insert 42 7 m = Some (True, m1)" "fm_wf m1" "fm_map m1 = [42 \<mapsto> 7]" "fm_capacity m1 = 4"
    using fm_insert_ok [OF m(2) k(1), of 7] m(3) c demo_map(2) by (auto simp: fm_full_def)
  have "unat (fm_size m1) = 1" using fm_card [OF m1(2)] m1(3) by simp
  then have "fm_size m1 = 1" by (simp add: word_unat_eq_iff)
  then obtain m2 where m2: "fm_insert 46 8 m1 = Some (True, m2)" "fm_wf m2" "fm_map m2 = [42 \<mapsto> 7, 46 \<mapsto> 8]"
      "fm_capacity m2 = 4"
    using fm_insert_ok [OF m1(2) k(2), of 8] m1(3,4) demo_map(3) by (auto simp: fm_full_def)
  obtain m3 where m3: "fm_erase 42 m2 = Some (True, m3)" "fm_wf m3" "fm_map m3 = [46 \<mapsto> 8]"
      "fm_find m3 42 = Some kEmpty"
    using hash_map_erase [OF m2(2) k(1)] m2(3) k(1) by (auto simp: fun_upd_twist)
  moreover have "fm_hash 42 AND fm_mask m2 = fm_hash 46 AND fm_mask m2"
  proof -
    have "fm_sized m2" by (rule fm_base_sized [OF fm_wf_base [OF m2(2)]])
    then have "fm_mask m2 = 3" using m2(4) by (auto simp: fm_sized_def mask_eq_exp_minus_1)
    then show ?thesis by (simp add: fm_hash_def)
  qed
  moreover have "fm_find m3 46 = Some 8"
    using order_index.get_eq [OF m3(2), of 46] m3(3) by simp
  ultimately show ?thesis using m m1 m2 by blast
qed

text \<open>A table built for \<open>n\<close> entries has as capacity the power of two next above \<open>n\<close>, is
  empty and well-formed.\<close>

theorem hash_map_new:
  assumes "0 < n" "unat n \<le> 2 ^ 63"
  shows "\<exists>m. fm_new n = Some m \<and> fm_wf m \<and> fm_map m = Map.empty \<and> fm_empty m \<and>
    unat n \<le> unat (fm_capacity m) \<and> unat (fm_capacity m) < 2 * unat n"
  using fm_new_ok [OF assms] fm_card by (auto simp: fm_empty_def fm_new_def split: bind_splits)

theorem hash_map_new_witness: "\<exists>m. fm_new 1000 = Some m \<and> fm_wf m \<and> 1000 \<le> unat (fm_capacity m)"
  using hash_map_new [of 1000] by auto

end
