(* ===== verification/TC_Book_Update.thy ===== *)
theory TC_Book_Update
  imports TC_Prelude
begin

text \<open>
  \<open>parser/book_update.hpp\<close>: the canonical message between the parser, the validator, the replay
  engine and the order book. \<open>UpdateType\<close> is an 8-bit enumeration that the code also builds from
  arbitrary bytes, so it is kept as a byte with named values.
\<close>

type_synonym update_type = u8

definition AddOrder :: update_type where "AddOrder = 1"
definition ModifyOrder :: update_type where "ModifyOrder = 2"
definition CancelOrder :: update_type where "CancelOrder = 3"
definition DeleteOrder :: update_type where "DeleteOrder = 4"
definition ExecuteOrder :: update_type where "ExecuteOrder = 5"
definition ExecuteOrderWithPrice :: update_type where "ExecuteOrderWithPrice = 6"
definition TradeMessage :: update_type where "TradeMessage = 7"
definition SystemEvent :: update_type where "SystemEvent = 8"

lemmas update_type_defs = AddOrder_def ModifyOrder_def CancelOrder_def DeleteOrder_def
  ExecuteOrder_def ExecuteOrderWithPrice_def TradeMessage_def SystemEvent_def

record book_update =
  upd_type :: update_type
  upd_side :: u8
  upd_symbol :: u16
  upd_price :: u32
  upd_qty :: u32
  upd_remaining_qty :: u32
  upd_timestamp_ns :: u64
  upd_order_id :: u64
  upd_match_id :: u64
  upd_flags :: u8

text \<open>The value-initialised message \<open>BookUpdate{}\<close>.\<close>

definition book_update_init :: book_update where
  "book_update_init = \<lparr>upd_type = 0, upd_side = 0, upd_symbol = 0, upd_price = 0, upd_qty = 0,
     upd_remaining_qty = 0, upd_timestamp_ns = 0, upd_order_id = 0, upd_match_id = 0, upd_flags = 0\<rparr>"

end
