(* ===== verification/TC_Order_Book.thy ===== *)
theory TC_Order_Book
  imports TC_Book_Side TC_Flat_Hash_Map TC_Book_Update
begin

text \<open>
  \<open>orderbook/order.hpp\<close>, \<open>order_pool.hpp\<close> and \<open>order_book.hpp\<close>: the order book. It owns the pool of
  orders, the pool of levels, the index from order ids to order slots and the two sides. The
  queue of a level is a list linked through \<open>next_in_level\<close>. Each operation is written with the
  reads and writes of the code, in their order; the debug-only \<open>verify()\<close> at the end of the
  public operations reads the book and is not part of these definitions.
\<close>

section \<open>Orders\<close>

datatype order_state = Active | Partial | Filled | Canceled

record order =
  ord_id :: u64
  ord_timestamp_ns :: u64
  ord_price :: u32
  ord_qty :: u32
  ord_remaining_qty :: u32
  ord_filled_qty :: u32
  ord_next_in_level :: u32
  ord_prev_in_level :: u32
  ord_symbol :: u16
  ord_side :: u8
  ord_type :: u8
  ord_state :: order_state
  ord_flags :: u8

definition order_init :: order where
  "order_init = \<lparr>ord_id = 0, ord_timestamp_ns = 0, ord_price = 0, ord_qty = 0,
     ord_remaining_qty = 0, ord_filled_qty = 0, ord_next_in_level = 0, ord_prev_in_level = 0,
     ord_symbol = 0, ord_side = 0, ord_type = 0, ord_state = Active, ord_flags = 0\<rparr>"

type_synonym order_pool = "order object_pool"

definition order_allocate :: "order_pool \<Rightarrow> (u32 option \<times> order_pool) option" where
  "order_allocate = pool_allocate order_init"

section \<open>The book\<close>

record order_book =
  ob_orders :: order_pool
  ob_levels :: level_pool
  ob_index :: flat_hash_map
  ob_bids :: book_side
  ob_asks :: book_side
  ob_stats :: avl_statistics

definition order_book_new :: "nat \<Rightarrow> nat \<Rightarrow> order_book option" where
  "order_book_new max_orders max_levels = do {
     orders \<leftarrow> pool_new max_orders;
     levels \<leftarrow> pool_new max_levels;
     index \<leftarrow> fm_new (word_of_nat max_orders);
     Some \<lparr>ob_orders = orders, ob_levels = levels, ob_index = index, ob_bids = book_side_new 0,
           ob_asks = book_side_new 1, ob_stats = stats_init\<rparr>
   }"

text \<open>\<open>(side == 0) ? bids_ : asks_\<close>, and writing through that reference.\<close>

definition get_side :: "order_book \<Rightarrow> u8 \<Rightarrow> book_side" where
  "get_side b s = (if s = 0 then ob_bids b else ob_asks b)"

definition put_side :: "u8 \<Rightarrow> book_side \<Rightarrow> order_book \<Rightarrow> order_book" where
  "put_side s sd b = (if s = 0 then b\<lparr>ob_bids := sd\<rparr> else b\<lparr>ob_asks := sd\<rparr>)"

text \<open>Finding the level of a price, or creating and inserting it.\<close>

definition level_for :: "u8 \<Rightarrow> u32 \<Rightarrow> order_book \<Rightarrow> (u32 \<times> order_book) option" where
  "level_for s price b = do {
     level_idx \<leftarrow> find_by_price (get_side b s) (ob_levels b) price;
     if level_idx = kInvalidPoolIndex then do {
       (level_idx, levels) \<leftarrow> create_level (get_side b s) price (ob_levels b);
       tc_assert (level_idx \<noteq> kInvalidPoolIndex);
       (sd, levels, stats) \<leftarrow> insert_level level_idx (get_side b s) levels (ob_stats b);
       Some (level_idx, put_side s sd (b\<lparr>ob_levels := levels, ob_stats := stats\<rparr>))
     } else do {
       _ \<leftarrow> pool_at (ob_levels b) level_idx;
       Some (level_idx, b)
     }
   }"

text \<open>Linking an order at the end of a level's queue.\<close>

definition enqueue :: "u32 \<Rightarrow> u32 \<Rightarrow> u32 \<Rightarrow> order_book \<Rightarrow> order_book option" where
  "enqueue level_idx order_idx qty b = do {
     lvl \<leftarrow> pool_at (ob_levels b) level_idx;
     b \<leftarrow> (if pl_tail_order_idx lvl \<noteq> kInvalidPoolIndex then do {
         orders \<leftarrow> pool_update (ob_orders b) (pl_tail_order_idx lvl) (\<lambda>r. r\<lparr>ord_next_in_level := order_idx\<rparr>);
         Some (b\<lparr>ob_orders := orders\<rparr>)
       } else do {
         levels \<leftarrow> pool_update (ob_levels b) level_idx (\<lambda>l. l\<lparr>pl_head_order_idx := order_idx\<rparr>);
         Some (b\<lparr>ob_levels := levels\<rparr>)
       });
     levels \<leftarrow> pool_update (ob_levels b) level_idx (\<lambda>l. l\<lparr>pl_tail_order_idx := order_idx\<rparr>);
     levels \<leftarrow> pool_update levels level_idx (\<lambda>l. l\<lparr>pl_total_qty := pl_total_qty l + qty,
       pl_order_count := pl_order_count l + 1\<rparr>);
     Some (b\<lparr>ob_levels := levels\<rparr>)
   }"

definition add_order :: "book_update \<Rightarrow> order_book \<Rightarrow> order_book option" where
  "add_order upd b = do {
     tc_assert (upd_qty upd > 0);
     tc_assert (upd_price upd > 0);
     c \<leftarrow> fm_contains (ob_index b) (upd_order_id upd);
     tc_assert (\<not> c);
     (level_idx, b) \<leftarrow> level_for (upd_side upd) (upd_price upd) b;
     (ptr, orders) \<leftarrow> order_allocate (ob_orders b);
     order_idx \<leftarrow> ptr;
     orders \<leftarrow> pool_update orders order_idx (\<lambda>r. r\<lparr>ord_id := upd_order_id upd,
       ord_price := upd_price upd, ord_remaining_qty := upd_qty upd,
       ord_timestamp_ns := upd_timestamp_ns upd, ord_next_in_level := kInvalidPoolIndex,
       ord_side := upd_side upd\<rparr>);
     (inserted, index) \<leftarrow> fm_insert (upd_order_id upd) order_idx (ob_index b);
     tc_assert inserted;
     enqueue level_idx order_idx (upd_qty upd) (b\<lparr>ob_orders := orders, ob_index := index\<rparr>)
   }"

text \<open>The loop of \<open>delete_order_internal\<close> that looks for the predecessor of the order.\<close>

partial_function (option) unlink_loop :: "u32 \<Rightarrow> u32 \<Rightarrow> u32 \<Rightarrow> order_book \<Rightarrow> order_book option" where
  "unlink_loop order_idx level_idx cur b = (if cur \<noteq> kInvalidPoolIndex then do {
       cur_order \<leftarrow> pool_at (ob_orders b) cur;
       if ord_next_in_level cur_order = order_idx then do {
         ord \<leftarrow> pool_at (ob_orders b) order_idx;
         orders \<leftarrow> pool_update (ob_orders b) cur
           (\<lambda>r. r\<lparr>ord_next_in_level := ord_next_in_level ord\<rparr>);
         ord \<leftarrow> pool_at orders order_idx;
         levels \<leftarrow> (if ord_next_in_level ord = kInvalidPoolIndex
           then pool_update (ob_levels b) level_idx (\<lambda>l. l\<lparr>pl_tail_order_idx := cur\<rparr>)
           else Some (ob_levels b));
         Some (b\<lparr>ob_orders := orders, ob_levels := levels\<rparr>)
       } else unlink_loop order_idx level_idx (ord_next_in_level cur_order) b
     } else Some b)"

definition unlink_order :: "u32 \<Rightarrow> u32 \<Rightarrow> order_book \<Rightarrow> order_book option" where
  "unlink_order order_idx level_idx b = do {
     lvl \<leftarrow> pool_at (ob_levels b) level_idx;
     if pl_head_order_idx lvl = order_idx then do {
       ord \<leftarrow> pool_at (ob_orders b) order_idx;
       levels \<leftarrow> pool_update (ob_levels b) level_idx
         (\<lambda>l. l\<lparr>pl_head_order_idx := ord_next_in_level ord\<rparr>);
       levels \<leftarrow> (if ord_next_in_level ord = kInvalidPoolIndex
         then pool_update levels level_idx (\<lambda>l. l\<lparr>pl_tail_order_idx := kInvalidPoolIndex\<rparr>)
         else Some levels);
       Some (b\<lparr>ob_levels := levels\<rparr>)
     } else unlink_loop order_idx level_idx (pl_head_order_idx lvl) b
   }"

definition delete_order_internal :: "u32 \<Rightarrow> u8 \<Rightarrow> u32 \<Rightarrow> order_book \<Rightarrow> order_book option" where
  "delete_order_internal order_idx s level_idx b = do {
     ord \<leftarrow> pool_at (ob_orders b) order_idx;
     (_, index) \<leftarrow> fm_erase (ord_id ord) (ob_index b);
     b \<leftarrow> unlink_order order_idx level_idx (b\<lparr>ob_index := index\<rparr>);
     levels \<leftarrow> pool_update (ob_levels b) level_idx (\<lambda>l. l\<lparr>pl_order_count := pl_order_count l - 1\<rparr>);
     orders \<leftarrow> pool_deallocate order_idx (ob_orders b);
     let b = b\<lparr>ob_levels := levels, ob_orders := orders\<rparr>;
     lvl \<leftarrow> pool_at (ob_levels b) level_idx;
     if pl_order_count lvl = 0 then do {
       (sd, levels, stats) \<leftarrow> remove_and_destroy_level level_idx (get_side b s) (ob_levels b) (ob_stats b);
       Some (put_side s sd (b\<lparr>ob_levels := levels, ob_stats := stats\<rparr>))
     } else Some b
   }"

definition cancel_order :: "book_update \<Rightarrow> order_book \<Rightarrow> order_book option" where
  "cancel_order upd b = do {
     order_idx \<leftarrow> fm_find (ob_index b) (upd_order_id upd);
     tc_assert (order_idx \<noteq> kEmpty);
     ord \<leftarrow> pool_at (ob_orders b) order_idx;
     tc_assert (upd_qty upd \<le> ord_remaining_qty ord);
     orders \<leftarrow> pool_update (ob_orders b) order_idx
       (\<lambda>r. r\<lparr>ord_remaining_qty := ord_remaining_qty r - upd_qty upd\<rparr>);
     let b = b\<lparr>ob_orders := orders\<rparr>;
     level_idx \<leftarrow> find_by_price (get_side b (ord_side ord)) (ob_levels b) (ord_price ord);
     tc_assert (level_idx \<noteq> kInvalidPoolIndex);
     levels \<leftarrow> pool_update (ob_levels b) level_idx
       (\<lambda>l. l\<lparr>pl_total_qty := pl_total_qty l - upd_qty upd\<rparr>);
     let b = b\<lparr>ob_levels := levels\<rparr>;
     ord \<leftarrow> pool_at (ob_orders b) order_idx;
     if ord_remaining_qty ord = 0 then delete_order_internal order_idx (ord_side ord) level_idx b
     else Some b
   }"

definition execute_order :: "book_update \<Rightarrow> order_book \<Rightarrow> order_book option" where
  "execute_order upd b = cancel_order upd b"

definition delete_order :: "book_update \<Rightarrow> order_book \<Rightarrow> order_book option" where
  "delete_order upd b = do {
     order_idx \<leftarrow> fm_find (ob_index b) (upd_order_id upd);
     tc_assert (order_idx \<noteq> kEmpty);
     ord \<leftarrow> pool_at (ob_orders b) order_idx;
     level_idx \<leftarrow> find_by_price (get_side b (ord_side ord)) (ob_levels b) (ord_price ord);
     tc_assert (level_idx \<noteq> kInvalidPoolIndex);
     levels \<leftarrow> pool_update (ob_levels b) level_idx
       (\<lambda>l. l\<lparr>pl_total_qty := pl_total_qty l - ord_remaining_qty ord\<rparr>);
     delete_order_internal order_idx (ord_side ord) level_idx (b\<lparr>ob_levels := levels\<rparr>)
   }"

definition replace_order :: "book_update \<Rightarrow> order_book \<Rightarrow> order_book option" where
  "replace_order upd b = do {
     b \<leftarrow> delete_order upd b;
     add_order (upd\<lparr>upd_order_id := upd_match_id upd\<rparr>) b
   }"

definition modify_order :: "book_update \<Rightarrow> order_book \<Rightarrow> order_book option" where
  "modify_order upd b = do {
     order_idx \<leftarrow> fm_find (ob_index b) (upd_order_id upd);
     tc_assert (order_idx \<noteq> kEmpty);
     ord \<leftarrow> pool_at (ob_orders b) order_idx;
     if upd_qty upd < ord_remaining_qty ord
     then cancel_order (upd\<lparr>upd_qty := ord_remaining_qty ord - upd_qty upd\<rparr>) b
     else if upd_qty upd > ord_remaining_qty ord then do {
       b \<leftarrow> delete_order upd b;
       add_order (upd\<lparr>upd_price := ord_price ord, upd_side := ord_side ord\<rparr>) b
     } else Some b
   }"

definition ignore_update :: "book_update \<Rightarrow> order_book \<Rightarrow> order_book option" where
  "ignore_update upd b = Some b"

text \<open>
  The dispatch table. \<open>UpdateType::ReplaceOrder\<close> is used by the table but is not an enumerator of
  \<open>UpdateType\<close>; its value is a parameter. The writes are in the order of the code.
\<close>

definition dispatch_table :: "update_type \<Rightarrow> update_type \<Rightarrow> book_update \<Rightarrow> order_book \<Rightarrow> order_book option" where
  "dispatch_table replace_type = (\<lambda>_. ignore_update)(AddOrder := add_order,
     CancelOrder := cancel_order, ExecuteOrder := execute_order, DeleteOrder := delete_order,
     replace_type := replace_order, ModifyOrder := modify_order)"

definition dispatch :: "update_type \<Rightarrow> book_update \<Rightarrow> order_book \<Rightarrow> order_book option" where
  "dispatch replace_type upd b = dispatch_table replace_type (upd_type upd) upd b"

end
