(* ===== verification/TC_Order_Book_Inv.thy ===== *)
theory TC_Order_Book_Inv
  imports TC_Order_Book
begin

text \<open>
  The invariant of the order book. \<open>chain\<close> says that a pool of orders links a queue from a head
  index; \<open>queue_ok\<close> ties a level to its queue; \<open>book_core\<close> puts the two sides, the two pools and
  the index together. \<open>T\<close> gives the tree of each side (true for bids), \<open>Q\<close> the queue of each
  level. Quantities, non-empty queues and positive orders are separate predicates, because the
  operations break and repair them on the way.
\<close>

section \<open>Queues linked through the orders\<close>

fun chain :: "(u32 \<Rightarrow> order option) \<Rightarrow> u32 \<Rightarrow> u32 list \<Rightarrow> bool" where
  "chain h i [] = (i = kInvalidPoolIndex)"
| "chain h i (x # xs) = (i = x \<and> x \<noteq> kInvalidPoolIndex \<and>
     (\<exists>ord. h x = Some ord \<and> chain h (ord_next_in_level ord) xs))"

lemma chain_frame:
  "chain h i xs \<Longrightarrow> (\<And>x. x \<in> set xs \<Longrightarrow> map_option ord_next_in_level (h' x) = map_option ord_next_in_level (h x)) \<Longrightarrow>
     chain h' i xs"
proof (induction xs arbitrary: i)
  case (Cons x xs)
  then obtain r where r: "h x = Some r" "chain h (ord_next_in_level r) xs" "i = x" "x \<noteq> kInvalidPoolIndex"
    by auto
  have "map_option ord_next_in_level (h' x) = Some (ord_next_in_level r)" using Cons.prems(2) [of x] r(1) by simp
  then obtain r' where "h' x = Some r'" "ord_next_in_level r' = ord_next_in_level r" by auto
  moreover have "chain h' (ord_next_in_level r) xs" using Cons r by simp
  ultimately show ?case using r by simp
qed simp

lemma chain_live: "chain h i xs \<Longrightarrow> x \<in> set xs \<Longrightarrow> x \<noteq> kInvalidPoolIndex \<and> x \<in> dom h"
  by (induction xs arbitrary: i) auto

lemma chain_Nil_iff: "chain h i xs \<Longrightarrow> i = kInvalidPoolIndex \<longleftrightarrow> xs = []"
  by (cases xs) auto

lemma chain_hd: "chain h i xs \<Longrightarrow> xs \<noteq> [] \<Longrightarrow> i = hd xs"
  by (cases xs) auto

lemma chain_snoc:
  assumes "chain h i xs" "xs \<noteq> []" "distinct xs" "n \<noteq> kInvalidPoolIndex"
    and "h (last xs) = Some ord" "h' (last xs) = Some (ord\<lparr>ord_next_in_level := n\<rparr>)"
    and "h' n = Some nord" "ord_next_in_level nord = kInvalidPoolIndex"
    and "\<And>x. x \<in> set xs \<Longrightarrow> x \<noteq> last xs \<Longrightarrow> h' x = h x"
  shows "chain h' i (xs @ [n])"
  using assms
proof (induction xs arbitrary: i)
  case (Cons x xs)
  show ?case
  proof (cases "xs = []")
    case True
    then show ?thesis using Cons.prems by auto
  next
    case False
    obtain r where r: "h x = Some r" "chain h (ord_next_in_level r) xs" "i = x" "x \<noteq> kInvalidPoolIndex"
      using Cons.prems(1) by auto
    have "x \<noteq> last xs" using False Cons.prems(3) by auto
    then have "h' x = Some r" using Cons.prems(9) [of x] False r(1) by simp
    moreover have "chain h' (ord_next_in_level r) (xs @ [n])"
      by (rule Cons.IH [OF r(2) False]) (use Cons.prems False in simp_all)
    ultimately show ?thesis using r(3,4) by simp
  qed
qed simp

text \<open>Taking an order out of the middle: its predecessor takes over its link.\<close>

lemma chain_unlink:
  assumes "chain h i (ys @ p # n # zs)" "distinct (ys @ p # n # zs)" "h p = Some rp" "h n = Some rn"
    and "h' p = Some (rp\<lparr>ord_next_in_level := ord_next_in_level rn\<rparr>)"
    and "\<And>x. x \<in> set (ys @ zs) \<Longrightarrow> h' x = h x"
  shows "chain h' i (ys @ p # zs)"
  using assms
proof (induction ys arbitrary: i)
  case Nil
  then have "chain h (ord_next_in_level rn) zs" by auto
  then have "chain h' (ord_next_in_level rn) zs" by (rule chain_frame) (use Nil in simp)
  with Nil show ?case by auto
next
  case (Cons y ys)
  obtain r where r: "h y = Some r" "chain h (ord_next_in_level r) (ys @ p # n # zs)" "i = y" "y \<noteq> kInvalidPoolIndex"
    using Cons.prems(1) by auto
  have "chain h' (ord_next_in_level r) (ys @ p # zs)"
    by (rule Cons.IH [OF r(2)]) (use Cons.prems in simp_all)
  moreover have "h' y = Some r" using Cons.prems(6) r(1) by simp
  ultimately show ?case using r(3,4) by simp
qed

definition last_or_invalid :: "u32 list \<Rightarrow> u32" where
  "last_or_invalid xs = (if xs = [] then kInvalidPoolIndex else last xs)"

section \<open>A level and its queue\<close>

definition queue_ok :: "(u32 \<Rightarrow> order option) \<Rightarrow> price_level \<Rightarrow> u32 list \<Rightarrow> bool" where
  "queue_ok h l xs \<longleftrightarrow> chain h (pl_head_order_idx l) xs \<and> distinct xs \<and>
     pl_tail_order_idx l = last_or_invalid xs \<and> unat (pl_order_count l) = length xs \<and>
     (\<forall>x \<in> set xs. \<exists>ord. h x = Some ord \<and> ord_price ord = pl_price l \<and>
        (ord_side ord = 0 \<longleftrightarrow> pl_side l = 0))"

definition remaining :: "(u32 \<Rightarrow> order option) \<Rightarrow> u32 \<Rightarrow> u32" where
  "remaining h x = (case h x of Some ord \<Rightarrow> ord_remaining_qty ord | None \<Rightarrow> 0)"

lemma remaining_Some [simp]: "h x = Some ord \<Longrightarrow> remaining h x = ord_remaining_qty ord"
  by (simp add: remaining_def)

definition link_key :: "order \<Rightarrow> u32 \<times> u32 \<times> u8" where
  "link_key ord = (ord_next_in_level ord, ord_price ord, ord_side ord)"

lemma queue_ok_frame:
  assumes q: "queue_ok h l xs"
    and k: "\<And>x. x \<in> set xs \<Longrightarrow> map_option link_key (h' x) = map_option link_key (h x)"
  shows "queue_ok h' l xs"
proof -
  have ex: "\<exists>r'. h' x = Some r' \<and> ord_next_in_level r' = ord_next_in_level r \<and> ord_price r' = ord_price r \<and>
      ord_side r' = ord_side r" if "x \<in> set xs" "h x = Some r" for x r
    using k [OF that(1)] that(2) by (auto simp: link_key_def)
  have live: "h x \<noteq> None" if "x \<in> set xs" for x using q that by (auto simp: queue_ok_def)
  have "chain h' (pl_head_order_idx l) xs"
  proof (rule chain_frame)
    show "chain h (pl_head_order_idx l) xs" using q by (simp add: queue_ok_def)
    fix x assume "x \<in> set xs"
    with ex live show "map_option ord_next_in_level (h' x) = map_option ord_next_in_level (h x)" by fastforce
  qed
  moreover have "\<exists>ord. h' x = Some ord \<and> ord_price ord = pl_price l \<and> (ord_side ord = 0 \<longleftrightarrow> pl_side l = 0)"
    if x: "x \<in> set xs" for x
  proof -
    obtain r where "h x = Some r" "ord_price r = pl_price l" "ord_side r = 0 \<longleftrightarrow> pl_side l = 0"
      using q x by (auto simp: queue_ok_def)
    with ex [OF x] show ?thesis by fastforce
  qed
  ultimately show ?thesis using q by (simp add: queue_ok_def)
qed

lemma queue_ok_data: "queue_ok h l xs \<Longrightarrow> pl_data l' = pl_data l \<Longrightarrow> queue_ok h l' xs"
  by (auto simp: queue_ok_def pl_data_def)

section \<open>The book\<close>

definition sides :: "order_book \<Rightarrow> bool \<Rightarrow> book_side" where
  "sides b s = (if s then ob_bids b else ob_asks b)"

lemma get_side_sides: "get_side b s = sides b (s = 0)"
  by (simp add: get_side_def sides_def)

lemma sides_put_side [simp]: "sides (put_side s sd b) = (sides b)(s = 0 := sd)"
  by (auto simp: sides_def put_side_def fun_eq_iff)

lemma put_side_simps [simp]:
  "ob_orders (put_side s sd b) = ob_orders b" "ob_levels (put_side s sd b) = ob_levels b"
  "ob_index (put_side s sd b) = ob_index b" "ob_stats (put_side s sd b) = ob_stats b"
  by (simp_all add: put_side_def)

lemma sides_update [simp]:
  "sides (b\<lparr>ob_orders := x\<rparr>) = sides b" "sides (b\<lparr>ob_levels := y\<rparr>) = sides b"
  "sides (b\<lparr>ob_index := z\<rparr>) = sides b" "sides (b\<lparr>ob_stats := w\<rparr>) = sides b"
  by (simp_all add: sides_def fun_eq_iff)

abbreviation ords :: "order_book \<Rightarrow> u32 \<Rightarrow> order option" where
  "ords b \<equiv> pool_at (ob_orders b)"

abbreviation lvls :: "order_book \<Rightarrow> u32 \<Rightarrow> price_level option" where
  "lvls b \<equiv> pool_at (ob_levels b)"

definition pools_ok :: "order_book \<Rightarrow> bool" where
  "pools_ok b \<longleftrightarrow> pool_wf (ob_orders b) \<and> pool_wf (ob_levels b) \<and> fm_wf (ob_index b)"

definition trees_ok :: "order_book \<Rightarrow> (bool \<Rightarrow> u32 tree) \<Rightarrow> bool" where
  "trees_ok b T \<longleftrightarrow> (\<forall>s. side_rep (sides b s) (ob_levels b) (T s) \<and> bs_side (sides b s) = (if s then 0 else 1)) \<and>
     set_tree (T True) \<inter> set_tree (T False) = {} \<and>
     dom (lvls b) = set_tree (T True) \<union> set_tree (T False)"

definition queues_ok :: "order_book \<Rightarrow> (u32 \<Rightarrow> u32 list) \<Rightarrow> bool" where
  "queues_ok b Q \<longleftrightarrow> (\<forall>j l. lvls b j = Some l \<longrightarrow> queue_ok (ords b) l (Q j)) \<and>
     (\<forall>i \<in> dom (lvls b). \<forall>j \<in> dom (lvls b). i \<noteq> j \<longrightarrow> set (Q i) \<inter> set (Q j) = {}) \<and>
     (\<Union>j \<in> dom (lvls b). set (Q j)) = dom (ords b)"

definition index_ok :: "order_book \<Rightarrow> bool" where
  "index_ok b \<longleftrightarrow> (\<forall>k i. fm_map (ob_index b) k = Some i \<longleftrightarrow> (\<exists>ord. ords b i = Some ord \<and> ord_id ord = k))"

definition book_core :: "order_book \<Rightarrow> (bool \<Rightarrow> u32 tree) \<Rightarrow> (u32 \<Rightarrow> u32 list) \<Rightarrow> bool" where
  "book_core b T Q \<longleftrightarrow> pools_ok b \<and> trees_ok b T \<and> queues_ok b Q \<and> index_ok b"

definition totals_ok :: "order_book \<Rightarrow> (u32 \<Rightarrow> u32 list) \<Rightarrow> bool" where
  "totals_ok b Q \<longleftrightarrow> (\<forall>j l. lvls b j = Some l \<longrightarrow>
     pl_total_qty l = sum_list (map (remaining (ords b)) (Q j)))"

definition positive_ok :: "order_book \<Rightarrow> bool" where
  "positive_ok b \<longleftrightarrow> (\<forall>i ord. ords b i = Some ord \<longrightarrow>
     0 < ord_remaining_qty ord \<and> 0 < ord_price ord)"

definition busy_ok :: "order_book \<Rightarrow> (u32 \<Rightarrow> u32 list) \<Rightarrow> bool" where
  "busy_ok b Q \<longleftrightarrow> (\<forall>j \<in> dom (lvls b). Q j \<noteq> [])"

definition book_inv :: "order_book \<Rightarrow> (bool \<Rightarrow> u32 tree) \<Rightarrow> (u32 \<Rightarrow> u32 list) \<Rightarrow> bool" where
  "book_inv b T Q \<longleftrightarrow> book_core b T Q \<and> totals_ok b Q \<and> positive_ok b \<and> busy_ok b Q"

section \<open>The abstract book\<close>

text \<open>
  What the book promises: on each side, for each price, a queue of orders in time priority. A
  price without a level has the empty queue.
\<close>

record resting =
  rs_id :: u64
  rs_qty :: u32
  rs_time :: u64

type_synonym abs_book = "bool \<Rightarrow> u32 \<Rightarrow> resting list"

definition resting_of :: "(u32 \<Rightarrow> order option) \<Rightarrow> u32 \<Rightarrow> resting" where
  "resting_of h x = (case h x of
     Some ord \<Rightarrow> \<lparr>rs_id = ord_id ord, rs_qty = ord_remaining_qty ord, rs_time = ord_timestamp_ns ord\<rparr>
   | None \<Rightarrow> \<lparr>rs_id = 0, rs_qty = 0, rs_time = 0\<rparr>)"

definition abs_of :: "order_book \<Rightarrow> (bool \<Rightarrow> u32 tree) \<Rightarrow> (u32 \<Rightarrow> u32 list) \<Rightarrow> abs_book" where
  "abs_of b T Q s p = (case tfind (price_of (ob_levels b)) p (T s) of None \<Rightarrow> []
     | Some j \<Rightarrow> map (resting_of (ords b)) (Q j))"

definition a_add :: "bool \<Rightarrow> u32 \<Rightarrow> resting \<Rightarrow> abs_book \<Rightarrow> abs_book" where
  "a_add s p r B = B(s := (B s)(p := B s p @ [r]))"

definition a_delete :: "u64 \<Rightarrow> abs_book \<Rightarrow> abs_book" where
  "a_delete k B = (\<lambda>s p. filter (\<lambda>r. rs_id r \<noteq> k) (B s p))"

definition a_reduce :: "u64 \<Rightarrow> u32 \<Rightarrow> abs_book \<Rightarrow> abs_book" where
  "a_reduce k q B = (\<lambda>s p. filter (\<lambda>r. rs_qty r \<noteq> 0)
     (map (\<lambda>r. if rs_id r = k then r\<lparr>rs_qty := rs_qty r - q\<rparr> else r) (B s p)))"

definition book_rep :: "order_book \<Rightarrow> abs_book \<Rightarrow> bool" where
  "book_rep b B \<longleftrightarrow> (\<exists>T Q. book_inv b T Q \<and> B = abs_of b T Q)"

end
