(* ===== verification/TC_Order_Book_Refine.thy ===== *)
theory TC_Order_Book_Refine
  imports TC_Order_Book_Inv
begin

text \<open>
  The operations of the order book compute the abstract operations on the queues of prices and
  keep the invariant.
\<close>

section \<open>Levels\<close>

lemma trees_okD:
  assumes "trees_ok b T"
  shows "side_rep (sides b s) (ob_levels b) (T s)" "bs_side (sides b s) = (if s then 0 else 1)"
    "j \<in> set_tree (T s) \<Longrightarrow> j \<notin> set_tree (T (\<not> s))" "set_tree (T s) \<subseteq> dom (lvls b)"
    "dom (lvls b) = set_tree (T s) \<union> set_tree (T (\<not> s))"
  using assms by (cases s; auto simp: trees_ok_def)+

lemma level_key_frame:
  "node_frame S p q \<Longrightarrow> j \<notin> S \<Longrightarrow> map_option level_key (pool_at q j) = map_option level_key (pool_at p j)"
  by (simp add: node_frame_at)

lemma tfind_price_cong:
  assumes "\<And>j. j \<in> set_tree t \<Longrightarrow> map_option pl_price (pool_at q j) = map_option pl_price (pool_at p j)"
  shows "tfind (price_of q) pr t = tfind (price_of p) pr t"
proof (rule tfind_cong)
  fix j assume "j \<in> set_tree t"
  from assms [OF this] show "price_of q j = price_of p j"
    by (cases "pool_at q j"; cases "pool_at p j") (simp_all add: price_of_def)
qed

lemma level_key_price: "map_option level_key x = map_option level_key y \<Longrightarrow> map_option pl_price x = map_option pl_price y"
  by (cases x; cases y) (simp_all add: level_key_def)

lemma queue_at:
  assumes "queues_ok b Q" "lvls b j = Some l"
  shows "queue_ok (ords b) l (Q j)" "set (Q j) \<subseteq> dom (ords b)"
proof -
  show "queue_ok (ords b) l (Q j)" using assms by (simp add: queues_ok_def)
  have "set (Q j) \<subseteq> (\<Union>i \<in> dom (lvls b). set (Q i))" using assms(2) by blast
  then show "set (Q j) \<subseteq> dom (ords b)" using assms(1) by (simp add: queues_ok_def)
qed

text \<open>A fresh level has the empty queue.\<close>

lemma queue_ok_fresh: "queue_ok h (fresh_level b p) []"
  by (simp add: queue_ok_def fresh_level_def price_level_init_def last_or_invalid_def)

text \<open>Replacing the tree of one side keeps the trees, when the levels of the other side keep their keys.\<close>

lemma trees_ok_replace:
  assumes T: "trees_ok b T" and new: "side_rep sd' q t" "bs_side sd' = bs_side (sides b s)"
    and other: "\<And>k. k \<in> set_tree (T (\<not> s)) \<Longrightarrow> map_option level_key (pool_at q k) = map_option level_key (lvls b k)"
    and dom: "set_tree t \<inter> set_tree (T (\<not> s)) = {}" "dom (pool_at q) = set_tree t \<union> set_tree (T (\<not> s))"
    and b': "sides b' = (sides b)(s := sd')" "ob_levels b' = q"
  shows "trees_ok b' (T(s := t))"
proof -
  have "side_rep (sides b' u) q ((T(s := t)) u)" for u
  proof (cases "u = s")
    case False
    then have "u = (\<not> s)" by auto
    then show ?thesis using side_rep_frame [OF trees_okD(1) [OF T] other] False by (simp add: b'(1))
  qed (use new(1) in \<open>simp add: b'(1)\<close>)
  moreover have "bs_side (sides b' u) = (if u then 0 else 1)" for u
    using trees_okD(2) [OF T] new(2) by (simp add: b'(1))
  moreover have "set_tree ((T(s := t)) True) \<inter> set_tree ((T(s := t)) False) = {}"
    "dom (pool_at q) = set_tree ((T(s := t)) True) \<union> set_tree ((T(s := t)) False)"
    using dom by (cases s; auto)+
  ultimately show ?thesis by (simp add: trees_ok_def b'(2))
qed

text \<open>A book \<open>b'\<close> whose levels have the data of those of \<open>b\<close> and one fresh level \<open>j\<close>.\<close>

definition fresh_data :: "order_book \<Rightarrow> u32 \<Rightarrow> price_level \<Rightarrow> order_book \<Rightarrow> bool" where
  "fresh_data b j f b' \<longleftrightarrow> ob_orders b' = ob_orders b \<and> lvls b j = None \<and>
     (\<forall>k. map_option pl_data (lvls b' k) = map_option pl_data (((lvls b)(j \<mapsto> f)) k))"

lemma fresh_data_at:
  assumes "fresh_data b j f b'" "lvls b' k = Some lk"
  obtains (new) "k = j" "pl_data lk = pl_data f" | (old) l where "k \<noteq> j" "lvls b k = Some l" "pl_data lk = pl_data l"
proof (cases "k = j")
  case True
  then show ?thesis using assms new by (auto simp: fresh_data_def dest!: spec [of _ k])
next
  case False
  have "map_option pl_data (lvls b' k) = map_option pl_data (((lvls b)(j \<mapsto> f)) k)"
    using assms(1) unfolding fresh_data_def by blast
  then have "map_option pl_data (lvls b k) = Some (pl_data lk)" using False assms(2) by simp
  then show ?thesis using False old by (cases "lvls b k") auto
qed

lemma fresh_data_dom: "fresh_data b j f b' \<Longrightarrow> dom (lvls b') = insert j (dom (lvls b))"
proof -
  assume f: "fresh_data b j f b'"
  have "lvls b' k = None \<longleftrightarrow> ((lvls b)(j \<mapsto> f)) k = None" for k
    using f unfolding fresh_data_def by (metis map_option_is_None)
  then have "k \<in> dom (lvls b') \<longleftrightarrow> k \<in> insert j (dom (lvls b))" for k by (auto simp: domIff)
  then show ?thesis by blast
qed

lemma queues_ok_fresh:
  assumes qs: "queues_ok b Q" and f: "fresh_data b j (fresh_level sd p) b'"
  shows "queues_ok b' (Q(j := []))"
proof -
  note dom = fresh_data_dom [OF f]
  have j: "j \<notin> dom (lvls b)" and o: "ob_orders b' = ob_orders b" using f by (auto simp: fresh_data_def)
  have "queue_ok (ords b) lk ((Q(j := [])) k)" if "lvls b' k = Some lk" for k lk
    using f that
  proof (cases rule: fresh_data_at)
    case new
    then show ?thesis using queue_ok_data [OF queue_ok_fresh] by simp
  next
    case (old l)
    then show ?thesis using queue_ok_data [OF queue_at(1) [OF qs]] by simp
  qed
  moreover have "(\<Union>k \<in> dom (lvls b). set ((Q(j := [])) k)) = (\<Union>k \<in> dom (lvls b). set (Q k))"
    by (rule SUP_cong [OF refl]) (use j in auto)
  then have "(\<Union>k \<in> dom (lvls b'). set ((Q(j := [])) k)) = (\<Union>k \<in> dom (lvls b). set (Q k))"
    unfolding dom by simp
  moreover have "set ((Q(j := [])) i) \<inter> set ((Q(j := [])) k) = {}"
    if "i \<in> dom (lvls b')" "k \<in> dom (lvls b')" "i \<noteq> k" for i k
    using that qs unfolding dom queues_ok_def by (cases "i = j"; cases "k = j") simp_all
  ultimately show ?thesis using qs by (simp add: queues_ok_def o)
qed

lemma totals_ok_fresh:
  assumes tot: "totals_ok b Q" and f: "fresh_data b j (fresh_level sd p) b'"
  shows "totals_ok b' (Q(j := []))"
  unfolding totals_ok_def
proof (intro allI impI)
  fix k lk assume "lvls b' k = Some lk"
  with f show "pl_total_qty lk = sum_list (map (remaining (ords b')) ((Q(j := [])) k))"
  proof (cases rule: fresh_data_at)
    case new
    then show ?thesis by (simp add: pl_data_def fresh_level_def price_level_init_def)
  next
    case (old l)
    then show ?thesis using tot f by (simp add: totals_ok_def pl_data_def fresh_data_def)
  qed
qed

lemma abs_of_fresh:
  assumes T: "trees_ok b T" and f: "fresh_data b j (fresh_level sd p) b'" and p: "unat p < 10000"
    "p \<notin> price_of (ob_levels b) ` set_tree (T s)" and t: "t = ains (price_of (ob_levels b')) j (T s)"
    and so: "sorted_by (price_of (ob_levels b')) (inorder (T s))"
  shows "abs_of b' (T(s := t)) (Q(j := [])) = abs_of b T Q"
proof (intro ext)
  fix u pr
  let ?p = "price_of (ob_levels b)" and ?q = "price_of (ob_levels b')"
  have dom: "dom (lvls b') = insert j (dom (lvls b))" by (rule fresh_data_dom [OF f])
  have o: "ob_orders b' = ob_orders b" and jn: "j \<notin> set_tree (T u)" for u
    using f trees_okD(4) [OF T, of u] by (auto simp: fresh_data_def domIff)
  have pq: "?q k = ?p k" if "k \<noteq> j" for k
    using f that by (cases "lvls b' k"; cases "lvls b k")
      (auto simp: fresh_data_def price_of_def pl_data_def dest!: spec [of _ k])
  have pj: "?q j = p"
    using f by (cases "lvls b' j")
      (auto simp: fresh_data_def price_of_def pl_data_def fresh_level_def price_level_init_def dest!: spec [of _ j])
  have im: "?q ` set_tree (T s) = ?p ` set_tree (T s)" by (rule image_cong [OF refl]) (use pq jn [of s] in metis)
  have old: "tfind ?q pr (T u) = tfind ?p pr (T u)" for u by (rule tfind_cong) (use pq jn in metis)
  have new: "tfind ?q pr t = (if pr = p then Some j else tfind ?q pr (T s))"
    using tfind_ains [OF so, of j pr] pj p im by (simp add: t)
  have hit: "tfind ?p pr (T u) = Some i \<Longrightarrow> i \<noteq> j" for i
    using side_find_Some [OF trees_okD(1) [OF T]] jn by metis
  have miss: "tfind ?p p (T s) = None" using side_find_None [OF trees_okD(1) [OF T]] p by simp
  show "abs_of b' (T(s := t)) (Q(j := [])) u pr = abs_of b T Q u pr"
  proof (cases "u = s \<and> pr = p")
    case True
    then show ?thesis using new miss by (simp add: abs_of_def)
  next
    case False
    then have "tfind ?q pr ((T(s := t)) u) = tfind ?p pr (T u)" using old new by (cases "u = s") auto
    then show ?thesis using hit by (simp add: abs_of_def o split: option.splits)
  qed
qed

lemma level_for_new:
  assumes inv: "book_inv b T Q" and p: "unat p < 10000" "p \<notin> price_of (ob_levels b) ` set_tree (T (s = 0))"
    and room: "card (dom (lvls b)) \<noteq> capacity (ob_levels b)"
  shows "\<exists>j b' t. level_for s p b = Some (j, b') \<and> j \<notin> dom (lvls b) \<and>
    book_core b' (T((s = 0) := t)) (Q(j := [])) \<and> totals_ok b' (Q(j := [])) \<and>
    j \<in> set_tree t \<and> price_of (ob_levels b') j = p \<and> ob_orders b' = ob_orders b \<and>
    ob_index b' = ob_index b \<and> dom (lvls b') = insert j (dom (lvls b)) \<and>
    capacity (ob_levels b') = capacity (ob_levels b) \<and>
    abs_of b' (T((s = 0) := t)) (Q(j := [])) = abs_of b T Q"
proof -
  let ?s = "s = 0" and ?sd = "get_side b s"
  have core: "pools_ok b" "trees_ok b T" "queues_ok b Q" "index_ok b" and tot: "totals_ok b Q"
    using inv by (auto simp: book_inv_def book_core_def)
  have pw: "pool_wf (ob_levels b)" using core(1) by (simp add: pools_ok_def)
  note tr = trees_okD [OF core(2)]
  have sd: "?sd = sides b ?s" by (rule get_side_sides)
  have fnd: "find_by_price ?sd (ob_levels b) p = Some kInvalidPoolIndex"
    using find_by_price_None [OF tr(1)] p(2) by (simp add: sd)
  obtain j q where q: "create_level ?sd p (ob_levels b) = Some (j, q)" "j \<noteq> kInvalidPoolIndex"
    "lvls b j = None" "pool_at q = (lvls b)(j \<mapsto> fresh_level ?sd p)" "pool_wf q"
    "capacity q = capacity (ob_levels b)"
    using create_level_ok [OF pw room] by blast
  have jn: "j \<notin> set_tree (T u)" for u using tr(4) [of u] q(3) by (auto simp: domIff)
  have repq: "side_rep (sides b u) q (T u)" for u
    by (rule side_rep_frame [OF tr(1)]) (use jn [of u] q(4) in auto)
  have pj: "price_of q j = p" by (simp add: q(4) fresh_level_def price_level_init_def)
  have im: "p \<notin> price_of q ` set_tree (T ?s)"
    using p(2) jn [of ?s] by (auto simp: image_iff price_of_def q(4) split: if_splits)
  define t where "t = ains (price_of q) j (T ?s)"
  obtain sd' q2 st' where q2: "insert_level j ?sd q (ob_stats b) = Some (sd', q2, st')"
    "side_rep sd' q2 t" "node_frame (insert j (set_tree (T ?s))) q q2" "bs_side sd' = bs_side ?sd"
    using insert_level_ok [of ?sd q "T ?s" j "fresh_level ?sd p" "ob_stats b"]
      repq [of ?s] q(4,5) jn p im pj sd
    by (auto simp: t_def fresh_level_def price_level_init_def)
  let ?b = "put_side s sd' (b\<lparr>ob_levels := q2, ob_stats := st'\<rparr>)"
  have run: "level_for s p b = Some (j, ?b)"
    using q(2) by (simp add: level_for_def fnd q(1) q2(1))
  have f: "fresh_data b j (fresh_level ?sd p) ?b"
    using q2(3) q(3,4) by (simp add: fresh_data_def node_frame_def)
  have st: "set_tree t = insert j (set_tree (T ?s))" by (simp add: t_def)
  have pq2: "price_of q2 = price_of q" using q2(3) by simp
  have "trees_ok ?b (T(?s := t))"
  proof (rule trees_ok_replace [OF core(2) q2(2)])
    fix k assume "k \<in> set_tree (T (\<not> ?s))"
    then have "k \<notin> insert j (set_tree (T ?s))" using tr(3) [of k "\<not> ?s"] jn by auto
    then show "map_option level_key (pool_at q2 k) = map_option level_key (lvls b k)"
      using node_frame_at [OF q2(3)] q(4) by simp
  qed (use q2(4) sd st jn tr(3,5) fresh_data_dom [OF f] in auto)
  moreover have "pools_ok ?b" "index_ok ?b"
    using core(1,4) node_frame_wf [OF q2(3) q(5)] by (simp_all add: pools_ok_def index_ok_def)
  moreover have "abs_of ?b (T(?s := t)) (Q(j := [])) = abs_of b T Q"
    by (rule abs_of_fresh [OF core(2) f p]) (use side_rep_sorted [OF repq [of ?s]] in \<open>simp_all add: t_def pq2\<close>)
  ultimately show ?thesis
    using run q(3,6) q2(3) st pj pq2 queues_ok_fresh [OF core(3) f] totals_ok_fresh [OF tot f] fresh_data_dom [OF f]
    by (intro exI [of _ j] exI [of _ ?b] exI [of _ t]) (simp add: book_core_def domIff node_frame_def)
qed

section \<open>Adding an order\<close>

definition enqueue_level :: "price_level \<Rightarrow> u32 \<Rightarrow> u32 \<Rightarrow> price_level" where
  "enqueue_level l i qty = l\<lparr>
     pl_head_order_idx := if pl_tail_order_idx l = kInvalidPoolIndex then i else pl_head_order_idx l,
     pl_tail_order_idx := i, pl_total_qty := pl_total_qty l + qty, pl_order_count := pl_order_count l + 1\<rparr>"

lemma enqueue_empty:
  assumes "lvls b j = Some l" "pl_tail_order_idx l = kInvalidPoolIndex"
  shows "enqueue j i qty b = Some (b\<lparr>ob_levels := pool_set (ob_levels b) j (enqueue_level l i qty)\<rparr>)"
  using assms by (cases l) (simp add: enqueue_def enqueue_level_def)

lemma enqueue_tail:
  assumes "lvls b j = Some l" "pl_tail_order_idx l \<noteq> kInvalidPoolIndex"
    "ords b (pl_tail_order_idx l) = Some r"
  shows "enqueue j i qty b = Some (b\<lparr>
    ob_orders := pool_set (ob_orders b) (pl_tail_order_idx l) (r\<lparr>ord_next_in_level := i\<rparr>),
    ob_levels := pool_set (ob_levels b) j (enqueue_level l i qty)\<rparr>)"
  using assms by (cases l) (simp add: enqueue_def enqueue_level_def)

lemma enqueue_level_key [simp]:
  "level_key (enqueue_level l i qty) = level_key l" "pl_price (enqueue_level l i qty) = pl_price l"
  "pl_side (enqueue_level l i qty) = pl_side l"
  by (simp_all add: enqueue_level_def level_key_def)

text \<open>
  The new order \<open>i\<close> at the end of the queue \<open>xs\<close>: the map \<open>h'\<close> has the order and the changed
  link of the old last element.
\<close>

definition linked :: "(u32 \<Rightarrow> order option) \<Rightarrow> u32 list \<Rightarrow> u32 \<Rightarrow> order \<Rightarrow> u32 \<Rightarrow> order option" where
  "linked h xs i nord x = (if x = i then Some nord
     else if xs \<noteq> [] \<and> x = last xs then map_option (\<lambda>r. r\<lparr>ord_next_in_level := i\<rparr>) (h x) else h x)"

lemma queue_ok_enqueue:
  assumes q: "queue_ok h l xs" and i: "i \<notin> set xs" "i \<noteq> kInvalidPoolIndex"
    and n: "ord_next_in_level nord = kInvalidPoolIndex" "ord_price nord = pl_price l"
      "ord_side nord = 0 \<longleftrightarrow> pl_side l = 0" and len: "length xs < 2 ^ 32 - 1"
  shows "queue_ok (linked h xs i nord) (enqueue_level l i qty) (xs @ [i])"
proof -
  let ?h = "linked h xs i nord"
  have ch: "chain h (pl_head_order_idx l) xs" and d: "distinct xs"
    and tl: "pl_tail_order_idx l = last_or_invalid xs" and ct: "unat (pl_order_count l) = length xs"
    and ms: "\<forall>x \<in> set xs. \<exists>ord. h x = Some ord \<and> ord_price ord = pl_price l \<and> (ord_side ord = 0 \<longleftrightarrow> pl_side l = 0)"
    using q by (auto simp: queue_ok_def)
  have "chain ?h (pl_head_order_idx (enqueue_level l i qty)) (xs @ [i])"
  proof (cases "xs = []")
    case True
    then show ?thesis using i n(1) tl
      by (simp add: enqueue_level_def last_or_invalid_def linked_def)
  next
    case False
    then obtain r where r: "h (last xs) = Some r" "last xs \<noteq> kInvalidPoolIndex"
      using chain_live [OF ch, of "last xs"] by auto
    have ne: "last xs \<noteq> i" using False i(1) by auto
    have "chain ?h (pl_head_order_idx l) (xs @ [i])"
      by (rule chain_snoc [OF ch False d i(2) r(1), where nord = nord])
        (use ne r(1) False n(1) i(1) in \<open>auto simp: linked_def\<close>)
    moreover have "pl_tail_order_idx l \<noteq> kInvalidPoolIndex" using tl r(2) False by (simp add: last_or_invalid_def)
    ultimately show ?thesis by (simp add: enqueue_level_def)
  qed
  moreover have "unat (pl_order_count l + 1) = length (xs @ [i])"
    using unat_plus_one_u32 [of "pl_order_count l"] ct len by simp
  moreover have "\<exists>ord. ?h x = Some ord \<and> ord_price ord = pl_price l \<and> (ord_side ord = 0 \<longleftrightarrow> pl_side l = 0)"
    if "x \<in> set (xs @ [i])" for x
  proof (cases "x = i")
    case True
    then show ?thesis using n by (simp add: linked_def)
  next
    case False
    then obtain r where "h x = Some r" "ord_price r = pl_price l" "ord_side r = 0 \<longleftrightarrow> pl_side l = 0"
      using ms \<open>x \<in> set (xs @ [i])\<close> by auto
    then show ?thesis using False by (auto simp: linked_def)
  qed
  ultimately show ?thesis
    using d i(1) by (simp add: queue_ok_def last_or_invalid_def) (simp add: enqueue_level_def)
qed

lemma linked_keep: "x \<noteq> i \<Longrightarrow> (xs \<noteq> [] \<Longrightarrow> x \<noteq> last xs) \<Longrightarrow> linked h xs i nord x = h x"
  by (auto simp: linked_def)

lemma linked_dom: "set xs \<subseteq> dom h \<Longrightarrow> dom (linked h xs i nord) = insert i (dom h)"
  by (auto simp: linked_def split: if_splits)

lemma linked_fields:
  assumes "x \<noteq> i"
  shows "remaining (linked h xs i nord) x = remaining h x"
    "resting_of (linked h xs i nord) x = resting_of h x"
    "map_option ord_id (linked h xs i nord x) = map_option ord_id (h x)"
    "map_option ord_remaining_qty (linked h xs i nord x) = map_option ord_remaining_qty (h x)"
    "map_option ord_price (linked h xs i nord x) = map_option ord_price (h x)"
proof -
  have "linked h xs i nord x = h x \<or> linked h xs i nord x = map_option (\<lambda>r. r\<lparr>ord_next_in_level := i\<rparr>) (h x)"
    using assms by (simp add: linked_def)
  then show "remaining (linked h xs i nord) x = remaining h x"
    "resting_of (linked h xs i nord) x = resting_of h x"
    "map_option ord_id (linked h xs i nord x) = map_option ord_id (h x)"
    "map_option ord_remaining_qty (linked h xs i nord x) = map_option ord_remaining_qty (h x)"
    "map_option ord_price (linked h xs i nord x) = map_option ord_price (h x)"
    by (cases "h x"; auto simp: remaining_def resting_of_def)+
qed

lemma linked_new [simp]: "linked h xs i nord i = Some nord"
  by (simp add: linked_def)

lemma queue_disjoint:
  "queues_ok b Q \<Longrightarrow> i \<in> dom (lvls b) \<Longrightarrow> j \<in> dom (lvls b) \<Longrightarrow> i \<noteq> j \<Longrightarrow> x \<in> set (Q i) \<Longrightarrow> x \<notin> set (Q j)"
  unfolding queues_ok_def by (blast dest: IntI)

text \<open>Writing the data of a level leaves the trees as they are.\<close>

lemma trees_ok_data:
  assumes "trees_ok b T" "sides b' = sides b"
    and "\<And>j. map_option level_key (lvls b' j) = map_option level_key (lvls b j)"
  shows "trees_ok b' T"
proof -
  have "dom (lvls b') = dom (lvls b)"
  proof -
    have "lvls b' j = None \<longleftrightarrow> lvls b j = None" for j using assms(3) [of j] by (metis map_option_is_None)
    then show ?thesis by (simp add: dom_def)
  qed
  moreover have "side_rep (sides b' s) (ob_levels b') (T s)" for s
    unfolding assms(2) by (rule side_rep_frame [OF trees_okD(1) [OF assms(1)]]) (rule assms(3))
  ultimately show ?thesis using assms(1,2) by (simp add: trees_ok_def)
qed

text \<open>What \<open>enqueue\<close> does to the two pools, when the order \<open>i\<close> is already in its own.\<close>

lemma enqueue_run:
  assumes pools: "pools_ok b" and q: "queue_ok (ords b) l xs" and j: "lvls b j = Some l"
    and i: "ords b i = None" and o': "pool_wf o'" "pool_at o' = (ords b)(i \<mapsto> nord)"
  shows "\<exists>b'. enqueue j i qty (b\<lparr>ob_orders := o', ob_index := m'\<rparr>) = Some b' \<and>
    ords b' = linked (ords b) xs i nord \<and> lvls b' = (lvls b)(j \<mapsto> enqueue_level l i qty) \<and>
    sides b' = sides b \<and> ob_index b' = m' \<and> pool_wf (ob_orders b') \<and> pool_wf (ob_levels b') \<and>
    capacity (ob_orders b') = capacity o' \<and> capacity (ob_levels b') = capacity (ob_levels b)"
proof -
  let ?b = "b\<lparr>ob_orders := o', ob_index := m'\<rparr>" and ?l = "enqueue_level l i qty"
  have ch: "chain (ords b) (pl_head_order_idx l) xs" and tl: "pl_tail_order_idx l = last_or_invalid xs"
    using q by (simp_all add: queue_ok_def)
  show ?thesis
  proof (cases "xs = []")
    case True
    have "enqueue j i qty ?b = Some (?b\<lparr>ob_levels := pool_set (ob_levels b) j ?l\<rparr>)"
      using enqueue_empty [of ?b j l i] j tl True by (simp add: last_or_invalid_def)
    moreover have "(ords b)(i \<mapsto> nord) = linked (ords b) xs i nord" using True by (auto simp: linked_def)
    ultimately show ?thesis using pools j o' by (simp add: pools_ok_def domIff)
  next
    case False
    obtain r where r: "ords b (last xs) = Some r" "last xs \<noteq> kInvalidPoolIndex"
      using chain_live [OF ch, of "last xs"] False by auto
    have ne: "last xs \<noteq> i" using r(1) i by auto
    have "enqueue j i qty ?b = Some (?b\<lparr>
        ob_orders := pool_set o' (last xs) (r\<lparr>ord_next_in_level := i\<rparr>),
        ob_levels := pool_set (ob_levels b) j ?l\<rparr>)"
      using enqueue_tail [of ?b j l r i] j tl False r ne o' by (simp add: last_or_invalid_def)
    moreover have "pool_at (pool_set o' (last xs) (r\<lparr>ord_next_in_level := i\<rparr>)) = linked (ords b) xs i nord"
      using False r ne o'(2) by (auto simp: linked_def fun_eq_iff domIff)
    moreover have "last xs \<in> dom (pool_at o')" using r o'(2) by auto
    ultimately show ?thesis using pools j o' by (simp add: pools_ok_def domIff)
  qed
qed

text \<open>A queue is shorter than the pool, so the 32-bit count of its level does not wrap.\<close>

lemma queue_room:
  assumes "distinct xs" "set xs \<subseteq> dom (pool_at p)" "i \<in> dom (pool_at p)" "i \<notin> set xs" "pool_wf p"
  shows "length xs < 2 ^ 32 - 1"
proof -
  have "length (i # xs) = card (set (i # xs))" using assms(1,4) by (metis distinct.simps(2) distinct_card)
  also have "\<dots> \<le> card (dom (pool_at p))" by (rule card_mono [OF finite_live]) (use assms(2,3) in simp)
  also have "\<dots> \<le> capacity p" by (rule card_live_le [OF assms(5)])
  also have "\<dots> < 2 ^ 32" using assms(5) by (simp add: pool_wf_def capacity_def)
  finally show ?thesis by simp
qed

lemma queues_ok_append:
  assumes qs: "queues_ok b Q" and j: "lvls b j = Some l" and i: "ords b i = None"
    and ql: "queue_ok (linked (ords b) (Q j) i nord) l' (Q j @ [i])"
    and b': "ords b' = linked (ords b) (Q j) i nord" "lvls b' = (lvls b)(j \<mapsto> l')"
  shows "queues_ok b' (Q(j := Q j @ [i]))"
proof -
  let ?h = "linked (ords b) (Q j) i nord" and ?Q = "Q(j := Q j @ [i])"
  have dl: "dom (lvls b') = dom (lvls b)" using b'(2) j by auto
  have dh: "dom ?h = insert i (dom (ords b))" by (rule linked_dom [OF queue_at(2) [OF qs j]])
  have "queue_ok ?h lk (?Q k)" if k: "lvls b' k = Some lk" for k lk
  proof (cases "k = j")
    case False
    then have lk: "lvls b k = Some lk" using k b'(2) by simp
    have "?h x = ords b x" if "x \<in> set (Q k)" for x
    proof (rule linked_keep)
      show "x \<noteq> i" using queue_at(2) [OF qs lk] that i by auto
      have "x \<notin> set (Q j)" using queue_disjoint [OF qs _ _ False that] lk j by auto
      then show "Q j \<noteq> [] \<Longrightarrow> x \<noteq> last (Q j)" by auto
    qed
    then have "queue_ok ?h lk (Q k)" by (intro queue_ok_frame [OF queue_at(1) [OF qs lk]]) simp
    then show ?thesis using False by simp
  qed (use k b'(2) ql in simp)
  moreover have "set (?Q k) \<inter> set (?Q k') = {}" if k: "k \<in> dom (lvls b)" "k' \<in> dom (lvls b)" "k \<noteq> k'" for k k'
  proof -
    have "set (Q k) \<inter> set (Q k') = {}" using qs k by (simp add: queues_ok_def)
    moreover have "i \<notin> set (Q k)" "i \<notin> set (Q k')" using queue_at(2) [OF qs] k i by (auto simp: domIff)
    ultimately show ?thesis using k(3) by auto
  qed
  moreover have "(\<Union>k \<in> dom (lvls b). set (?Q k)) = insert i (\<Union>k \<in> dom (lvls b). set (Q k))"
    using j by (auto split: if_splits)
  then have "(\<Union>k \<in> dom (lvls b). set (?Q k)) = insert i (dom (ords b))"
    using qs by (simp add: queues_ok_def)
  ultimately show ?thesis unfolding queues_ok_def b'(1) dl dh by simp
qed

lemma index_ok_linked:
  assumes "index_ok b" "ords b i = None" "fm_map (ob_index b) (ord_id nord) = None"
    and b': "ords b' = linked (ords b) xs i nord" "fm_map (ob_index b') = (fm_map (ob_index b))(ord_id nord \<mapsto> i)"
  shows "index_ok b'"
  unfolding index_ok_def b'
proof (intro allI)
  fix k x
  let ?h = "linked (ords b) xs i nord"
  show "((fm_map (ob_index b))(ord_id nord \<mapsto> i)) k = Some x \<longleftrightarrow> (\<exists>ord. ?h x = Some ord \<and> ord_id ord = k)"
  proof (cases "x = i")
    case True
    have "fm_map (ob_index b) k \<noteq> Some i" using assms(1,2) by (simp add: index_ok_def)
    then show ?thesis using True by auto
  next
    case False
    have "(\<exists>ord. ?h x = Some ord \<and> ord_id ord = k) \<longleftrightarrow> map_option ord_id (?h x) = Some k" by auto
    also have "\<dots> \<longleftrightarrow> fm_map (ob_index b) k = Some x"
      unfolding linked_fields(3) [OF False] using assms(1) by (auto simp: index_ok_def)
    finally show ?thesis using False assms(3) by auto
  qed
qed

lemma totals_ok_append:
  assumes qs: "queues_ok b Q" and tot: "totals_ok b Q" and j: "lvls b j = Some l" and i: "ords b i = None"
    and b': "ords b' = linked (ords b) (Q j) i nord"
      "lvls b' = (lvls b)(j \<mapsto> enqueue_level l i (ord_remaining_qty nord))"
  shows "totals_ok b' (Q(j := Q j @ [i]))"
  unfolding totals_ok_def b'(1)
proof (intro allI impI)
  let ?h = "linked (ords b) (Q j) i nord"
  fix k lk assume k: "lvls b' k = Some lk"
  have keep: "sum_list (map (remaining ?h) (Q k)) = sum_list (map (remaining (ords b)) (Q k))"
    if "k \<in> dom (lvls b)" for k
  proof (rule arg_cong [where f = sum_list], rule map_cong [OF refl])
    fix x assume "x \<in> set (Q k)"
    then have "x \<noteq> i" using queue_at(2) [OF qs] that i by (auto simp: domIff)
    then show "remaining ?h x = remaining (ords b) x" by (rule linked_fields(1))
  qed
  show "pl_total_qty lk = sum_list (map (remaining ?h) ((Q(j := Q j @ [i])) k))"
    using k b'(2) keep [of k] tot j by (cases "k = j") (auto simp: totals_ok_def enqueue_level_def domIff)
qed

lemma place_order:
  assumes core: "book_core b T Q" and tot: "totals_ok b Q"
    and j: "lvls b j = Some l" "pl_price l = ord_price nord" "ord_side nord = 0 \<longleftrightarrow> pl_side l = 0"
    and i: "ords b i = None" and o': "pool_wf o'" "pool_at o' = (ords b)(i \<mapsto> nord)"
    and idx: "fm_wf m'" "fm_map m' = (fm_map (ob_index b))(ord_id nord \<mapsto> i)"
      "fm_map (ob_index b) (ord_id nord) = None"
    and nx: "ord_next_in_level nord = kInvalidPoolIndex"
  defines "b0 \<equiv> b\<lparr>ob_orders := o', ob_index := m'\<rparr>" and "Q' \<equiv> Q(j := Q j @ [i])"
  shows "\<exists>b'. enqueue j i (ord_remaining_qty nord) b0 = Some b' \<and>
    ords b' = linked (ords b) (Q j) i nord \<and> book_core b' T Q' \<and> totals_ok b' Q' \<and>
    lvls b' = (lvls b)(j \<mapsto> enqueue_level l i (ord_remaining_qty nord)) \<and> ob_index b' = m' \<and>
    capacity (ob_orders b') = capacity o' \<and> capacity (ob_levels b') = capacity (ob_levels b)"
proof -
  have c: "pools_ok b" "trees_ok b T" "queues_ok b Q" "index_ok b"
    using core by (auto simp: book_core_def)
  note q = queue_at [OF c(3) j(1)]
  have iv: "i \<noteq> kInvalidPoolIndex" using pool_at_not_invalid [OF o'(1), of i nord] o'(2) by simp
  have ix: "i \<notin> set (Q j)" using q(2) i by auto
  obtain b' where b': "enqueue j i (ord_remaining_qty nord) b0 = Some b'"
    "ords b' = linked (ords b) (Q j) i nord"
    "lvls b' = (lvls b)(j \<mapsto> enqueue_level l i (ord_remaining_qty nord))" "sides b' = sides b" "ob_index b' = m'"
    "pool_wf (ob_orders b')" "pool_wf (ob_levels b')" "capacity (ob_orders b') = capacity o'"
    "capacity (ob_levels b') = capacity (ob_levels b)"
    using enqueue_run [OF c(1) q(1) j(1) i o'] unfolding b0_def by blast
  have len: "length (Q j) < 2 ^ 32 - 1"
    by (rule queue_room [OF _ _ _ ix o'(1)]) (use q o'(2) in \<open>auto simp: queue_ok_def\<close>)
  have "trees_ok b' T"
    by (rule trees_ok_data [OF c(2) b'(4)]) (use b'(3) j(1) in auto)
  moreover have "queues_ok b' Q'" unfolding Q'_def
    by (rule queues_ok_append [OF c(3) j(1) i queue_ok_enqueue b'(2,3)])
      (use q ix iv nx j(2,3) len in auto)
  moreover have "index_ok b'" by (rule index_ok_linked [OF c(4) i idx(3) b'(2)]) (simp add: b'(5) idx(2))
  moreover have "pools_ok b'" using b'(5,6,7) idx(1) by (simp add: pools_ok_def)
  moreover have "totals_ok b' Q'" unfolding Q'_def by (rule totals_ok_append [OF c(3) tot j(1) i b'(2,3)])
  ultimately show ?thesis using b' by (simp add: book_core_def)
qed

section \<open>Where an order is\<close>

lemma side_level_tag:
  assumes "trees_ok b T" "j \<in> set_tree (T s)" "lvls b j = Some l"
  shows "pl_side l = 0 \<longleftrightarrow> s"
proof -
  have "map_option pl_side (lvls b j) = Some (bs_side (sides b s))"
    using trees_okD(1) [OF assms(1), of s] assms(2) by (simp add: side_rep_def)
  then show ?thesis using assms(3) trees_okD(2) [OF assms(1), of s] by simp
qed

lemma level_side:
  assumes "trees_ok b T" "lvls b j = Some l"
  shows "j \<in> set_tree (T (pl_side l = 0))"
proof -
  obtain s where "j \<in> set_tree (T s)" using assms trees_okD(5) [OF assms(1), of True] by auto
  with side_level_tag [OF assms(1) this assms(2)] show ?thesis by simp
qed

lemma tfind_level:
  assumes "trees_ok b T" "lvls b j = Some l"
  shows "tfind (price_of (ob_levels b)) pr (T s) = Some j \<longleftrightarrow> (s \<longleftrightarrow> pl_side l = 0) \<and> pr = pl_price l"
proof -
  have "j \<in> set_tree (T s) \<longleftrightarrow> (s \<longleftrightarrow> pl_side l = 0)"
    using level_side [OF assms] side_level_tag [OF assms(1) _ assms(2), of s] by (cases s) auto
  moreover have "price_of (ob_levels b) j = pl_price l" using assms(2) by simp
  ultimately show ?thesis using side_find_Some [OF trees_okD(1) [OF assms(1)], of pr s j] by auto
qed

lemma order_level:
  assumes "book_core b T Q" "ords b i = Some r"
  obtains j l where "lvls b j = Some l" "i \<in> set (Q j)" "pl_price l = ord_price r"
    "ord_side r = 0 \<longleftrightarrow> pl_side l = 0"
    "find_by_price (get_side b (ord_side r)) (ob_levels b) (ord_price r) = Some j"
proof -
  have c: "trees_ok b T" "queues_ok b Q" using assms(1) by (auto simp: book_core_def)
  obtain j l where j: "lvls b j = Some l" "i \<in> set (Q j)" using c(2) assms(2) by (force simp: queues_ok_def)
  have f: "pl_price l = ord_price r" "ord_side r = 0 \<longleftrightarrow> pl_side l = 0"
    using queue_at(1) [OF c(2) j(1)] j(2) assms(2) by (auto simp: queue_ok_def)
  have "tfind (price_of (ob_levels b)) (ord_price r) (T (ord_side r = 0)) = Some j"
    using tfind_level [OF c(1) j(1)] f by simp
  then have "find_by_price (get_side b (ord_side r)) (ob_levels b) (ord_price r) = Some j"
    unfolding get_side_sides find_by_price_ok [OF trees_okD(1) [OF c(1)]] by simp
  with that j f show ?thesis by blast
qed

lemma abs_of_level:
  assumes "trees_ok b T" "lvls b j = Some l"
  shows "abs_of b T Q (pl_side l = 0) (pl_price l) = map (resting_of (ords b)) (Q j)"
proof -
  have "tfind (price_of (ob_levels b)) (pl_price l) (T (pl_side l = 0)) = Some j"
    using tfind_level [OF assms] by simp
  then show ?thesis by (simp add: abs_of_def)
qed

definition ids :: "abs_book \<Rightarrow> u64 set" where
  "ids B = (\<Union>s p. rs_id ` set (B s p))"

text \<open>The orders of the abstract book are the live orders.\<close>

lemma abs_of_live:
  assumes "book_core b T Q"
  shows "(\<exists>s p. x \<in> set (abs_of b T Q s p)) \<longleftrightarrow> (\<exists>i r. ords b i = Some r \<and> x = resting_of (ords b) i)"
proof
  have c: "trees_ok b T" "queues_ok b Q" using assms by (auto simp: book_core_def)
  assume "\<exists>s p. x \<in> set (abs_of b T Q s p)"
  then obtain s p where x: "x \<in> set (abs_of b T Q s p)" by blast
  then obtain j where j: "tfind (price_of (ob_levels b)) p (T s) = Some j"
    "x \<in> resting_of (ords b) ` set (Q j)"
    by (cases "tfind (price_of (ob_levels b)) p (T s)") (simp_all add: abs_of_def)
  obtain l where "lvls b j = Some l"
    using j(1) side_find_Some [OF trees_okD(1) [OF c(1)]] trees_okD(4) [OF c(1), of s] by blast
  with j(2) queue_at(2) [OF c(2)] show "\<exists>i r. ords b i = Some r \<and> x = resting_of (ords b) i" by blast
next
  have c: "trees_ok b T" "queues_ok b Q" using assms by (auto simp: book_core_def)
  assume "\<exists>i r. ords b i = Some r \<and> x = resting_of (ords b) i"
  then obtain i r where i: "ords b i = Some r" "x = resting_of (ords b) i" by blast
  obtain j l where "lvls b j = Some l" "i \<in> set (Q j)" by (rule order_level [OF assms i(1)])
  then have "x \<in> set (abs_of b T Q (pl_side l = 0) (pl_price l))"
    using abs_of_level [OF c(1)] i(2) by simp
  then show "\<exists>s p. x \<in> set (abs_of b T Q s p)" by blast
qed

lemma ids_abs:
  assumes "book_core b T Q"
  shows "k \<in> ids (abs_of b T Q) \<longleftrightarrow> fm_map (ob_index b) k \<noteq> None"
proof -
  have "k \<in> ids (abs_of b T Q) \<longleftrightarrow> (\<exists>x. (\<exists>s p. x \<in> set (abs_of b T Q s p)) \<and> rs_id x = k)"
    by (auto simp: ids_def)
  also have "\<dots> \<longleftrightarrow> (\<exists>i r. ords b i = Some r \<and> rs_id (resting_of (ords b) i) = k)"
    unfolding abs_of_live [OF assms] by blast
  also have "\<dots> \<longleftrightarrow> (\<exists>i r. ords b i = Some r \<and> ord_id r = k)"
    by (simp add: resting_of_def cong: conj_cong)
  also have "\<dots> \<longleftrightarrow> (\<exists>i. fm_map (ob_index b) k = Some i)"
    using assms by (auto simp: book_core_def index_ok_def)
  finally show ?thesis by simp
qed

lemma index_card:
  assumes "index_ok b"
  shows "card (dom (fm_map (ob_index b))) = card (dom (ords b))"
proof (rule bij_betw_same_card)
  have inj: "fm_map (ob_index b) k = Some i \<Longrightarrow> fm_map (ob_index b) k' = Some i \<Longrightarrow> k = k'" for k k' i
    using assms unfolding index_ok_def by (metis option.inject)
  have live: "i \<in> dom (ords b) \<longleftrightarrow> (\<exists>k. fm_map (ob_index b) k = Some i)" for i
    using assms by (auto simp: index_ok_def)
  show "bij_betw (\<lambda>k. the (fm_map (ob_index b) k)) (dom (fm_map (ob_index b))) (dom (ords b))"
    unfolding bij_betw_def
  proof
    show "inj_on (\<lambda>k. the (fm_map (ob_index b) k)) (dom (fm_map (ob_index b)))"
      by (rule inj_onI) (use inj in \<open>fastforce simp: domIff\<close>)
    show "(\<lambda>k. the (fm_map (ob_index b) k)) ` dom (fm_map (ob_index b)) = dom (ords b)"
      using live by (force simp: image_iff domIff)
  qed
qed

lemma abs_place:
  assumes core: "book_core b T Q" and j: "lvls b j = Some l" and i: "ords b i = None"
    and b': "ords b' = linked (ords b) (Q j) i nord" "lvls b' = (lvls b)(j \<mapsto> enqueue_level l i q)"
  shows "abs_of b' T (Q(j := Q j @ [i])) = a_add (pl_side l = 0) (pl_price l) (resting_of [i \<mapsto> nord] i) (abs_of b T Q)"
proof (intro ext)
  fix s p
  have c: "trees_ok b T" "queues_ok b Q" using core by (auto simp: book_core_def)
  have tf: "tfind (price_of (ob_levels b')) p (T s) = tfind (price_of (ob_levels b)) p (T s)"
    by (rule tfind_price_cong) (use b'(2) j in auto)
  have ro: "map (resting_of (ords b')) (Q k) = map (resting_of (ords b)) (Q k)" if "lvls b k = Some lk" for k lk
  proof (rule map_cong [OF refl])
    fix x assume "x \<in> set (Q k)"
    then have "x \<noteq> i" using queue_at(2) [OF c(2) that] i by auto
    then show "resting_of (ords b') x = resting_of (ords b) x" unfolding b'(1) by (rule linked_fields(2))
  qed
  have rn: "resting_of (ords b') i = resting_of [i \<mapsto> nord] i" by (simp add: resting_of_def b'(1))
  show "abs_of b' T (Q(j := Q j @ [i])) s p =
      a_add (pl_side l = 0) (pl_price l) (resting_of [i \<mapsto> nord] i) (abs_of b T Q) s p"
  proof (cases "tfind (price_of (ob_levels b)) p (T s)")
    case None
    then have "\<not> (s = (pl_side l = 0) \<and> p = pl_price l)" using tfind_level [OF c(1) j, of p s] by auto
    then show ?thesis using None tf by (auto simp: abs_of_def a_add_def)
  next
    case (Some k)
    then obtain lk where lk: "lvls b k = Some lk"
      using side_find_Some [OF trees_okD(1) [OF c(1)]] trees_okD(4) [OF c(1), of s] by blast
    show ?thesis
    proof (cases "k = j")
      case True
      then have "s = (pl_side l = 0)" "p = pl_price l" using Some tfind_level [OF c(1) j, of p s] by auto
      then show ?thesis using Some tf True ro [OF j] rn by (simp add: abs_of_def a_add_def)
    next
      case False
      then have "\<not> (s = (pl_side l = 0) \<and> p = pl_price l)" using Some tfind_level [OF c(1) j, of p s] by auto
      then have "a_add (pl_side l = 0) (pl_price l) (resting_of [i \<mapsto> nord] i) (abs_of b T Q) s p = abs_of b T Q s p"
        by (auto simp: a_add_def)
      then show ?thesis using Some tf False ro [OF lk] by (simp add: abs_of_def)
    qed
  qed
qed

text \<open>A price has a level exactly when its queue is not empty.\<close>

lemma level_iff_queue:
  assumes "book_inv b T Q"
  shows "p \<in> price_of (ob_levels b) ` set_tree (T s) \<longleftrightarrow> abs_of b T Q s p \<noteq> []"
proof -
  have c: "trees_ok b T" "busy_ok b Q" using assms by (auto simp: book_inv_def book_core_def)
  note rep = trees_okD(1) [OF c(1), of s]
  show ?thesis
  proof (cases "tfind (price_of (ob_levels b)) p (T s)")
    case None
    moreover from this have "p \<notin> price_of (ob_levels b) ` set_tree (T s)"
      unfolding side_find_None [OF rep] .
    ultimately show ?thesis by (simp add: abs_of_def)
  next
    case (Some j)
    then have j: "j \<in> set_tree (T s)" "price_of (ob_levels b) j = p" using side_find_Some [OF rep] by auto
    then have "Q j \<noteq> []" using c(2) trees_okD(4) [OF c(1), of s] by (auto simp: busy_ok_def)
    then show ?thesis using Some j by (auto simp: abs_of_def)
  qed
qed

lemma level_for_ok:
  assumes inv: "book_inv b T Q"
    and room: "abs_of b T Q (s = 0) p \<noteq> [] \<or> (unat p < 10000 \<and> card (dom (lvls b)) \<noteq> capacity (ob_levels b))"
  shows "\<exists>j l b1 T1 Q1. level_for s p b = Some (j, b1) \<and> book_core b1 T1 Q1 \<and> totals_ok b1 Q1 \<and>
    lvls b1 j = Some l \<and> pl_price l = p \<and> (pl_side l = 0 \<longleftrightarrow> s = 0) \<and> ob_orders b1 = ob_orders b \<and>
    ob_index b1 = ob_index b \<and> (\<forall>k \<in> dom (lvls b1). k \<noteq> j \<longrightarrow> Q1 k \<noteq> []) \<and>
    abs_of b1 T1 Q1 = abs_of b T Q \<and> capacity (ob_levels b1) = capacity (ob_levels b)"
proof (cases "p \<in> price_of (ob_levels b) ` set_tree (T (s = 0))")
  case True
  have c: "book_core b T Q" "trees_ok b T" "totals_ok b Q" "busy_ok b Q"
    using inv by (auto simp: book_inv_def book_core_def)
  note rep = trees_okD(1) [OF c(2), of "s = 0"]
  obtain j where j: "j \<in> set_tree (T (s = 0))" "price_of (ob_levels b) j = p" using True by auto
  then have "tfind (price_of (ob_levels b)) p (T (s = 0)) = Some j" using side_find_Some [OF rep] by simp
  then have "find_by_price (get_side b s) (ob_levels b) p = Some j"
    unfolding get_side_sides find_by_price_ok [OF rep] by simp
  moreover obtain l where l: "lvls b j = Some l" "j \<noteq> kInvalidPoolIndex"
    using side_rep_live [OF rep j(1)] by auto
  ultimately have "level_for s p b = Some (j, b)" by (simp add: level_for_def)
  moreover have "pl_side l = 0 \<longleftrightarrow> s = 0" using side_level_tag [OF c(2) j(1) l(1)] .
  ultimately show ?thesis using c l j(2)
    by (intro exI [of _ j] exI [of _ l] exI [of _ b] exI [of _ T] exI [of _ Q]) (simp add: busy_ok_def)
next
  case False
  have c: "busy_ok b Q" using inv by (simp add: book_inv_def)
  have r: "unat p < 10000" "card (dom (lvls b)) \<noteq> capacity (ob_levels b)"
    using room False level_iff_queue [OF inv] by blast+
  obtain j b1 t where j: "level_for s p b = Some (j, b1)" "j \<notin> dom (lvls b)"
    "book_core b1 (T((s = 0) := t)) (Q(j := []))" "totals_ok b1 (Q(j := []))" "j \<in> set_tree t"
    "price_of (ob_levels b1) j = p" "ob_orders b1 = ob_orders b" "ob_index b1 = ob_index b"
    "dom (lvls b1) = insert j (dom (lvls b))" "capacity (ob_levels b1) = capacity (ob_levels b)"
    "abs_of b1 (T((s = 0) := t)) (Q(j := [])) = abs_of b T Q"
    using level_for_new [OF inv r(1) False r(2)] by blast
  obtain l where l: "lvls b1 j = Some l" using j(9) by auto
  have "trees_ok b1 (T((s = 0) := t))" using j(3) by (simp add: book_core_def)
  from side_level_tag [OF this, of j "s = 0" l] have "pl_side l = 0 \<longleftrightarrow> s = 0" using j(5) l by simp
  moreover have "pl_price l = p" using j(6) l by simp
  moreover have "\<forall>k \<in> dom (lvls b1). k \<noteq> j \<longrightarrow> (Q(j := [])) k \<noteq> []"
    using c unfolding j(9) by (simp add: busy_ok_def)
  ultimately show ?thesis using j l by blast
qed

definition update_order :: "book_update \<Rightarrow> order" where
  "update_order upd = order_init\<lparr>ord_id := upd_order_id upd, ord_price := upd_price upd,
     ord_remaining_qty := upd_qty upd, ord_timestamp_ns := upd_timestamp_ns upd,
     ord_next_in_level := kInvalidPoolIndex, ord_side := upd_side upd\<rparr>"

definition resting_update :: "book_update \<Rightarrow> resting" where
  "resting_update upd = \<lparr>rs_id = upd_order_id upd, rs_qty = upd_qty upd, rs_time = upd_timestamp_ns upd\<rparr>"

text \<open>The two pools that \<open>add_order\<close> fills before it queues the order.\<close>

lemma order_stored:
  assumes pw: "pool_wf (ob_orders b)" and room: "card (dom (ords b)) \<noteq> capacity (ob_orders b)"
  obtains i o1 where "order_allocate (ob_orders b) = Some (Some i, o1)" "ords b i = None"
    "pool_update o1 i (\<lambda>r. r\<lparr>ord_id := upd_order_id upd, ord_price := upd_price upd,
       ord_remaining_qty := upd_qty upd, ord_timestamp_ns := upd_timestamp_ns upd,
       ord_next_in_level := kInvalidPoolIndex, ord_side := upd_side upd\<rparr>) = Some (pool_set o1 i (update_order upd))"
    "pool_wf (pool_set o1 i (update_order upd))" "pool_at (pool_set o1 i (update_order upd)) = (ords b)(i \<mapsto> update_order upd)"
    "capacity (pool_set o1 i (update_order upd)) = capacity (ob_orders b)"
proof -
  obtain i o1 where o1: "order_allocate (ob_orders b) = Some (Some i, o1)" "ords b i = None"
    "pool_wf o1" "pool_at o1 = (ords b)(i \<mapsto> order_init)" "capacity o1 = capacity (ob_orders b)"
    using pw room unfolding order_allocate_def
    by (cases rule: obj_pool.alloc_cases [where d = order_init]) auto
  then show ?thesis using that [of i o1] by (simp add: update_order_def domIff)
qed

lemma linked_positive:
  assumes po: "positive_ok b" and n: "0 < ord_remaining_qty nord" "0 < ord_price nord"
    and b': "ords b' = linked (ords b) xs i nord"
  shows "positive_ok b'"
  unfolding positive_ok_def
proof (intro allI impI)
  fix x r assume x: "ords b' x = Some r"
  show "0 < ord_remaining_qty r \<and> 0 < ord_price r"
  proof (cases "x = i")
    case True
    then show ?thesis using x b' n by simp
  next
    case False
    then have "map_option ord_remaining_qty (ords b x) = Some (ord_remaining_qty r)"
      "map_option ord_price (ords b x) = Some (ord_price r)"
      using x linked_fields(4,5) [OF False, of "ords b" xs nord] b' by simp_all
    then obtain z where "ords b x = Some z" "ord_remaining_qty z = ord_remaining_qty r" "ord_price z = ord_price r"
      by auto
    then show ?thesis using po unfolding positive_ok_def by metis
  qed
qed

lemma add_order_inv:
  assumes inv: "book_inv b T Q"
    and u: "0 < upd_qty upd" "0 < upd_price upd" "upd_order_id upd \<noteq> 0" "upd_order_id upd \<notin> ids (abs_of b T Q)"
    and room: "card (dom (ords b)) \<noteq> capacity (ob_orders b)" "\<not> fm_full (ob_index b)"
      "abs_of b T Q (upd_side upd = 0) (upd_price upd) \<noteq> [] \<or>
        (unat (upd_price upd) < 10000 \<and> card (dom (lvls b)) \<noteq> capacity (ob_levels b))"
  shows "\<exists>b' T' Q'. add_order upd b = Some b' \<and> book_inv b' T' Q' \<and>
    abs_of b' T' Q' = a_add (upd_side upd = 0) (upd_price upd) (resting_update upd) (abs_of b T Q) \<and>
    capacity (ob_orders b') = capacity (ob_orders b) \<and> capacity (ob_levels b') = capacity (ob_levels b) \<and>
    fm_capacity (ob_index b') = fm_capacity (ob_index b)"
proof -
  let ?k = "upd_order_id upd" and ?s = "upd_side upd" and ?p = "upd_price upd" and ?n = "update_order upd"
  have core: "book_core b T Q" and po: "positive_ok b" using inv by (auto simp: book_inv_def)
  have pw: "pool_wf (ob_orders b)" "fm_wf (ob_index b)" using core by (auto simp: book_core_def pools_ok_def)
  have kn: "fm_map (ob_index b) ?k = None" using u(4) ids_abs [OF core] by blast
  have con: "fm_contains (ob_index b) ?k = Some False"
    using order_index.get_eq [OF pw(2) u(3)] kn by (simp add: fm_contains_def kEmpty_def)
  obtain j l b1 T1 Q1 where b1: "level_for ?s ?p b = Some (j, b1)" "book_core b1 T1 Q1" "totals_ok b1 Q1"
    "lvls b1 j = Some l" "pl_price l = ?p" "pl_side l = 0 \<longleftrightarrow> ?s = 0" "ob_orders b1 = ob_orders b"
    "ob_index b1 = ob_index b" "\<forall>k \<in> dom (lvls b1). k \<noteq> j \<longrightarrow> Q1 k \<noteq> []"
    "abs_of b1 T1 Q1 = abs_of b T Q" "capacity (ob_levels b1) = capacity (ob_levels b)"
    using level_for_ok [OF inv room(3)] by blast
  obtain i o1 where o1: "order_allocate (ob_orders b) = Some (Some i, o1)" "ords b i = None"
    "pool_update o1 i (\<lambda>r. r\<lparr>ord_id := ?k, ord_price := ?p, ord_remaining_qty := upd_qty upd,
      ord_timestamp_ns := upd_timestamp_ns upd, ord_next_in_level := kInvalidPoolIndex, ord_side := ?s\<rparr>) = Some (pool_set o1 i ?n)"
    and o': "pool_wf (pool_set o1 i ?n)" "pool_at (pool_set o1 i ?n) = (ords b)(i \<mapsto> ?n)"
      "capacity (pool_set o1 i ?n) = capacity (ob_orders b)"
    by (rule order_stored [OF pw(1) room(1)])
  let ?o' = "pool_set o1 i ?n"
  obtain m' where m': "fm_insert ?k i (ob_index b) = Some (True, m')" "fm_wf m'"
    "fm_map m' = (fm_map (ob_index b))(?k \<mapsto> i)" "fm_capacity m' = fm_capacity (ob_index b)"
    using fm_insert_ok [OF pw(2) _ room(2)] u(3) by (auto simp: kEmptyKey_def)
  have n: "ord_id ?n = ?k" "ord_price ?n = ?p" "ord_remaining_qty ?n = upd_qty upd" "ord_side ?n = ?s"
    "ord_next_in_level ?n = kInvalidPoolIndex" by (simp_all add: update_order_def)
  have "\<exists>b'. enqueue j i (ord_remaining_qty ?n) (b1\<lparr>ob_orders := ?o', ob_index := m'\<rparr>) = Some b' \<and>
      ords b' = linked (ords b1) (Q1 j) i ?n \<and> book_core b' T1 (Q1(j := Q1 j @ [i])) \<and>
      totals_ok b' (Q1(j := Q1 j @ [i])) \<and>
      lvls b' = (lvls b1)(j \<mapsto> enqueue_level l i (ord_remaining_qty ?n)) \<and> ob_index b' = m' \<and>
      capacity (ob_orders b') = capacity ?o' \<and> capacity (ob_levels b') = capacity (ob_levels b1)"
    by (rule place_order [OF b1(2,3,4)]) (use b1 o1(2) o' m'(2,3) kn n in simp_all)
  then obtain b' where b': "enqueue j i (upd_qty upd) (b1\<lparr>ob_orders := ?o', ob_index := m'\<rparr>) = Some b'"
    "ords b' = linked (ords b) (Q1 j) i ?n" "book_core b' T1 (Q1(j := Q1 j @ [i]))"
    "totals_ok b' (Q1(j := Q1 j @ [i]))"
    "lvls b' = (lvls b1)(j \<mapsto> enqueue_level l i (upd_qty upd))" "ob_index b' = m'"
    "capacity (ob_orders b') = capacity ?o'" "capacity (ob_levels b') = capacity (ob_levels b1)"
    using b1(7) n(3) by auto
  have "add_order upd b = Some b'"
    using u(1,2) con b1(1,7,8) o1(1,3) m'(1) b'(1) by (simp add: add_order_def)
  moreover have "positive_ok b'" by (rule linked_positive [OF po _ _ b'(2)]) (use u n in simp_all)
  moreover have "busy_ok b' (Q1(j := Q1 j @ [i]))"
  proof -
    have "dom (lvls b') = dom (lvls b1)" using b'(5) b1(4) by auto
    then show ?thesis using b1(9) by (simp add: busy_ok_def)
  qed
  moreover have "abs_of b' T1 (Q1(j := Q1 j @ [i])) =
      a_add (?s = 0) ?p (resting_update upd) (abs_of b T Q)"
  proof -
    have "resting_of [i \<mapsto> ?n] i = resting_update upd"
      by (simp add: resting_of_def resting_update_def update_order_def)
    moreover have "(pl_side l = 0) = (?s = 0)" using b1(6) by simp
    ultimately show ?thesis
      using abs_place [OF b1(2,4), of i b' ?n "upd_qty upd"] b'(2,5) b1(5,7,10) o1(2) by simp
  qed
  ultimately show ?thesis using b' b1(11) m'(4) o'(3)
    by (intro exI [of _ b'] exI [of _ T1] exI [of _ "Q1(j := Q1 j @ [i])"]) (simp add: book_inv_def)
qed

end
