(* ===== verification/TC_Order_Book_Remove.thy ===== *)
theory TC_Order_Book_Remove
  imports TC_Order_Book_Refine
begin

text \<open>
  Cancelling, deleting, replacing and modifying orders: the unlinking loop, the removal of an
  order from the pools and the index, and the removal of a level whose queue has become empty.
\<close>

section \<open>Unlinking\<close>

text \<open>Everything in an order but its link.\<close>

definition ord_rest :: "order \<Rightarrow> order" where
  "ord_rest r = r\<lparr>ord_next_in_level := 0\<rparr>"

lemma ord_rest_next [simp]: "ord_rest (r\<lparr>ord_next_in_level := x\<rparr>) = ord_rest r"
  by (simp add: ord_rest_def)

lemma ord_rest_fields:
  assumes "ord_rest r = ord_rest r'"
  shows "ord_id r = ord_id r'" "ord_price r = ord_price r'" "ord_side r = ord_side r'"
    "ord_remaining_qty r = ord_remaining_qty r'" "ord_timestamp_ns r = ord_timestamp_ns r'"
proof -
  have "ord_id (ord_rest r) = ord_id (ord_rest r')" "ord_price (ord_rest r) = ord_price (ord_rest r')"
    "ord_side (ord_rest r) = ord_side (ord_rest r')"
    "ord_remaining_qty (ord_rest r) = ord_remaining_qty (ord_rest r')"
    "ord_timestamp_ns (ord_rest r) = ord_timestamp_ns (ord_rest r')"
    using assms by simp_all
  then show "ord_id r = ord_id r'" "ord_price r = ord_price r'" "ord_side r = ord_side r'"
    "ord_remaining_qty r = ord_remaining_qty r'" "ord_timestamp_ns r = ord_timestamp_ns r'"
    by (simp_all add: ord_rest_def)
qed

lemma chain_split_next:
  assumes "chain h i (ys @ x # zs)"
  obtains r where "h x = Some r" "chain h (ord_next_in_level r) zs" "x \<noteq> kInvalidPoolIndex"
  using assms by (induction ys arbitrary: i) auto

lemma unlink_loop_ok:
  assumes "chain (ords b) cur (ys @ p # i # zs)" "distinct (ys @ p # i # zs)"
    and "ords b p = Some rp" "ords b i = Some ri" "lvls b j = Some l"
  shows "unlink_loop i j cur b = Some (b\<lparr>
    ob_orders := pool_set (ob_orders b) p (rp\<lparr>ord_next_in_level := ord_next_in_level ri\<rparr>),
    ob_levels := if zs = [] then pool_set (ob_levels b) j (l\<lparr>pl_tail_order_idx := p\<rparr>) else ob_levels b\<rparr>)"
  using assms(1,2)
proof (induction ys arbitrary: cur)
  case Nil
  have cp: "cur = p" "p \<noteq> kInvalidPoolIndex" "ord_next_in_level rp = i" "p \<noteq> i"
    and cz: "chain (ords b) (ord_next_in_level ri) zs" using Nil assms(3,4) by auto
  have z: "ord_next_in_level ri = kInvalidPoolIndex \<longleftrightarrow> zs = []" by (rule chain_Nil_iff [OF cz])
  have "(if ord_next_in_level ri = kInvalidPoolIndex
      then pool_update (ob_levels b) j (\<lambda>l. l\<lparr>pl_tail_order_idx := p\<rparr>) else Some (ob_levels b)) =
      Some (if zs = [] then pool_set (ob_levels b) j (l\<lparr>pl_tail_order_idx := p\<rparr>) else ob_levels b)"
    using assms(5) z by simp
  then show ?case
    using cp assms(3,4) by (simp add: unlink_loop.simps [of i j p b])
next
  case (Cons y ys)
  obtain r where r: "cur = y" "y \<noteq> kInvalidPoolIndex" "ords b y = Some r"
    "chain (ords b) (ord_next_in_level r) (ys @ p # i # zs)" using Cons.prems(1) by auto
  have "ord_next_in_level r = hd (ys @ p # i # zs)" by (rule chain_hd [OF r(4)]) simp
  moreover have "hd (ys @ p # i # zs) \<noteq> i" using Cons.prems(2) by (cases ys) auto
  ultimately have "unlink_loop i j cur b = unlink_loop i j (ord_next_in_level r) b"
    using r by (simp add: unlink_loop.simps [of i j y b])
  then show ?case using Cons.IH [OF r(4)] Cons.prems(2) by simp
qed

lemma unlink_order_ok:
  assumes l: "lvls b j = Some l" and q: "queue_ok (ords b) l xs" and i: "i \<in> set xs"
  shows "\<exists>b' hd tl. unlink_order i j b = Some b' \<and>
    lvls b' = (lvls b)(j \<mapsto> l\<lparr>pl_head_order_idx := hd, pl_tail_order_idx := tl\<rparr>) \<and>
    chain (ords b') hd (remove1 i xs) \<and> tl = last_or_invalid (remove1 i xs) \<and>
    (\<forall>x. x \<notin> set xs - {i} \<longrightarrow> ords b' x = ords b x) \<and>
    (\<forall>x. map_option ord_rest (ords b' x) = map_option ord_rest (ords b x)) \<and>
    sides b' = sides b \<and> ob_index b' = ob_index b \<and> ob_stats b' = ob_stats b \<and>
    (pool_wf (ob_orders b) \<longrightarrow> pool_wf (ob_orders b')) \<and> (pool_wf (ob_levels b) \<longrightarrow> pool_wf (ob_levels b')) \<and>
    capacity (ob_orders b') = capacity (ob_orders b) \<and> capacity (ob_levels b') = capacity (ob_levels b)"
proof -
  have ch: "chain (ords b) (pl_head_order_idx l) xs" and d: "distinct xs"
    and tl: "pl_tail_order_idx l = last_or_invalid xs" using q by (simp_all add: queue_ok_def)
  obtain ys zs where xs: "xs = ys @ i # zs" using i by (auto simp: in_set_conv_decomp)
  have rm: "remove1 i xs = ys @ zs" using d xs by (simp add: remove1_append)
  obtain ri where ri: "ords b i = Some ri" "chain (ords b) (ord_next_in_level ri) zs" "i \<noteq> kInvalidPoolIndex"
    using chain_split_next ch xs by metis
  have z: "ord_next_in_level ri = kInvalidPoolIndex \<longleftrightarrow> zs = []" by (rule chain_Nil_iff [OF ri(2)])
  show ?thesis
  proof (cases ys rule: rev_cases)
    case Nil
    let ?l = "l\<lparr>pl_head_order_idx := ord_next_in_level ri, pl_tail_order_idx := last_or_invalid zs\<rparr>"
    have hd: "pl_head_order_idx l = i" using chain_hd [OF ch] xs Nil by simp
    have "zs \<noteq> [] \<Longrightarrow> ?l = l\<lparr>pl_head_order_idx := ord_next_in_level ri\<rparr>"
      using tl xs Nil by (cases l) (simp add: last_or_invalid_def)
    then have "unlink_order i j b = Some (b\<lparr>ob_levels := pool_set (ob_levels b) j ?l\<rparr>)"
      using l hd ri(1) z by (cases "zs = []") (simp_all add: unlink_order_def last_or_invalid_def)
    then show ?thesis using l ri(2) rm Nil
      by (intro exI [of _ "b\<lparr>ob_levels := pool_set (ob_levels b) j ?l\<rparr>"]
        exI [of _ "ord_next_in_level ri"] exI [of _ "last_or_invalid zs"]) (simp add: domIff)
  next
    case (snoc ys' p)
    have xs': "xs = ys' @ p # i # zs" using xs snoc by simp
    obtain rp where rp: "ords b p = Some rp" using chain_split_next ch xs' by metis
    have pi: "p \<noteq> i" using d xs' by auto
    have hd: "pl_head_order_idx l \<noteq> i" using chain_hd [OF ch] d xs' by (cases ys') auto
    let ?o = "pool_set (ob_orders b) p (rp\<lparr>ord_next_in_level := ord_next_in_level ri\<rparr>)"
    let ?b = "b\<lparr>ob_orders := ?o,
      ob_levels := if zs = [] then pool_set (ob_levels b) j (l\<lparr>pl_tail_order_idx := p\<rparr>) else ob_levels b\<rparr>"
    have "unlink_order i j b = Some ?b"
      using unlink_loop_ok [OF ch [unfolded xs'] d [unfolded xs'] rp ri(1) l] l hd
      by (simp add: unlink_order_def)
    moreover have "lvls ?b = (lvls b)(j \<mapsto> l\<lparr>pl_head_order_idx := pl_head_order_idx l,
        pl_tail_order_idx := last_or_invalid (ys' @ p # zs)\<rparr>)"
      using l tl xs' by (cases l) (auto simp: last_or_invalid_def)
    moreover have "chain (ords ?b) (pl_head_order_idx l) (ys' @ p # zs)"
      by (rule chain_unlink [OF ch [unfolded xs'] d [unfolded xs'] rp ri(1)])
        (use rp d xs' in auto)
    moreover have "remove1 i xs = ys' @ p # zs" using rm snoc by simp
    moreover have "p \<in> set xs - {i}" using xs' pi by simp
    ultimately show ?thesis using rp l
      by (intro exI [of _ ?b] exI [of _ "pl_head_order_idx l"]
        exI [of _ "last_or_invalid (ys' @ p # zs)"]) (auto simp: domIff)
  qed
qed

section \<open>Taking an order out of its queue\<close>

lemma remaining_rest: "map_option ord_rest (h x) = map_option ord_rest (h' x) \<Longrightarrow> remaining h x = remaining h' x"
  by (cases "h x"; cases "h' x") (auto simp: remaining_def dest: ord_rest_fields(4))

lemma resting_rest: "map_option ord_rest (h x) = map_option ord_rest (h' x) \<Longrightarrow> resting_of h x = resting_of h' x"
  by (cases "h x"; cases "h' x") (auto simp: resting_of_def dest: ord_rest_fields)

lemma rest_Some:
  assumes "map_option ord_rest m = map_option ord_rest m'" "m = Some r"
  obtains r' where "m' = Some r'" "ord_rest r' = ord_rest r"
  using assms by (cases m') auto

text \<open>
  The book \<open>b3\<close> is \<open>b\<close> without order \<open>i\<close>, taken out of the queue of level \<open>j\<close>: the level is \<open>l3\<close> now,
  the links of its other orders may have changed, and everything else is as it was.
\<close>

definition pulled :: "order_book \<Rightarrow> (u32 \<Rightarrow> u32 list) \<Rightarrow> u32 \<Rightarrow> u32 \<Rightarrow> price_level \<Rightarrow> price_level \<Rightarrow> order_book \<Rightarrow> bool" where
  "pulled b Q i j l l3 b3 \<longleftrightarrow> lvls b j = Some l \<and> lvls b3 = (lvls b)(j \<mapsto> l3) \<and>
     pl_price l3 = pl_price l \<and> pl_side l3 = pl_side l \<and> pl_total_qty l3 = pl_total_qty l \<and>
     chain (ords b3) (pl_head_order_idx l3) (remove1 i (Q j)) \<and>
     pl_tail_order_idx l3 = last_or_invalid (remove1 i (Q j)) \<and>
     unat (pl_order_count l3) = length (remove1 i (Q j)) \<and>
     (\<forall>x. x \<notin> set (Q j) \<longrightarrow> ords b3 x = ords b x) \<and>
     (\<forall>x. map_option ord_rest (ords b3 x) = (if x = i then None else map_option ord_rest (ords b x)))"

lemma pulled_dom:
  assumes "pulled b Q i j l l3 b3"
  shows "dom (lvls b3) = dom (lvls b)" "dom (ords b3) = dom (ords b) - {i}"
proof -
  show "dom (lvls b3) = dom (lvls b)" using assms by (auto simp: pulled_def)
  have "x \<in> dom (ords b3) \<longleftrightarrow> x \<in> dom (ords b) - {i}" for x
    using assms unfolding pulled_def by (cases "ords b3 x"; cases "ords b x") (auto simp: domIff split: if_splits dest!: spec [of _ x])
  then show "dom (ords b3) = dom (ords b) - {i}" by blast
qed

lemma pulled_rest: "pulled b Q i j l l3 b3 \<Longrightarrow> x \<noteq> i \<Longrightarrow> map_option ord_rest (ords b3 x) = map_option ord_rest (ords b x)"
  by (simp add: pulled_def)

lemma pulled_remaining:
  assumes "pulled b Q i j l l3 b3" "i \<notin> set zs"
  shows "sum_list (map (remaining (ords b3)) zs) = sum_list (map (remaining (ords b)) zs)"
proof (rule arg_cong [where f = sum_list], rule map_cong [OF refl])
  fix x assume "x \<in> set zs"
  then have "x \<noteq> i" using assms(2) by auto
  then show "remaining (ords b3) x = remaining (ords b) x" by (intro remaining_rest pulled_rest [OF assms(1)])
qed

lemma pulled_level:
  assumes p: "pulled b Q i j l l3 b3" and q: "queue_ok (ords b) l (Q j)"
  shows "queue_ok (ords b3) l3 (remove1 i (Q j))"
proof -
  have "\<exists>ord. ords b3 x = Some ord \<and> ord_price ord = pl_price l \<and> (ord_side ord = 0 \<longleftrightarrow> pl_side l = 0)"
    if x: "x \<in> set (remove1 i (Q j))" for x
  proof -
    have xi: "x \<noteq> i" "x \<in> set (Q j)" using x q by (auto simp: queue_ok_def)
    obtain z where z: "ords b x = Some z" "ord_price z = pl_price l" "ord_side z = 0 \<longleftrightarrow> pl_side l = 0"
      using q xi(2) by (auto simp: queue_ok_def)
    from rest_Some [OF pulled_rest [OF p xi(1), symmetric] z(1)]
    obtain z' where z': "ords b3 x = Some z'" "ord_rest z' = ord_rest z" .
    have "ord_price z' = pl_price l" "ord_side z' = 0 \<longleftrightarrow> pl_side l = 0"
      using z(2,3) ord_rest_fields(2,3) [OF z'(2)] by simp_all
    with z'(1) show ?thesis by blast
  qed
  then show ?thesis using p q by (simp add: queue_ok_def pulled_def)
qed

lemma pulled_queues:
  assumes p: "pulled b Q i j l l3 b3" and qs: "queues_ok b Q" and i: "i \<in> set (Q j)"
  shows "queues_ok b3 (Q(j := remove1 i (Q j)))" (is "queues_ok b3 ?Q")
proof -
  have l: "lvls b j = Some l" "lvls b3 = (lvls b)(j \<mapsto> l3)" using p by (simp_all add: pulled_def)
  have d: "queue_ok (ords b) l (Q j)" by (rule queue_at(1) [OF qs l(1)])
  then have ys: "set (remove1 i (Q j)) = set (Q j) - {i}" by (simp add: queue_ok_def)
  have "queue_ok (ords b3) lk (?Q k)" if k: "lvls b3 k = Some lk" for k lk
  proof (cases "k = j")
    case True
    then show ?thesis using k l(2) pulled_level [OF p d] by simp
  next
    case False
    then have lk: "lvls b k = Some lk" using k l(2) by simp
    have "ords b3 x = ords b x" if "x \<in> set (Q k)" for x
      using queue_disjoint [OF qs _ _ False that] lk l(1) p by (auto simp: pulled_def)
    then have "queue_ok (ords b3) lk (Q k)" by (intro queue_ok_frame [OF queue_at(1) [OF qs lk]]) simp
    then show ?thesis using False by simp
  qed
  moreover have "set (?Q k) \<inter> set (?Q k') = {}" if k: "k \<in> dom (lvls b)" "k' \<in> dom (lvls b)" "k \<noteq> k'" for k k'
  proof -
    have "set (Q k) \<inter> set (Q k') = {}" using qs k by (simp add: queues_ok_def)
    moreover have "set (?Q k) \<subseteq> set (Q k)" "set (?Q k') \<subseteq> set (Q k')" using ys by auto
    ultimately show ?thesis by blast
  qed
  moreover have "(\<Union>k \<in> dom (lvls b). set (?Q k)) = dom (ords b) - {i}"
  proof -
    have "set (?Q k) = set (Q k) - {i}" if "k \<in> dom (lvls b)" for k
      using queue_disjoint [OF qs _ that _ i] l(1) ys by (cases "k = j") auto
    then have "(\<Union>k \<in> dom (lvls b). set (?Q k)) = (\<Union>k \<in> dom (lvls b). set (Q k)) - {i}" by auto
    then show ?thesis using qs by (simp add: queues_ok_def)
  qed
  ultimately show ?thesis unfolding queues_ok_def pulled_dom [OF p] by simp
qed

lemma pulled_index:
  assumes p: "pulled b Q i j l l3 b3" and ix: "index_ok b" and r: "ords b i = Some r"
    and m: "fm_map (ob_index b3) = (fm_map (ob_index b))(ord_id r := None)"
  shows "index_ok b3"
  unfolding index_ok_def
proof (intro allI)
  fix k x
  have ki: "fm_map (ob_index b) (ord_id r) = Some i" "fm_map (ob_index b) k = Some i \<Longrightarrow> k = ord_id r"
    using ix r by (auto simp: index_ok_def)
  have E: "(\<exists>ord. ords b3 x = Some ord \<and> ord_id ord = k) \<longleftrightarrow> x \<noteq> i \<and> fm_map (ob_index b) k = Some x"
  proof (cases "x = i")
    case True
    then show ?thesis using p by (auto simp: pulled_def dest!: spec [of _ i])
  next
    case False
    from pulled_rest [OF p this]
    have "(\<exists>ord. ords b3 x = Some ord \<and> ord_id ord = k) \<longleftrightarrow> (\<exists>ord. ords b x = Some ord \<and> ord_id ord = k)"
      by (cases "ords b3 x"; cases "ords b x") (auto dest: ord_rest_fields(1))
    then show ?thesis using False ix by (simp add: index_ok_def)
  qed
  show "fm_map (ob_index b3) k = Some x \<longleftrightarrow> (\<exists>ord. ords b3 x = Some ord \<and> ord_id ord = k)"
    unfolding E m using ki by (cases "k = ord_id r") auto
qed

lemma pulled_totals:
  assumes p: "pulled b Q i j l l3 b3" and qs: "queues_ok b Q" and i: "i \<in> set (Q j)"
    and tj: "pl_total_qty l = sum_list (map (remaining (ords b)) (remove1 i (Q j)))"
    and tk: "\<And>k lk. k \<noteq> j \<Longrightarrow> lvls b k = Some lk \<Longrightarrow> pl_total_qty lk = sum_list (map (remaining (ords b)) (Q k))"
  shows "totals_ok b3 (Q(j := remove1 i (Q j)))"
  unfolding totals_ok_def
proof (intro allI impI)
  fix k lk assume k: "lvls b3 k = Some lk"
  have l: "lvls b j = Some l" "lvls b3 = (lvls b)(j \<mapsto> l3)" "pl_total_qty l3 = pl_total_qty l" using p by (simp_all add: pulled_def)
  have "i \<notin> set (remove1 i (Q j))" using queue_at(1) [OF qs l(1)] by (simp add: queue_ok_def)
  note rj = pulled_remaining [OF p this]
  show "pl_total_qty lk = sum_list (map (remaining (ords b3)) ((Q(j := remove1 i (Q j))) k))"
  proof (cases "k = j")
    case True
    then show ?thesis using k l(2,3) tj rj by simp
  next
    case False
    then have lk: "lvls b k = Some lk" using k l(2) by simp
    have "i \<notin> set (Q k)" using queue_disjoint [OF qs _ _ False [symmetric] i] l(1) lk by auto
    then show ?thesis using tk [OF False lk] pulled_remaining [OF p] False by simp
  qed
qed

lemma pull_order:
  assumes core: "book_core b T Q" and r: "ords b i = Some r" and l: "lvls b j = Some l"
    and i: "i \<in> set (Q j)"
    and tj: "pl_total_qty l = sum_list (map (remaining (ords b)) (remove1 i (Q j)))"
    and tk: "\<And>k lk. k \<noteq> j \<Longrightarrow> lvls b k = Some lk \<Longrightarrow> pl_total_qty lk = sum_list (map (remaining (ords b)) (Q k))"
  defines "Q' \<equiv> Q(j := remove1 i (Q j))"
  shows "\<exists>m b2 lp op l3 b3. fm_erase (ord_id r) (ob_index b) = Some (True, m) \<and>
    unlink_order i j (b\<lparr>ob_index := m\<rparr>) = Some b2 \<and>
    pool_update (ob_levels b2) j (\<lambda>l. l\<lparr>pl_order_count := pl_order_count l - 1\<rparr>) = Some lp \<and>
    pool_deallocate i (ob_orders b2) = Some op \<and> b3 = b2\<lparr>ob_levels := lp, ob_orders := op\<rparr> \<and>
    book_core b3 T Q' \<and> totals_ok b3 Q' \<and> lvls b3 j = Some l3 \<and> pl_side l3 = pl_side l \<and>
    (pl_order_count l3 = 0 \<longleftrightarrow> Q' j = []) \<and> dom (lvls b3) = dom (lvls b) \<and>
    (\<forall>k. map_option pl_price (lvls b3 k) = map_option pl_price (lvls b k)) \<and>
    (\<forall>x. map_option ord_rest (ords b3 x) = (if x = i then None else map_option ord_rest (ords b x))) \<and>
    capacity (ob_orders b3) = capacity (ob_orders b) \<and> capacity (ob_levels b3) = capacity (ob_levels b) \<and>
    fm_capacity (ob_index b3) = fm_capacity (ob_index b)"
proof -
  let ?xs = "Q j" and ?ys = "remove1 i (Q j)"
  have c: "pools_ok b" "trees_ok b T" "queues_ok b Q" "index_ok b"
    using core by (auto simp: book_core_def)
  have pw: "pool_wf (ob_orders b)" "pool_wf (ob_levels b)" "fm_wf (ob_index b)"
    using c(1) by (auto simp: pools_ok_def)
  have ki: "fm_map (ob_index b) (ord_id r) = Some i" using c(4) r by (auto simp: index_ok_def)
  then have k0: "ord_id r \<noteq> kEmptyKey" by (auto simp: fm_map_def)
  obtain m where m: "fm_erase (ord_id r) (ob_index b) = Some (True, m)" "fm_wf m"
    "fm_map m = (fm_map (ob_index b))(ord_id r := None)" "fm_capacity m = fm_capacity (ob_index b)"
    using fm_erase_ok [OF pw(3) k0 ki] by blast
  let ?b1 = "b\<lparr>ob_index := m\<rparr>"
  have q: "queue_ok (ords b) l ?xs" by (rule queue_at(1) [OF c(3) l])
  have cnt: "unat (pl_order_count l) = length ?xs" using q by (simp add: queue_ok_def)
  have q1: "queue_ok (ords ?b1) l ?xs" and l1: "lvls ?b1 j = Some l" using q l by simp_all
  obtain b2 hd tl where b2: "unlink_order i j ?b1 = Some b2"
    "lvls b2 = (lvls b)(j \<mapsto> l\<lparr>pl_head_order_idx := hd, pl_tail_order_idx := tl\<rparr>)"
    "chain (ords b2) hd ?ys" "tl = last_or_invalid ?ys"
    "\<forall>x. x \<notin> set ?xs - {i} \<longrightarrow> ords b2 x = ords b x"
    "\<forall>x. map_option ord_rest (ords b2 x) = map_option ord_rest (ords b x)"
    "sides b2 = sides b" "ob_index b2 = m" "pool_wf (ob_orders b2)" "pool_wf (ob_levels b2)"
    "capacity (ob_orders b2) = capacity (ob_orders b)" "capacity (ob_levels b2) = capacity (ob_levels b)"
    using unlink_order_ok [OF l1 q1 i] pw(1,2) by auto
  let ?l3 = "l\<lparr>pl_head_order_idx := hd, pl_tail_order_idx := tl, pl_order_count := pl_order_count l - 1\<rparr>"
  let ?lp = "pool_set (ob_levels b2) j ?l3" and ?op = "pool_free i (ob_orders b2)"
  let ?b3 = "b2\<lparr>ob_levels := ?lp, ob_orders := ?op\<rparr>"
  have up: "pool_update (ob_levels b2) j (\<lambda>l. l\<lparr>pl_order_count := pl_order_count l - 1\<rparr>) = Some ?lp"
    using b2(2) by simp
  have io: "i \<in> dom (ords b2)" using b2(5) r by auto
  have de: "pool_deallocate i (ob_orders b2) = Some ?op" by (rule pool_deallocate_eq [OF io])
  have l3: "pool_at ?lp = (lvls b)(j \<mapsto> ?l3)" using b2(2) by (simp add: fun_eq_iff)
  have o3: "pool_at ?op = (ords b2)(i := None)" by (rule pool_at_free [OF io])
  have len: "unat (pl_order_count l - 1) = length ?ys"
    using unat_minus_one_pos [of "pl_order_count l"] length_pos_if_in_set [OF i] cnt i by (simp add: length_remove1)
  have "i \<notin> set ?ys" using q by (simp add: queue_ok_def)
  then have "chain (ords ?b3) hd ?ys" by (intro chain_frame [OF b2(3)]) (auto simp: o3)
  then have p: "pulled b Q i j l ?l3 ?b3"
    unfolding pulled_def using l l3 b2(4-6) i len by (auto simp: o3)
  have "trees_ok ?b3 T"
    by (rule trees_ok_data [OF c(2)]) (use b2(7) l in \<open>auto simp: l3 level_key_def\<close>)
  moreover have "queues_ok ?b3 Q'" unfolding Q'_def by (rule pulled_queues [OF p c(3) i])
  moreover have "index_ok ?b3" by (rule pulled_index [OF p c(4) r]) (simp add: b2(8) m(3))
  moreover have "pools_ok ?b3"
    using b2(8,9,10) m(2) pool_wf_free [OF io] b2(2) by (simp add: pools_ok_def domIff)
  ultimately have "book_core ?b3 T Q'" by (simp add: book_core_def)
  moreover have "totals_ok ?b3 Q'" unfolding Q'_def by (rule pulled_totals [OF p c(3) i tj tk])
  moreover have "pl_order_count l - 1 = 0 \<longleftrightarrow> ?ys = []" using len by (metis length_0_conv unat_eq_zero)
  then have "pl_order_count ?l3 = 0 \<longleftrightarrow> Q' j = []" by (simp add: Q'_def)
  moreover have "map_option pl_price (lvls ?b3 k) = map_option pl_price (lvls b k)" for k
    using l by (simp add: l3)
  ultimately show ?thesis using m(1,4) b2 up de pulled_dom(1) [OF p] p l3
    by (intro exI [of _ m] exI [of _ b2] exI [of _ ?lp] exI [of _ ?op] exI [of _ ?l3] exI [of _ ?b3]) (simp add: pulled_def)
qed

section \<open>Removing a level without orders\<close>

text \<open>A book \<open>b'\<close> whose levels have the data of those of \<open>b\<close> without the level \<open>j\<close>.\<close>

definition dropped_data :: "order_book \<Rightarrow> u32 \<Rightarrow> order_book \<Rightarrow> bool" where
  "dropped_data b j b' \<longleftrightarrow> ob_orders b' = ob_orders b \<and>
     (\<forall>k. map_option pl_data (lvls b' k) = map_option pl_data (((lvls b)(j := None)) k))"

lemma dropped_data_at:
  assumes "dropped_data b j b'" "lvls b' k = Some lk"
  obtains l where "k \<noteq> j" "lvls b k = Some l" "pl_data lk = pl_data l"
proof -
  have k: "map_option pl_data (((lvls b)(j := None)) k) = Some (pl_data lk)"
    using assms unfolding dropped_data_def by (metis option.map(2))
  then have "k \<noteq> j" by auto
  with k that show ?thesis by (cases "lvls b k") auto
qed

lemma dropped_data_dom: "dropped_data b j b' \<Longrightarrow> dom (lvls b') = dom (lvls b) - {j}"
proof -
  assume f: "dropped_data b j b'"
  have "lvls b' k = None \<longleftrightarrow> ((lvls b)(j := None)) k = None" for k
    using f unfolding dropped_data_def by (metis map_option_is_None)
  then have "k \<in> dom (lvls b') \<longleftrightarrow> k \<in> dom (lvls b) - {j}" for k by (auto simp: domIff)
  then show ?thesis by blast
qed

lemma queues_ok_dropped:
  assumes qs: "queues_ok b Q" and f: "dropped_data b j b'" and e: "Q j = []"
  shows "queues_ok b' Q"
proof -
  have o: "ob_orders b' = ob_orders b" using f by (simp add: dropped_data_def)
  have "queue_ok (ords b') lk (Q k)" if "lvls b' k = Some lk" for k lk
    using f that
  proof (cases rule: dropped_data_at)
    case (1 l)
    then show ?thesis using queue_ok_data [OF queue_at(1) [OF qs]] o by simp
  qed
  moreover have "(\<Union>k \<in> dom (lvls b) - {j}. set (Q k)) = (\<Union>k \<in> dom (lvls b). set (Q k))"
    using e by auto
  ultimately show ?thesis using qs by (simp add: queues_ok_def dropped_data_dom [OF f] o)
qed

lemma totals_ok_dropped:
  assumes tot: "totals_ok b Q" and f: "dropped_data b j b'"
  shows "totals_ok b' Q"
  unfolding totals_ok_def
proof (intro allI impI)
  fix k lk assume "lvls b' k = Some lk"
  with f show "pl_total_qty lk = sum_list (map (remaining (ords b')) (Q k))"
  proof (cases rule: dropped_data_at)
    case (1 l)
    then show ?thesis using tot f by (simp add: totals_ok_def pl_data_def dropped_data_def)
  qed
qed

lemma abs_of_dropped:
  assumes T: "trees_ok b T" and f: "dropped_data b j b'" and j: "j \<in> set_tree (T s)" and e: "Q j = []"
    and t: "t = adel (price_of (ob_levels b)) j (T s)"
  shows "abs_of b' (T(s := t)) Q = abs_of b T Q"
proof (intro ext)
  fix u pr
  let ?p = "price_of (ob_levels b)" and ?q = "price_of (ob_levels b')" and ?T = "T(s := t)"
  note rep = trees_okD(1) [OF T, of s]
  have so: "sorted_by ?p (inorder (T s))" by (rule side_rep_sorted [OF rep])
  have o: "ob_orders b' = ob_orders b" using f by (simp add: dropped_data_def)
  have pe: "?q k = ?p k" if "k \<noteq> j" for k
    using f that by (cases "lvls b' k"; cases "lvls b k")
      (auto simp: dropped_data_def price_of_def pl_data_def dest!: spec [of _ k])
  have "set_tree t = set_tree (T s) - {j}" unfolding t by (rule set_tree_adel [OF so j])
  then have jn: "j \<notin> set_tree (?T u)" using trees_okD(3) [OF T j] by (cases "u = s") auto
  have new: "tfind ?q pr (?T u) = tfind ?p pr (?T u)" by (rule tfind_cong) (use pe jn in metis)
  have td: "tfind ?p pr t = (if pr = ?p j then None else tfind ?p pr (T s))"
    unfolding t by (rule tfind_adel [OF so j])
  have tj: "tfind ?p (?p j) (T s) = Some j" using side_find_Some [OF rep] j by simp
  show "abs_of b' ?T Q u pr = abs_of b T Q u pr"
  proof (cases "u = s \<and> pr = ?p j")
    case True
    then show ?thesis using new td tj e by (simp add: abs_of_def)
  next
    case False
    then have "tfind ?q pr (?T u) = tfind ?p pr (T u)" using new td by (cases "u = s") auto
    then show ?thesis by (simp add: abs_of_def o split: option.split)
  qed
qed

lemma drop_level:
  assumes core: "book_core b T Q" and tot: "totals_ok b Q" and l: "lvls b j = Some l" and e: "Q j = []"
    and s: "s = 0 \<longleftrightarrow> pl_side l = 0"
  shows "\<exists>sd lv st b' T'. remove_and_destroy_level j (get_side b s) (ob_levels b) (ob_stats b) = Some (sd, lv, st) \<and>
    b' = put_side s sd (b\<lparr>ob_levels := lv, ob_stats := st\<rparr>) \<and> book_core b' T' Q \<and> totals_ok b' Q \<and>
    dom (lvls b') = dom (lvls b) - {j} \<and> capacity lv = capacity (ob_levels b) \<and>
    abs_of b' T' Q = abs_of b T Q"
proof -
  let ?s = "s = 0" and ?sd = "get_side b s" and ?p = "ob_levels b"
  have c: "pools_ok b" "trees_ok b T" "queues_ok b Q" "index_ok b"
    using core by (auto simp: book_core_def)
  note tr = trees_okD [OF c(2)]
  have sd: "?sd = sides b ?s" by (rule get_side_sides)
  have pw: "pool_wf ?p" and rep: "side_rep ?sd ?p (T ?s)" using c(1) tr(1) by (simp_all add: pools_ok_def sd)
  have jt: "j \<in> set_tree (T ?s)" using level_side [OF c(2) l] s by simp
  have "queue_ok (ords b) l []" using queue_at(1) [OF c(3) l] e by simp
  then have le: "pl_order_count l = 0" "pl_head_order_idx l = kInvalidPoolIndex"
    "pl_tail_order_idx l = kInvalidPoolIndex"
    by (auto simp: queue_ok_def last_or_invalid_def unat_eq_zero)
  have lt: "pl_total_qty l = 0" using tot l e by (simp add: totals_ok_def)
  define t where "t = adel (price_of ?p) j (T ?s)"
  obtain sd' q r st' where q: "remove_and_destroy_level j ?sd ?p (ob_stats b) = Some (sd', r, st')"
    "side_rep sd' r t" "node_frame (set_tree (T ?s)) ?p q" "pool_at r = (pool_at q)(j := None)"
    "pool_wf r" "capacity r = capacity ?p" "bs_side sd' = bs_side ?sd"
    using remove_and_destroy_level_ok [OF rep pw jt l le(1) lt le(2,3), of "ob_stats b"]
    unfolding t_def by blast
  let ?b = "put_side s sd' (b\<lparr>ob_levels := r, ob_stats := st'\<rparr>)"
  have f: "dropped_data b j ?b" using q(3,4) by (simp add: dropped_data_def node_frame_def)
  have st: "set_tree t = set_tree (T ?s) - {j}"
    unfolding t_def by (rule set_tree_adel [OF side_rep_sorted [OF rep] jt])
  have "trees_ok ?b (T(?s := t))"
  proof (rule trees_ok_replace [OF c(2) q(2)])
    fix k assume "k \<in> set_tree (T (\<not> ?s))"
    then have "k \<notin> set_tree (T ?s)" "k \<noteq> j" using tr(3) [of k "\<not> ?s"] jt by auto
    then show "map_option level_key (pool_at r k) = map_option level_key (lvls b k)"
      using node_frame_at [OF q(3)] q(4) by simp
  next
    show "set_tree t \<inter> set_tree (T (\<not> ?s)) = {}" using st tr(3) [of _ ?s] by blast
    show "dom (pool_at r) = set_tree t \<union> set_tree (T (\<not> ?s))"
      using dropped_data_dom [OF f] st tr(3) [OF jt] tr(5) [of ?s] by (simp add: Un_Diff)
  qed (use q(7) sd in simp_all)
  moreover have "pools_ok ?b" "index_ok ?b" using c(1,4) q(5) by (simp_all add: pools_ok_def index_ok_def)
  ultimately have "book_core ?b (T(?s := t)) Q"
    using queues_ok_dropped [OF c(3) f e] by (simp add: book_core_def)
  moreover have "abs_of ?b (T(?s := t)) Q = abs_of b T Q" by (rule abs_of_dropped [where T = T and s = ?s and Q = Q, OF c(2) f jt e t_def])
  ultimately show ?thesis
    using q(1,6) dropped_data_dom [OF f] totals_ok_dropped [OF tot f] by blast
qed

section \<open>Deleting and cancelling\<close>

lemma abs_ids_unique:
  assumes "book_core b T Q" "ords b i = Some r" "ords b x = Some z" "ord_id z = ord_id r"
  shows "x = i"
proof -
  have "fm_map (ob_index b) (ord_id r) = Some i" "fm_map (ob_index b) (ord_id r) = Some x"
    using assms by (auto simp: book_core_def index_ok_def)
  then show ?thesis by simp
qed

text \<open>Once the order is out of its queue and of the pool, the abstract book has lost it.\<close>

lemma rs_id_iff:
  assumes "book_core b T Q" "ords b i = Some r" "x \<in> dom (ords b)"
  shows "rs_id (resting_of (ords b) x) = ord_id r \<longleftrightarrow> x = i"
proof -
  obtain z where z: "ords b x = Some z" using assms(3) by auto
  then have "rs_id (resting_of (ords b) x) = ord_id z" by (simp add: resting_of_def)
  then show ?thesis using abs_ids_unique [OF assms(1,2) z] assms(2) z by auto
qed

lemma remove_from_queues:
  assumes "queues_ok b Q" "lvls b j = Some l" "lvls b k = Some lk" "i \<in> set (Q j)"
  shows "(Q(j := remove1 i (Q j))) k = filter (\<lambda>x. x \<noteq> i) (Q k)"
proof (cases "k = j")
  case True
  have "distinct (Q j)" using queue_at(1) [OF assms(1,2)] by (simp add: queue_ok_def)
  then show ?thesis using True
    by (auto simp: distinct_remove1_removeAll removeAll_filter_not_eq intro!: filter_cong)
next
  case False
  then have "i \<notin> set (Q k)" using queue_disjoint [OF assms(1) _ _ _ assms(4), of k] assms(2,3) by auto
  then show ?thesis using False by (simp add: filter_neq_id)
qed

lemma abs_removed:
  assumes core: "book_core b T Q" and r: "ords b i = Some r" and l: "lvls b j = Some l" and i: "i \<in> set (Q j)"
    and price: "\<And>k. map_option pl_price (lvls b' k) = map_option pl_price (lvls b k)"
    and rest: "\<And>x. x \<noteq> i \<Longrightarrow> map_option ord_rest (ords b' x) = map_option ord_rest (ords b x)"
  shows "abs_of b' T (Q(j := remove1 i (Q j))) = a_delete (ord_id r) (abs_of b T Q)"
proof (intro ext)
  fix s p
  have c: "trees_ok b T" "queues_ok b Q" using core by (auto simp: book_core_def)
  have tf: "tfind (price_of (ob_levels b')) p (T s) = tfind (price_of (ob_levels b)) p (T s)"
    by (rule tfind_price_cong) (rule price)
  show "abs_of b' T (Q(j := remove1 i (Q j))) s p = a_delete (ord_id r) (abs_of b T Q) s p"
  proof (cases "tfind (price_of (ob_levels b)) p (T s)")
    case None
    then show ?thesis using tf by (simp add: abs_of_def a_delete_def)
  next
    case (Some k)
    then obtain lk where lk: "lvls b k = Some lk"
      using side_find_Some [OF trees_okD(1) [OF c(1)]] trees_okD(4) [OF c(1), of s] by blast
    have idk: "rs_id (resting_of (ords b) x) = ord_id r \<longleftrightarrow> x = i" if "x \<in> set (Q k)" for x
      using rs_id_iff [OF core r] queue_at(2) [OF c(2) lk] that by blast
    have q: "(Q(j := remove1 i (Q j))) k = filter (\<lambda>x. x \<noteq> i) (Q k)" by (rule remove_from_queues [OF c(2) l lk i])
    have "map (resting_of (ords b')) ((Q(j := remove1 i (Q j))) k) = map (resting_of (ords b)) (filter (\<lambda>x. x \<noteq> i) (Q k))"
      unfolding q by (rule map_cong [OF refl]) (use rest in \<open>auto intro: resting_rest\<close>)
    also have "\<dots> = filter (\<lambda>y. rs_id y \<noteq> ord_id r) (map (resting_of (ords b)) (Q k))"
      unfolding filter_map comp_def using idk by (intro arg_cong [where f = "map _"] filter_cong) auto
    finally show ?thesis using Some tf by (simp add: abs_of_def a_delete_def)
  qed
qed

lemma positive_removed:
  assumes "ords b' i = None" and "\<And>x. x \<noteq> i \<Longrightarrow> map_option ord_rest (ords b' x) = map_option ord_rest (ords b x)"
    and pos: "\<And>x z. x \<noteq> i \<Longrightarrow> ords b x = Some z \<Longrightarrow> 0 < ord_remaining_qty z \<and> 0 < ord_price z"
  shows "positive_ok b'"
  unfolding positive_ok_def
proof (intro allI impI)
  fix x z assume z: "ords b' x = Some z"
  then have x: "x \<noteq> i" using assms(1) by auto
  obtain z' where "ords b x = Some z'" "ord_rest z' = ord_rest z" using rest_Some [OF assms(2) [OF x] z] by blast
  then show "0 < ord_remaining_qty z \<and> 0 < ord_price z" using pos [OF x] ord_rest_fields(2,4) by metis
qed

text \<open>
  \<open>delete_order_internal\<close>: \<open>b\<close> may count the order's remaining quantity in its level or not; what
  matters is that the level's total is right without the order.
\<close>

lemma delete_internal_ok:
  assumes core: "book_core b T Q" and r: "ords b i = Some r" and l: "lvls b j = Some l"
    and i: "i \<in> set (Q j)" and s: "s = 0 \<longleftrightarrow> pl_side l = 0"
    and tj: "pl_total_qty l = sum_list (map (remaining (ords b)) (remove1 i (Q j)))"
    and tk: "\<And>k lk. k \<noteq> j \<Longrightarrow> lvls b k = Some lk \<Longrightarrow> pl_total_qty lk = sum_list (map (remaining (ords b)) (Q k))"
    and busy: "busy_ok b Q" and pos: "\<And>x z. x \<noteq> i \<Longrightarrow> ords b x = Some z \<Longrightarrow> 0 < ord_remaining_qty z \<and> 0 < ord_price z"
  shows "\<exists>b' T' Q'. delete_order_internal i s j b = Some b' \<and> book_inv b' T' Q' \<and>
    abs_of b' T' Q' = a_delete (ord_id r) (abs_of b T Q) \<and>
    capacity (ob_orders b') = capacity (ob_orders b) \<and> capacity (ob_levels b') = capacity (ob_levels b) \<and>
    fm_capacity (ob_index b') = fm_capacity (ob_index b)"
proof -
  let ?Q = "Q(j := remove1 i (Q j))"
  obtain m b2 lp op l3 b3 where p: "fm_erase (ord_id r) (ob_index b) = Some (True, m)"
    "unlink_order i j (b\<lparr>ob_index := m\<rparr>) = Some b2"
    "pool_update (ob_levels b2) j (\<lambda>l. l\<lparr>pl_order_count := pl_order_count l - 1\<rparr>) = Some lp"
    "pool_deallocate i (ob_orders b2) = Some op" "b3 = b2\<lparr>ob_levels := lp, ob_orders := op\<rparr>"
    "book_core b3 T ?Q" "totals_ok b3 ?Q" "lvls b3 j = Some l3" "pl_side l3 = pl_side l"
    "pl_order_count l3 = 0 \<longleftrightarrow> ?Q j = []" "dom (lvls b3) = dom (lvls b)"
    "\<forall>k. map_option pl_price (lvls b3 k) = map_option pl_price (lvls b k)"
    "\<forall>x. map_option ord_rest (ords b3 x) = (if x = i then None else map_option ord_rest (ords b x))"
    "capacity (ob_orders b3) = capacity (ob_orders b)" "capacity (ob_levels b3) = capacity (ob_levels b)"
    "fm_capacity (ob_index b3) = fm_capacity (ob_index b)"
    using pull_order [OF core r l i tj tk] by blast
  have rest: "map_option ord_rest (ords b3 x) = map_option ord_rest (ords b x)" if "x \<noteq> i" for x
    using p(13) that by simp
  have abs3: "abs_of b3 T ?Q = a_delete (ord_id r) (abs_of b T Q)"
    by (rule abs_removed [OF core r l i _ rest]) (use p(12) in simp)
  have "ords b3 i = None" using p(13) by (metis option.map_disc_iff)
  then have pos3: "positive_ok b3" by (rule positive_removed [OF _ rest pos])
  have pre: "delete_order_internal i s j b =
      (if pl_order_count l3 = 0 then do {
         (sd, levels, stats) \<leftarrow> remove_and_destroy_level j (get_side b3 s) (ob_levels b3) (ob_stats b3);
         Some (put_side s sd (b3\<lparr>ob_levels := levels, ob_stats := stats\<rparr>))
       } else Some b3)"
    using r p(1-5,8) by (simp add: delete_order_internal_def Let_def)
  show ?thesis
  proof (cases "?Q j = []")
    case True
    have s3: "s = 0 \<longleftrightarrow> pl_side l3 = 0" using s p(9) by simp
    obtain sd lv st b4 T4 where d: "remove_and_destroy_level j (get_side b3 s) (ob_levels b3) (ob_stats b3) = Some (sd, lv, st)"
      "b4 = put_side s sd (b3\<lparr>ob_levels := lv, ob_stats := st\<rparr>)" "book_core b4 T4 ?Q" "totals_ok b4 ?Q"
      "dom (lvls b4) = dom (lvls b3) - {j}" "capacity lv = capacity (ob_levels b3)"
      "abs_of b4 T4 ?Q = abs_of b3 T ?Q"
      using drop_level [OF p(6,7,8) True s3] by (elim exE conjE) (rule that)
    have "delete_order_internal i s j b = Some b4" using pre True p(10) d(1,2) by simp
    moreover have "busy_ok b4 ?Q" using busy unfolding busy_ok_def d(5) p(11) by simp
    moreover have "positive_ok b4" using pos3 d(2) by (simp add: positive_ok_def)
    ultimately show ?thesis using d(2-4,6,7) abs3 p(14-16)
      by (intro exI [of _ b4] exI [of _ T4] exI [of _ ?Q]) (simp add: book_inv_def)
  next
    case False
    then have "delete_order_internal i s j b = Some b3" using pre p(10) by simp
    moreover have "busy_ok b3 ?Q" using busy False unfolding busy_ok_def p(11) by simp
    ultimately show ?thesis using p(6,7,14-16) pos3 abs3
      by (intro exI [of _ b3] exI [of _ T] exI [of _ ?Q]) (simp add: book_inv_def)
  qed
qed

section \<open>Quantities\<close>

lemma map_option_upd: "h j = Some l \<Longrightarrow> f l' = f l \<Longrightarrow> map_option f ((h(j \<mapsto> l')) k) = map_option f (h k)"
  by simp

lemma set_total:
  fixes x :: u32
  assumes core: "book_core b T Q" and l: "lvls b j = Some l"
  defines "b' \<equiv> b\<lparr>ob_levels := pool_set (ob_levels b) j (l\<lparr>pl_total_qty := x\<rparr>)\<rparr>"
  shows "book_core b' T Q" "abs_of b' T Q = abs_of b T Q"
proof -
  have c: "pools_ok b" "trees_ok b T" "queues_ok b Q" "index_ok b" using core by (auto simp: book_core_def)
  have at: "lvls b' = (lvls b)(j \<mapsto> l\<lparr>pl_total_qty := x\<rparr>)" using l by (simp add: b'_def)
  have dl: "dom (lvls b') = dom (lvls b)" using l by (auto simp: at)
  have same: "ob_orders b' = ob_orders b" "ob_index b' = ob_index b" "sides b' = sides b"
    by (simp_all add: b'_def)
  have "trees_ok b' T"
    by (rule trees_ok_data [OF c(2) same(3)]) (use l in \<open>auto simp: at level_key_def\<close>)
  moreover have "queue_ok (ords b') lk (Q k)" if "lvls b' k = Some lk" for k lk
  proof (cases "k = j")
    case True
    then have "lk = l\<lparr>pl_total_qty := x\<rparr>" using that at by simp
    then show ?thesis using queue_at(1) [OF c(3) l] True same(1) by (simp add: queue_ok_def)
  next
    case False
    then show ?thesis using queue_at(1) [OF c(3)] that at same(1) by simp
  qed
  then have "queues_ok b' Q" using c(3) same(1) dl by (simp add: queues_ok_def)
  moreover have "pools_ok b'" using c(1) l by (simp add: pools_ok_def b'_def domIff)
  moreover have "index_ok b'" using c(4) same by (simp add: index_ok_def)
  ultimately show "book_core b' T Q" by (simp add: book_core_def)
  have "tfind (price_of (ob_levels b')) p (T s) = tfind (price_of (ob_levels b)) p (T s)" for s p
    by (rule tfind_price_cong) (use l in \<open>auto simp: at\<close>)
  then show "abs_of b' T Q = abs_of b T Q" using same(1) by (simp add: abs_of_def fun_eq_iff split: option.split)
qed

lemma set_remaining:
  fixes y :: u32
  assumes core: "book_core b T Q" and r: "ords b i = Some r"
  defines "b' \<equiv> b\<lparr>ob_orders := pool_set (ob_orders b) i (r\<lparr>ord_remaining_qty := y\<rparr>)\<rparr>"
  shows "book_core b' T Q"
    and "abs_of b' T Q = (\<lambda>s p. map (\<lambda>x. if rs_id x = ord_id r then x\<lparr>rs_qty := y\<rparr> else x) (abs_of b T Q s p))"
proof -
  have c: "pools_ok b" "trees_ok b T" "queues_ok b Q" "index_ok b" using core by (auto simp: book_core_def)
  have at: "ords b' = (ords b)(i \<mapsto> r\<lparr>ord_remaining_qty := y\<rparr>)" using r by (simp add: b'_def)
  have do: "dom (ords b') = dom (ords b)" using r by (auto simp: at)
  have same: "ob_levels b' = ob_levels b" "ob_index b' = ob_index b" "sides b' = sides b"
    by (simp_all add: b'_def)
  have "queue_ok (ords b') lk (Q k)" if "lvls b k = Some lk" for k lk
    by (rule queue_ok_frame [OF queue_at(1) [OF c(3) that]]) (use r in \<open>auto simp: at link_key_def\<close>)
  then have "queues_ok b' Q" using c(3) same(1) do by (simp add: queues_ok_def)
  moreover have "trees_ok b' T" using c(2) same by (simp add: trees_ok_def)
  moreover have "pools_ok b'" using c(1) r by (simp add: pools_ok_def b'_def domIff)
  moreover have "index_ok b'" using c(4) same r by (auto simp: index_ok_def at)
  ultimately show "book_core b' T Q" by (simp add: book_core_def)
  show "abs_of b' T Q = (\<lambda>s p. map (\<lambda>x. if rs_id x = ord_id r then x\<lparr>rs_qty := y\<rparr> else x) (abs_of b T Q s p))"
  proof (intro ext)
    fix s p
    show "abs_of b' T Q s p = map (\<lambda>x. if rs_id x = ord_id r then x\<lparr>rs_qty := y\<rparr> else x) (abs_of b T Q s p)"
    proof (cases "tfind (price_of (ob_levels b)) p (T s)")
      case None
      then show ?thesis by (simp add: abs_of_def same)
    next
      case (Some k)
      then have "k \<in> dom (lvls b)"
        using side_find_Some [OF trees_okD(1) [OF c(2)]] trees_okD(4) [OF c(2), of s] by blast
      then obtain lk where lk: "lvls b k = Some lk" by blast
      have "resting_of (ords b') x = (let z = resting_of (ords b) x in
          if rs_id z = ord_id r then z\<lparr>rs_qty := y\<rparr> else z)" if x: "x \<in> set (Q k)" for x
      proof -
        obtain z where z: "ords b x = Some z" using queue_at(2) [OF c(3) lk] x by auto
        show ?thesis
        proof (cases "x = i")
          case True
          then show ?thesis using z r by (simp add: resting_of_def at)
        next
          case False
          then have "ord_id z \<noteq> ord_id r" using abs_ids_unique [OF core r z] by auto
          then show ?thesis using z False by (simp add: resting_of_def at)
        qed
      qed
      then show ?thesis using Some by (simp add: abs_of_def same Let_def)
    qed
  qed
qed

lemma abs_find:
  assumes "book_core b T Q" "k \<in> ids (abs_of b T Q)"
  obtains i r where "fm_find (ob_index b) k = Some i" "i \<noteq> kEmpty" "ords b i = Some r" "ord_id r = k"
proof -
  obtain i where i: "fm_map (ob_index b) k = Some i" using ids_abs [OF assms(1)] assms(2) by blast
  then obtain r where r: "ords b i = Some r" "ord_id r = k" using assms(1) by (auto simp: book_core_def index_ok_def)
  have pw: "pool_wf (ob_orders b)" "fm_wf (ob_index b)" using assms(1) by (auto simp: book_core_def pools_ok_def)
  have "k \<noteq> kEmptyKey" using i by (auto simp: fm_map_def)
  then have "fm_find (ob_index b) k = Some i" using fm_find_ok [OF pw(2)] i by simp
  moreover have "i \<noteq> kEmpty" using pool_at_not_invalid [OF pw(1) r(1)] by (simp add: kEmpty_def)
  ultimately show ?thesis using that r by blast
qed

lemma delete_order_inv:
  assumes inv: "book_inv b T Q" and k: "upd_order_id upd \<in> ids (abs_of b T Q)"
  shows "\<exists>b' T' Q'. delete_order upd b = Some b' \<and> book_inv b' T' Q' \<and>
    abs_of b' T' Q' = a_delete (upd_order_id upd) (abs_of b T Q) \<and>
    capacity (ob_orders b') = capacity (ob_orders b) \<and> capacity (ob_levels b') = capacity (ob_levels b) \<and>
    fm_capacity (ob_index b') = fm_capacity (ob_index b)"
proof -
  have core: "book_core b T Q" and tot: "totals_ok b Q" and pos: "positive_ok b" and busy: "busy_ok b Q"
    using inv by (auto simp: book_inv_def)
  obtain i r where i: "fm_find (ob_index b) (upd_order_id upd) = Some i" "i \<noteq> kEmpty" "ords b i = Some r"
    "ord_id r = upd_order_id upd" by (rule abs_find [OF core k])
  obtain j l where j: "lvls b j = Some l" "i \<in> set (Q j)" "pl_price l = ord_price r"
    "ord_side r = 0 \<longleftrightarrow> pl_side l = 0"
    "find_by_price (get_side b (ord_side r)) (ob_levels b) (ord_price r) = Some j"
    by (rule order_level [OF core i(3)])
  have jv: "j \<noteq> kInvalidPoolIndex"
    using pool_at_not_invalid [OF _ j(1)] core by (simp add: book_core_def pools_ok_def)
  let ?l = "l\<lparr>pl_total_qty := pl_total_qty l - ord_remaining_qty r\<rparr>"
  let ?b = "b\<lparr>ob_levels := pool_set (ob_levels b) j ?l\<rparr>"
  have run: "delete_order upd b = delete_order_internal i (ord_side r) j ?b"
    using i j jv by (simp add: delete_order_def)
  have "sum_list (map (remaining (ords b)) (Q j)) =
      remaining (ords b) i + sum_list (map (remaining (ords b)) (remove1 i (Q j)))"
    by (rule sum_list_map_remove1 [OF j(2)])
  then have tj: "pl_total_qty ?l = sum_list (map (remaining (ords ?b)) (remove1 i (Q j)))"
    using tot j(1) i(3) by (simp add: totals_ok_def)
  have at: "lvls ?b = (lvls b)(j \<mapsto> ?l)" using j(1) by simp
  have tk: "pl_total_qty lk = sum_list (map (remaining (ords ?b)) (Q k))" if "k \<noteq> j" "lvls ?b k = Some lk" for k lk
    using that tot j(1) by (simp add: totals_ok_def)
  have dl: "dom (lvls ?b) = dom (lvls b)" using j(1) by (auto simp: at)
  have "\<exists>b' T' Q'. delete_order_internal i (ord_side r) j ?b = Some b' \<and> book_inv b' T' Q' \<and>
    abs_of b' T' Q' = a_delete (ord_id r) (abs_of ?b T Q) \<and>
    capacity (ob_orders b') = capacity (ob_orders ?b) \<and> capacity (ob_levels b') = capacity (ob_levels ?b) \<and>
    fm_capacity (ob_index b') = fm_capacity (ob_index ?b)"
  proof (rule delete_internal_ok [where l = ?l])
    show "book_core ?b T Q" by (rule set_total(1) [OF core j(1)])
    show "busy_ok ?b Q" using busy unfolding busy_ok_def dl .
    show "lvls ?b j = Some ?l" using j(1) by simp
    show "\<And>k lk. k \<noteq> j \<Longrightarrow> lvls ?b k = Some lk \<Longrightarrow> pl_total_qty lk = sum_list (map (remaining (ords ?b)) (Q k))"
      by (rule tk)
  qed (use i j tj pos in \<open>auto simp: positive_ok_def\<close>)
  then show ?thesis using run i(4) set_total(2) [OF core j(1)] by simp
qed

lemma abs_positive:
  assumes "book_core b T Q" "positive_ok b" "x \<in> set (abs_of b T Q s p)"
  shows "0 < rs_qty x"
proof -
  obtain i r where "ords b i = Some r" "x = resting_of (ords b) i"
    using abs_of_live [OF assms(1)] assms(3) by blast
  then show ?thesis using assms(2) by (auto simp: resting_of_def positive_ok_def)
qed

lemma abs_order:
  assumes "book_core b T Q" "ords b i = Some r" "x \<in> set (abs_of b T Q s p)" "rs_id x = ord_id r"
  shows "rs_qty x = ord_remaining_qty r" "rs_time x = ord_timestamp_ns r"
proof -
  obtain i' r' where i': "ords b i' = Some r'" "x = resting_of (ords b) i'"
    using abs_of_live [OF assms(1)] assms(3) by blast
  then have "ord_id r' = ord_id r" using assms(4) by (simp add: resting_of_def)
  then have "i' = i" by (rule abs_ids_unique [OF assms(1,2) i'(1)])
  then show "rs_qty x = ord_remaining_qty r" "rs_time x = ord_timestamp_ns r"
    using i' assms(2) by (simp_all add: resting_of_def)
qed

text \<open>On the abstract side, a reduction either keeps the order with less, or deletes it.\<close>

lemma a_reduce_cases:
  assumes pos: "\<And>s p x. x \<in> set (B s p) \<Longrightarrow> 0 < rs_qty x"
    and k: "\<And>s p x. x \<in> set (B s p) \<Longrightarrow> rs_id x = k \<Longrightarrow> rs_qty x = n"
  shows "q \<noteq> n \<Longrightarrow> a_reduce k q B = (\<lambda>s p. map (\<lambda>x. if rs_id x = k then x\<lparr>rs_qty := n - q\<rparr> else x) (B s p))"
    and "a_reduce k n B = a_delete k B"
proof -
  have f: "map (\<lambda>x. if rs_id x = k then x\<lparr>rs_qty := rs_qty x - q\<rparr> else x) (B s p) =
      map (\<lambda>x. if rs_id x = k then x\<lparr>rs_qty := n - q\<rparr> else x) (B s p)" for s p q
    using k by (intro map_cong [OF refl]) simp
  show "a_reduce k q B = (\<lambda>s p. map (\<lambda>x. if rs_id x = k then x\<lparr>rs_qty := n - q\<rparr> else x) (B s p))" if "q \<noteq> n"
  proof -
    have "x \<in> set (B s p) \<Longrightarrow> rs_qty x \<noteq> 0" for s p x using pos [of x s p] by auto
    then show ?thesis unfolding a_reduce_def f using that by (auto simp: filter_id_conv fun_eq_iff)
  qed
  show "a_reduce k n B = a_delete k B"
  proof (intro ext)
    fix s p
    have "filter (\<lambda>r. rs_qty r \<noteq> 0) (map (\<lambda>x. if rs_id x = k then x\<lparr>rs_qty := 0\<rparr> else x) xs) =
        filter (\<lambda>x. rs_id x \<noteq> k) xs" if "\<forall>x \<in> set xs. 0 < rs_qty x" for xs
      using that by (induction xs) auto
    from this [of "B s p"] show "a_reduce k n B s p = a_delete k B s p"
      unfolding a_reduce_def f a_delete_def diff_self using pos by metis
  qed
qed

text \<open>The book after the quantity of one order and the total of its level went down by \<open>q\<close>.\<close>

definition reduced :: "order_book \<Rightarrow> u32 \<Rightarrow> order \<Rightarrow> u32 \<Rightarrow> price_level \<Rightarrow> u32 \<Rightarrow> order_book" where
  "reduced b i r j l q = (let b1 = b\<lparr>ob_orders := pool_set (ob_orders b) i (r\<lparr>ord_remaining_qty := ord_remaining_qty r - q\<rparr>)\<rparr>
     in b1\<lparr>ob_levels := pool_set (ob_levels b1) j (l\<lparr>pl_total_qty := pl_total_qty l - q\<rparr>)\<rparr>)"

lemma reduced_at:
  assumes "ords b i = Some r" "lvls b j = Some l"
  shows "ords (reduced b i r j l q) = (ords b)(i \<mapsto> r\<lparr>ord_remaining_qty := ord_remaining_qty r - q\<rparr>)"
    "lvls (reduced b i r j l q) = (lvls b)(j \<mapsto> l\<lparr>pl_total_qty := pl_total_qty l - q\<rparr>)"
    "dom (lvls (reduced b i r j l q)) = dom (lvls b)"
  using assms by (auto simp: reduced_def)

lemma reduced_same [simp]:
  "capacity (ob_orders (reduced b i r j l q)) = capacity (ob_orders b)"
  "capacity (ob_levels (reduced b i r j l q)) = capacity (ob_levels b)" "ob_index (reduced b i r j l q) = ob_index b"
  by (simp_all add: reduced_def)

lemma reduced_core:
  assumes core: "book_core b T Q" and r: "ords b i = Some r" and l: "lvls b j = Some l"
  shows "book_core (reduced b i r j l q) T Q"
    and "abs_of (reduced b i r j l q) T Q =
      (\<lambda>s p. map (\<lambda>x. if rs_id x = ord_id r then x\<lparr>rs_qty := ord_remaining_qty r - q\<rparr> else x) (abs_of b T Q s p))"
proof -
  let ?b1 = "b\<lparr>ob_orders := pool_set (ob_orders b) i (r\<lparr>ord_remaining_qty := ord_remaining_qty r - q\<rparr>)\<rparr>"
  have core1: "book_core ?b1 T Q" by (rule set_remaining(1) [OF core r])
  have l1: "lvls ?b1 j = Some l" using l by simp
  show "book_core (reduced b i r j l q) T Q"
    unfolding reduced_def Let_def by (rule set_total(1) [OF core1 l1])
  show "abs_of (reduced b i r j l q) T Q =
      (\<lambda>s p. map (\<lambda>x. if rs_id x = ord_id r then x\<lparr>rs_qty := ord_remaining_qty r - q\<rparr> else x) (abs_of b T Q s p))"
    unfolding reduced_def Let_def set_total(2) [OF core1 l1] by (rule set_remaining(2) [OF core r])
qed

lemma reduced_totals:
  fixes q :: u32
  assumes core: "book_core b T Q" and tot: "totals_ok b Q" and r: "ords b i = Some r" and l: "lvls b j = Some l"
    and i: "i \<in> set (Q j)"
  defines "b' \<equiv> reduced b i r j l q"
  shows "pl_total_qty l - q = ord_remaining_qty r - q + sum_list (map (remaining (ords b')) (remove1 i (Q j)))"
    and "k \<noteq> j \<Longrightarrow> lvls b' k = Some lk \<Longrightarrow> pl_total_qty lk = sum_list (map (remaining (ords b')) (Q k))"
    and "totals_ok b' Q"
proof -
  have qs: "queues_ok b Q" using core by (simp add: book_core_def)
  note at = reduced_at [OF r l, of q, folded b'_def]
  have rem: "remaining (ords b') x = (if x = i then ord_remaining_qty r - q else remaining (ords b) x)" for x
    by (simp add: at remaining_def)
  have keep: "sum_list (map (remaining (ords b')) xs) = sum_list (map (remaining (ords b)) xs)" if "i \<notin> set xs" for xs
    using that by (intro arg_cong [where f = sum_list] map_cong) (auto simp: rem)
  have d: "distinct (Q j)" using queue_at(1) [OF qs l] by (simp add: queue_ok_def)
  have "pl_total_qty l = ord_remaining_qty r + sum_list (map (remaining (ords b)) (remove1 i (Q j)))"
    using tot l r sum_list_map_remove1 [OF i, of "remaining (ords b)"] by (simp add: totals_ok_def)
  then show tj: "pl_total_qty l - q = ord_remaining_qty r - q + sum_list (map (remaining (ords b')) (remove1 i (Q j)))"
    using keep [of "remove1 i (Q j)"] d by simp
  show tk: "pl_total_qty lk = sum_list (map (remaining (ords b')) (Q k))" if "k \<noteq> j" "lvls b' k = Some lk" for k lk
  proof -
    have lk: "lvls b k = Some lk" using that at(2) by simp
    have "i \<notin> set (Q k)" using queue_disjoint [OF qs _ _ that(1) [symmetric] i] l lk by auto
    then show ?thesis using keep lk tot by (simp add: totals_ok_def)
  qed
  show "totals_ok b' Q"
    unfolding totals_ok_def
  proof (intro allI impI)
    fix k lk assume k: "lvls b' k = Some lk"
    show "pl_total_qty lk = sum_list (map (remaining (ords b')) (Q k))"
    proof (cases "k = j")
      case True
      then have "lk = l\<lparr>pl_total_qty := pl_total_qty l - q\<rparr>" using k at(2) by simp
      then show ?thesis using True tj rem [of i] sum_list_map_remove1 [OF i, of "remaining (ords b')"] by simp
    qed (use k tk in simp)
  qed
qed

lemma a_delete_marked:
  "a_delete k (\<lambda>s p. map (\<lambda>x. if rs_id x = k then x\<lparr>rs_qty := n\<rparr> else x) (B s p)) = a_delete k B"
proof (intro ext)
  fix s p
  have "filter (\<lambda>x. rs_id x \<noteq> k) (map (\<lambda>x. if rs_id x = k then x\<lparr>rs_qty := n\<rparr> else x) xs) =
      filter (\<lambda>x. rs_id x \<noteq> k) xs" for xs by (induction xs) auto
  then show "a_delete k (\<lambda>s p. map (\<lambda>x. if rs_id x = k then x\<lparr>rs_qty := n\<rparr> else x) (B s p)) s p = a_delete k B s p"
    by (simp add: a_delete_def)
qed

lemma cancel_order_inv:
  assumes inv: "book_inv b T Q" and i: "fm_find (ob_index b) (upd_order_id upd) = Some i" "i \<noteq> kEmpty"
      "ords b i = Some r" "ord_id r = upd_order_id upd"
    and q: "upd_qty upd \<le> ord_remaining_qty r"
  shows "\<exists>b' T' Q'. cancel_order upd b = Some b' \<and> book_inv b' T' Q' \<and>
    abs_of b' T' Q' = a_reduce (upd_order_id upd) (upd_qty upd) (abs_of b T Q) \<and>
    capacity (ob_orders b') = capacity (ob_orders b) \<and> capacity (ob_levels b') = capacity (ob_levels b) \<and>
    fm_capacity (ob_index b') = fm_capacity (ob_index b)"
proof -
  let ?k = "upd_order_id upd" and ?q = "upd_qty upd"
  have core: "book_core b T Q" and tot: "totals_ok b Q" and pos: "positive_ok b" and busy: "busy_ok b Q"
    using inv by (auto simp: book_inv_def)
  obtain j l where j: "lvls b j = Some l" "i \<in> set (Q j)" "pl_price l = ord_price r"
    "ord_side r = 0 \<longleftrightarrow> pl_side l = 0"
    "find_by_price (get_side b (ord_side r)) (ob_levels b) (ord_price r) = Some j"
    by (rule order_level [OF core i(3)])
  have jv: "j \<noteq> kInvalidPoolIndex"
    using pool_at_not_invalid [OF _ j(1)] core by (simp add: book_core_def pools_ok_def)
  let ?b = "reduced b i r j l ?q"
  note at = reduced_at [OF i(3) j(1), of ?q]
  note core2 = reduced_core [OF core i(3) j(1), of ?q]
  note tot2 = reduced_totals [OF core tot i(3) j(1,2), where q = ?q]
  have ps: "\<And>s p x. x \<in> set (abs_of b T Q s p) \<Longrightarrow> 0 < rs_qty x" by (rule abs_positive [OF core pos])
  have qk: "\<And>s p x. x \<in> set (abs_of b T Q s p) \<Longrightarrow> rs_id x = ?k \<Longrightarrow> rs_qty x = ord_remaining_qty r"
    using abs_order(1) [OF core i(3)] i(4) by metis
  have run: "cancel_order upd b = (if ord_remaining_qty r - ?q = 0
      then delete_order_internal i (ord_side r) j ?b else Some ?b)"
    using i j jv q by (simp add: cancel_order_def reduced_def get_side_sides Let_def)
  have busy2: "busy_ok ?b Q" using busy unfolding busy_ok_def at(3) .
  have price: "0 < ord_price r" using pos i(3) by (auto simp: positive_ok_def)
  show ?thesis
  proof (cases "?q = ord_remaining_qty r")
    case True
    have "\<exists>b' T' Q'. delete_order_internal i (ord_side r) j ?b = Some b' \<and> book_inv b' T' Q' \<and>
      abs_of b' T' Q' = a_delete (ord_id (r\<lparr>ord_remaining_qty := ord_remaining_qty r - ?q\<rparr>)) (abs_of ?b T Q) \<and>
      capacity (ob_orders b') = capacity (ob_orders ?b) \<and> capacity (ob_levels b') = capacity (ob_levels ?b) \<and>
      fm_capacity (ob_index b') = fm_capacity (ob_index ?b)"
      by (rule delete_internal_ok [OF core2(1), where l = "l\<lparr>pl_total_qty := pl_total_qty l - ?q\<rparr>"])
        (use at i j tot2(1,2) pos busy2 True in \<open>auto simp: positive_ok_def split: if_splits\<close>)
    moreover have "a_delete ?k (abs_of ?b T Q) = a_reduce ?k ?q (abs_of b T Q)"
      unfolding core2(2) i(4) a_delete_marked using a_reduce_cases(2) [OF ps qk] True by simp
    ultimately show ?thesis using run True i(4) by simp
  next
    case False
    then have n0: "ord_remaining_qty r - ?q \<noteq> 0" by simp
    then have "0 < ord_remaining_qty r - ?q" by (simp only: word_gt_0 not_False_eq_True)
    then have "positive_ok ?b" using pos price unfolding positive_ok_def at by auto
    moreover have "abs_of ?b T Q = a_reduce ?k ?q (abs_of b T Q)"
      unfolding core2(2) i(4) by (rule a_reduce_cases(1) [OF ps qk False, symmetric])
    ultimately show ?thesis using run n0 core2(1) tot2(3) busy2
      by (intro exI [of _ ?b] exI [of _ T] exI [of _ Q]) (simp add: book_inv_def)
  qed
qed

end
