(* ===== verification/TC_Order_Book_Spec.thy ===== *)
theory TC_Order_Book_Spec
  imports TC_Order_Book_Remove
begin

text \<open>
  The order book against its abstract specification: every public operation either fails an
  assertion or computes the abstract operation, and which of the two is decided by the update
  and the abstract book. Reachable books, best prices and the absence of leaks follow.
\<close>

section \<open>Adding\<close>

lemma level_for_same:
  "level_for s p b = Some (j, b1) \<Longrightarrow> ob_orders b1 = ob_orders b \<and> ob_index b1 = ob_index b"
  by (auto simp: level_for_def bind_Some_iff split: if_splits)

text \<open>The sizes fixed when the book is built, and the prices that have a level.\<close>

record book_limits =
  lim_orders :: nat
  lim_levels :: nat
  lim_index :: u64

definition limits_of :: "order_book \<Rightarrow> book_limits" where
  "limits_of b = \<lparr>lim_orders = capacity (ob_orders b), lim_levels = capacity (ob_levels b),
     lim_index = fm_capacity (ob_index b)\<rparr>"

lemma limits_eq:
  "limits_of b' = limits_of b \<longleftrightarrow> capacity (ob_orders b') = capacity (ob_orders b) \<and>
     capacity (ob_levels b') = capacity (ob_levels b) \<and> fm_capacity (ob_index b') = fm_capacity (ob_index b)"
  by (simp add: limits_of_def)

definition prices :: "abs_book \<Rightarrow> (bool \<times> u32) set" where
  "prices B = {(s, p). B s p \<noteq> []}"

text \<open>The pools and the index hold exactly what the abstract book holds.\<close>

lemma card_orders:
  assumes "book_core b T Q"
  shows "card (dom (ords b)) = card (ids (abs_of b T Q))" "card (dom (fm_map (ob_index b))) = card (ids (abs_of b T Q))"
    "finite (ids (abs_of b T Q))"
proof -
  have d: "ids (abs_of b T Q) = dom (fm_map (ob_index b))" using ids_abs [OF assms] by (auto simp: domIff)
  show "card (dom (fm_map (ob_index b))) = card (ids (abs_of b T Q))" "finite (ids (abs_of b T Q))"
    unfolding d using fm_finite by auto
  then show "card (dom (ords b)) = card (ids (abs_of b T Q))"
    using index_card assms by (simp add: book_core_def)
qed

lemma card_levels:
  assumes inv: "book_inv b T Q"
  shows "card (dom (lvls b)) = card (prices (abs_of b T Q))"
proof (rule bij_betw_same_card)
  let ?f = "\<lambda>j. (pl_side (the (lvls b j)) = 0, pl_price (the (lvls b j)))"
  have c: "trees_ok b T" using inv by (auto simp: book_inv_def book_core_def)
  show "bij_betw ?f (dom (lvls b)) (prices (abs_of b T Q))"
    unfolding bij_betw_def
  proof
    show "inj_on ?f (dom (lvls b))"
    proof (rule inj_onI)
      fix i j assume ij: "i \<in> dom (lvls b)" "j \<in> dom (lvls b)" "?f i = ?f j"
      obtain l m where *: "?f i = ?f j" "lvls b i = Some l" "lvls b j = Some m" using ij by blast
      have "tfind (price_of (ob_levels b)) (pl_price l) (T (pl_side l = 0)) = Some i"
        using tfind_level [OF c *(2)] by simp
      moreover have "tfind (price_of (ob_levels b)) (pl_price l) (T (pl_side l = 0)) = Some j"
        using tfind_level [OF c *(3)] * by simp
      ultimately show "i = j" by simp
    qed
    show "?f ` dom (lvls b) = prices (abs_of b T Q)"
    proof (intro subset_antisym subsetI)
      fix x assume "x \<in> ?f ` dom (lvls b)"
      then obtain j l where j: "lvls b j = Some l" "x = (pl_side l = 0, pl_price l)" by auto
      have "pl_price l \<in> price_of (ob_levels b) ` set_tree (T (pl_side l = 0))"
        using level_side [OF c j(1)] j(1) by force
      then show "x \<in> prices (abs_of b T Q)" using level_iff_queue [OF inv] j(2) by (simp add: prices_def)
    next
      fix x assume "x \<in> prices (abs_of b T Q)"
      then obtain s p where x: "x = (s, p)" "abs_of b T Q s p \<noteq> []" by (auto simp: prices_def)
      have "p \<in> price_of (ob_levels b) ` set_tree (T s)" using level_iff_queue [OF inv, of p s] x(2) by simp
      then obtain j where j: "j \<in> set_tree (T s)" "price_of (ob_levels b) j = p" by auto
      obtain l where l: "lvls b j = Some l" using trees_okD(4) [OF c, of s] j(1) by auto
      have "?f j = x" using side_level_tag [OF c j(1) l] j(2) l x(1) by simp
      then show "x \<in> ?f ` dom (lvls b)" using l by blast
    qed
  qed
qed

text \<open>When an update is accepted, in terms of the abstract book and the sizes alone.\<close>

definition add_accepted :: "book_limits \<Rightarrow> book_update \<Rightarrow> abs_book \<Rightarrow> bool" where
  "add_accepted L upd B \<longleftrightarrow> 0 < upd_qty upd \<and> 0 < upd_price upd \<and> upd_order_id upd \<noteq> 0 \<and>
     upd_order_id upd \<notin> ids B \<and> card (ids B) < lim_orders L \<and> index_room (lim_index L) (card (ids B)) \<and>
     (B (upd_side upd = 0) (upd_price upd) \<noteq> [] \<or>
      (unat (upd_price upd) < 10000 \<and> card (prices B) < lim_levels L))"

lemma add_accepted_iff:
  assumes inv: "book_inv b T Q"
  shows "add_accepted (limits_of b) upd (abs_of b T Q) \<longleftrightarrow> 0 < upd_qty upd \<and> 0 < upd_price upd \<and>
    upd_order_id upd \<noteq> 0 \<and> upd_order_id upd \<notin> ids (abs_of b T Q) \<and>
    card (dom (ords b)) \<noteq> capacity (ob_orders b) \<and> \<not> fm_full (ob_index b) \<and>
    (abs_of b T Q (upd_side upd = 0) (upd_price upd) \<noteq> [] \<or>
      (unat (upd_price upd) < 10000 \<and> card (dom (lvls b)) \<noteq> capacity (ob_levels b)))"
proof -
  have core: "book_core b T Q" using inv by (simp add: book_inv_def)
  then have w: "pool_wf (ob_orders b)" "pool_wf (ob_levels b)" "fm_wf (ob_index b)"
    by (auto simp: book_core_def pools_ok_def)
  note le = card_live_le [OF w(1)] card_live_le [OF w(2)]
  have lt: "card (dom (ords b)) < capacity (ob_orders b) \<longleftrightarrow> card (dom (ords b)) \<noteq> capacity (ob_orders b)"
    "card (dom (lvls b)) < capacity (ob_levels b) \<longleftrightarrow> card (dom (lvls b)) \<noteq> capacity (ob_levels b)"
    using le by linarith+
  show ?thesis
    by (simp add: add_accepted_def limits_of_def fm_full_room [OF w(3)] card_orders(2) [OF core] lt
      flip: card_orders(1) [OF core] card_levels [OF inv])
qed

lemma level_for_refused:
  assumes inv: "book_inv b T Q" and e: "abs_of b T Q (s = 0) p = []"
    and r: "\<not> unat p < 10000 \<or> card (dom (lvls b)) = capacity (ob_levels b)"
  shows "level_for s p b = None"
proof -
  have c: "pools_ok b" "trees_ok b T" using inv by (auto simp: book_inv_def book_core_def)
  have pw: "pool_wf (ob_levels b)" using c(1) by (simp add: pools_ok_def)
  note rep = trees_okD(1) [OF c(2), of "s = 0"]
  have "p \<notin> price_of (ob_levels b) ` set_tree (T (s = 0))" using level_iff_queue [OF inv] e by blast
  then have fnd: "find_by_price (get_side b s) (ob_levels b) p = Some kInvalidPoolIndex"
    using find_by_price_None [OF rep] by (simp add: get_side_sides)
  show ?thesis
  proof (cases "card (dom (lvls b)) = capacity (ob_levels b)")
    case True
    then show ?thesis using fnd create_level_full [OF pw True] by (simp add: level_for_def)
  next
    case False
    then obtain j q where q: "create_level (get_side b s) p (ob_levels b) = Some (j, q)"
      "pool_at q = (lvls b)(j \<mapsto> fresh_level (get_side b s) p)"
      using create_level_ok [OF pw False] by blast
    have pf: "pl_price (fresh_level sd p) = p" for sd by (simp add: fresh_level_def)
    have qj: "pool_at q j = Some (fresh_level (get_side b s) p)" using q(2) by simp
    have "insert_level j (get_side b s) q (ob_stats b) = None"
      by (rule insert_level_out_of_range [OF _ _ qj])
        (use rep r False in \<open>simp_all add: side_rep_def get_side_sides pf\<close>)
    then show ?thesis using fnd q(1) by (simp add: level_for_def bind_Some_iff split: option.split)
  qed
qed

lemma add_order_refused:
  assumes inv: "book_inv b T Q" and n: "\<not> add_accepted (limits_of b) upd (abs_of b T Q)"
  shows "add_order upd b = None"
proof (rule ccontr)
  let ?k = "upd_order_id upd" and ?s = "upd_side upd" and ?p = "upd_price upd"
  assume "add_order upd b \<noteq> None"
  then obtain j b1 ptr o1 i o2 m where q: "0 < upd_qty upd" "0 < ?p" "fm_contains (ob_index b) ?k = Some False"
    "level_for ?s ?p b = Some (j, b1)" "order_allocate (ob_orders b1) = Some (ptr, o1)" "ptr = Some i"
    "fm_insert ?k i (ob_index b1) = Some (True, m)"
    by (auto simp: add_order_def bind_Some_iff)
  have core: "book_core b T Q" and c: "pools_ok b" using inv by (auto simp: book_inv_def book_core_def)
  have pw: "pool_wf (ob_orders b)" "pool_wf (ob_levels b)" "fm_wf (ob_index b)" using c by (auto simp: pools_ok_def)
  have same: "ob_orders b1 = ob_orders b" "ob_index b1 = ob_index b" using level_for_same [OF q(4)] by auto
  have k0: "?k \<noteq> 0" using q(3) by (auto simp: fm_contains_def fm_find_def kEmptyKey_def bind_Some_iff)
  have "?k \<notin> ids (abs_of b T Q)"
  proof
    assume "?k \<in> ids (abs_of b T Q)"
    then obtain i r where "fm_find (ob_index b) ?k = Some i" "i \<noteq> kEmpty" "ords b i = Some r" "ord_id r = ?k"
      by (rule abs_find [OF core])
    then show False using q(3) by (simp add: fm_contains_def)
  qed
  moreover have "card (dom (ords b)) \<noteq> capacity (ob_orders b)"
    using q(5,6) same(1) pool_allocate_eq [OF pw(1)] free_head_room [OF pw(1)]
    by (auto simp: order_allocate_def)
  moreover have "\<not> fm_full (ob_index b)"
    using q(7) same(2) fm_insert_full [of ?k "ob_index b" i] k0 by (auto simp: kEmptyKey_def)
  moreover have "abs_of b T Q (?s = 0) ?p \<noteq> [] \<or> (unat ?p < 10000 \<and> card (dom (lvls b)) \<noteq> capacity (ob_levels b))"
    using level_for_refused [OF inv] q(4) by fastforce
  ultimately show False using n q(1,2) k0 unfolding add_accepted_iff [OF inv] by blast
qed

text \<open>Adding an order. An update is accepted exactly when its quantity, price and id are not
  zero, the id is not in the book, both pools and the index have room, and its price either has a
  level or is below 10000. An accepted order joins the end of the queue of its price and nothing
  else in the book changes; a refused one fails an assertion.\<close>

lemma add_order_refines:
  assumes "book_rep b B"
  shows "if add_accepted (limits_of b) upd B
    then \<exists>b'. add_order upd b = Some b' \<and> limits_of b' = limits_of b \<and>
      book_rep b' (a_add (upd_side upd = 0) (upd_price upd) (resting_update upd) B)
    else add_order upd b = None"
proof -
  obtain T Q where inv: "book_inv b T Q" and B: "B = abs_of b T Q" using assms by (auto simp: book_rep_def)
  show ?thesis
  proof (cases "add_accepted (limits_of b) upd B")
    case True
    then have "\<exists>b' T' Q'. add_order upd b = Some b' \<and> book_inv b' T' Q' \<and>
      abs_of b' T' Q' = a_add (upd_side upd = 0) (upd_price upd) (resting_update upd) (abs_of b T Q) \<and>
      capacity (ob_orders b') = capacity (ob_orders b) \<and> capacity (ob_levels b') = capacity (ob_levels b) \<and>
      fm_capacity (ob_index b') = fm_capacity (ob_index b)"
      unfolding B add_accepted_iff [OF inv] by (intro add_order_inv [OF inv]) auto
    then show ?thesis using True unfolding B book_rep_def limits_eq by fastforce
  qed (use add_order_refused [OF inv] B in simp)
qed

section \<open>Cancelling, executing and deleting\<close>

lemma absent_find:
  assumes "book_core b T Q" "k \<notin> ids (abs_of b T Q)"
  shows "fm_find (ob_index b) k = None \<or> fm_find (ob_index b) k = Some kEmpty"
proof (cases "k = kEmptyKey")
  case True
  then show ?thesis by (simp add: fm_find_def)
next
  case False
  have "fm_wf (ob_index b)" using assms(1) by (auto simp: book_core_def pools_ok_def)
  moreover have "fm_map (ob_index b) k = None" using ids_abs [OF assms(1)] assms(2) by blast
  ultimately show ?thesis using fm_find_ok False by (simp add: kEmpty_def)
qed

definition resting_qty :: "abs_book \<Rightarrow> u64 \<Rightarrow> u32 \<Rightarrow> bool" where
  "resting_qty B k n \<longleftrightarrow> (\<exists>s p. \<exists>x \<in> set (B s p). rs_id x = k \<and> rs_qty x = n)"

lemma resting_qty_iff:
  assumes "book_core b T Q" "ords b i = Some r" "ord_id r = k"
  shows "resting_qty (abs_of b T Q) k n \<longleftrightarrow> n = ord_remaining_qty r"
proof
  assume "resting_qty (abs_of b T Q) k n"
  then show "n = ord_remaining_qty r"
    using abs_order(1) [OF assms(1,2)] assms(3) by (fastforce simp: resting_qty_def)
next
  assume n: "n = ord_remaining_qty r"
  obtain s p where "resting_of (ords b) i \<in> set (abs_of b T Q s p)"
    using abs_of_live [OF assms(1)] assms(2) by blast
  moreover have "rs_id (resting_of (ords b) i) = k" "rs_qty (resting_of (ords b) i) = n"
    using assms(2,3) n by (simp_all add: resting_of_def)
  ultimately show "resting_qty (abs_of b T Q) k n" unfolding resting_qty_def by blast
qed

lemma resting_qty_ids: "resting_qty B k n \<Longrightarrow> k \<in> ids B"
  by (auto simp: resting_qty_def ids_def)

text \<open>Cancelling. If the id rests in the book with at least the cancelled quantity, its
  quantity is reduced in place, keeping its position in the queue; it leaves the book, with its
  level when it was the last of the queue, exactly when nothing remains. All else is unchanged.
  In every other case an assertion fails.\<close>

lemma cancel_order_refines:
  assumes "book_rep b B"
  shows "if \<exists>n \<ge> upd_qty upd. resting_qty B (upd_order_id upd) n
    then \<exists>b'. cancel_order upd b = Some b' \<and> limits_of b' = limits_of b \<and>
      book_rep b' (a_reduce (upd_order_id upd) (upd_qty upd) B)
    else cancel_order upd b = None"
proof -
  obtain T Q where inv: "book_inv b T Q" and B: "B = abs_of b T Q" using assms by (auto simp: book_rep_def)
  have core: "book_core b T Q" using inv by (simp add: book_inv_def)
  show ?thesis
  proof (cases "upd_order_id upd \<in> ids B")
    case True
    then obtain i r where i: "fm_find (ob_index b) (upd_order_id upd) = Some i" "i \<noteq> kEmpty" "ords b i = Some r"
      "ord_id r = upd_order_id upd" unfolding B by (rule abs_find [OF core])
    note n = resting_qty_iff [OF core i(3,4), folded B]
    show ?thesis
    proof (cases "upd_qty upd \<le> ord_remaining_qty r")
      case True
      have "\<exists>b'. cancel_order upd b = Some b' \<and> limits_of b' = limits_of b \<and>
          book_rep b' (a_reduce (upd_order_id upd) (upd_qty upd) B)"
        using cancel_order_inv [OF inv i True] unfolding B book_rep_def limits_eq by fastforce
      then show ?thesis using True n by auto
    next
      case False
      then have "cancel_order upd b = None" using i by (simp add: cancel_order_def tc_assert_def)
      then show ?thesis using False n by auto
    qed
  next
    case False
    then have "cancel_order upd b = None" using absent_find [OF core, of "upd_order_id upd"]
      by (auto simp: B cancel_order_def)
    then show ?thesis using False resting_qty_ids by auto
  qed
qed

text \<open>Deleting an order removes it from its queue, and its level when the queue becomes
  empty, and changes nothing else; deleting an unknown id fails an assertion.\<close>

lemma delete_order_refines:
  assumes "book_rep b B"
  shows "if upd_order_id upd \<in> ids B
    then \<exists>b'. delete_order upd b = Some b' \<and> limits_of b' = limits_of b \<and>
      book_rep b' (a_delete (upd_order_id upd) B)
    else delete_order upd b = None"
proof -
  obtain T Q where inv: "book_inv b T Q" and B: "B = abs_of b T Q" using assms by (auto simp: book_rep_def)
  have core: "book_core b T Q" using inv by (simp add: book_inv_def)
  show ?thesis
  proof (cases "upd_order_id upd \<in> ids B")
    case True
    then have "\<exists>b'. delete_order upd b = Some b' \<and> limits_of b' = limits_of b \<and>
        book_rep b' (a_delete (upd_order_id upd) B)"
      using delete_order_inv [OF inv] unfolding B book_rep_def limits_eq by fastforce
    with True show ?thesis by simp
  next
    case False
    then have "delete_order upd b = None" using absent_find [OF core, of "upd_order_id upd"]
      by (auto simp: B delete_order_def)
    with False show ?thesis by simp
  qed
qed

section \<open>Modifying and replacing\<close>

text \<open>The order found for an id, with what the abstract book says of it.\<close>

definition resting_at :: "abs_book \<Rightarrow> u64 \<Rightarrow> bool \<Rightarrow> u32 \<Rightarrow> u32 \<Rightarrow> bool" where
  "resting_at B k s p n \<longleftrightarrow> (\<exists>x \<in> set (B s p). rs_id x = k \<and> rs_qty x = n)"

lemma resting_at_order:
  assumes core: "book_core b T Q" and k: "resting_at (abs_of b T Q) k s p n"
  obtains i r where "fm_find (ob_index b) k = Some i" "i \<noteq> kEmpty" "ords b i = Some r" "ord_id r = k"
    "ord_remaining_qty r = n" "ord_price r = p" "ord_side r = 0 \<longleftrightarrow> s"
proof -
  have c: "trees_ok b T" "queues_ok b Q" using core by (auto simp: book_core_def)
  obtain x where x: "x \<in> set (abs_of b T Q s p)" "rs_id x = k" "rs_qty x = n"
    using k by (auto simp: resting_at_def)
  then have "k \<in> ids (abs_of b T Q)" by (auto simp: ids_def)
  then obtain i r where i: "fm_find (ob_index b) k = Some i" "i \<noteq> kEmpty" "ords b i = Some r" "ord_id r = k"
    by (rule abs_find [OF core])
  obtain j where j: "tfind (price_of (ob_levels b)) p (T s) = Some j" "x \<in> resting_of (ords b) ` set (Q j)"
    using x(1) by (cases "tfind (price_of (ob_levels b)) p (T s)") (simp_all add: abs_of_def)
  then obtain l where l: "lvls b j = Some l"
    using side_find_Some [OF trees_okD(1) [OF c(1)]] trees_okD(4) [OF c(1), of s] by blast
  obtain y where y: "y \<in> set (Q j)" "x = resting_of (ords b) y" using j(2) by blast
  obtain z where z: "ords b y = Some z" "ord_price z = pl_price l" "ord_side z = 0 \<longleftrightarrow> pl_side l = 0"
    using queue_at(1) [OF c(2) l] y(1) by (auto simp: queue_ok_def)
  have "ord_id z = ord_id r" using x(2) y(2) z(1) i(4) by (simp add: resting_of_def)
  then have "y = i" by (rule abs_ids_unique [OF core i(3) z(1)])
  then have "z = r" using z(1) i(3) by simp
  moreover have "(s \<longleftrightarrow> pl_side l = 0) \<and> p = pl_price l" using tfind_level [OF c(1) l] j(1) by blast
  moreover have "rs_qty x = ord_remaining_qty z" using y(2) z(1) by (simp add: resting_of_def)
  ultimately show ?thesis using that i z(2,3) x(3) by metis
qed

lemma ids_a_delete: "ids (a_delete k B) = ids B - {k}"
  by (auto simp: ids_def a_delete_def)

lemma a_add_apply: "a_add s p r B s' p' = (if s' = s \<and> p' = p then B s p @ [r] else B s' p')"
  by (simp add: a_add_def)

lemma in_ids: "k \<in> ids B \<longleftrightarrow> (\<exists>s p. k \<in> rs_id ` set (B s p))"
  by (simp add: ids_def)

lemma ids_a_add: "ids (a_add s p r B) = insert (rs_id r) (ids B)"
proof (rule set_eqI)
  fix k
  have "k \<in> ids (a_add s p r B) \<longleftrightarrow> (\<exists>s' p'. (s' = s \<and> p' = p \<and> k = rs_id r) \<or> k \<in> rs_id ` set (B s' p'))"
    unfolding in_ids by (intro ex_cong1) (auto simp: a_add_apply)
  then show "k \<in> ids (a_add s p r B) \<longleftrightarrow> k \<in> insert (rs_id r) (ids B)" by (simp add: in_ids ex_disj_distrib)
qed

text \<open>Deleting an order makes the room its place in the book took.\<close>

lemma delete_room:
  assumes inv: "book_inv b T Q" and k: "resting_at (abs_of b T Q) k s p n"
    and u: "upd_order_id upd = k" "0 < upd_qty upd" "upd_price upd = p" "upd_side upd = 0 \<longleftrightarrow> s"
  shows "add_accepted (limits_of b) upd (a_delete k (abs_of b T Q))"
proof -
  let ?B = "abs_of b T Q"
  have core: "book_core b T Q" and pos: "positive_ok b" and tr: "trees_ok b T"
    using inv by (auto simp: book_inv_def book_core_def)
  then have w: "pool_wf (ob_orders b)" "pool_wf (ob_levels b)" "fm_wf (ob_index b)"
    by (auto simp: book_core_def pools_ok_def)
  obtain i r where i: "fm_find (ob_index b) k = Some i" "i \<noteq> kEmpty" "ords b i = Some r" "ord_id r = k"
    "ord_remaining_qty r = n" "ord_price r = p" "ord_side r = 0 \<longleftrightarrow> s" by (rule resting_at_order [OF core k])
  have p0: "0 < p" using pos i(3,6) by (auto simp: positive_ok_def)
  have k0: "k \<noteq> 0" using i(1,2) by (auto simp: fm_find_def kEmptyKey_def split: if_splits)
  have ki: "k \<in> ids ?B" using k by (auto simp: resting_at_def ids_def)
  note fin = card_orders(3) [OF core]
  have c: "card (ids ?B) = Suc (card (ids ?B - {k}))" using card_Suc_Diff1 [OF fin ki] by simp
  have "card (ids ?B) \<le> capacity (ob_orders b)" using card_live_le [OF w(1)] card_orders(1) [OF core] by simp
  then have o: "card (ids ?B - {k}) < capacity (ob_orders b)" using c by simp
  have sz: "unat (fm_size (ob_index b)) = card (ids ?B)" using fm_card [OF w(3)] card_orders(2) [OF core] by simp
  then have "fm_size (ob_index b) = word_of_nat (card (ids ?B - {k})) + 1" using c by (metis of_nat_Suc of_nat_unat_word add.commute)
  moreover have "fm_size (ob_index b) \<noteq> 0" using sz c by auto
  ultimately have ix: "index_room (fm_capacity (ob_index b)) (card (ids ?B - {k}))"
    using load_step [OF fm_wf_base [OF w(3)]] by (simp add: index_room_def)
  have sub: "prices (a_delete k ?B) \<subseteq> prices ?B" by (auto simp: prices_def a_delete_def)
  have sp: "?B s p \<noteq> []" using k by (auto simp: resting_at_def)
  then have "p \<in> price_of (ob_levels b) ` set_tree (T s)" using level_iff_queue [OF inv, of p s] by simp
  then obtain j where "j \<in> set_tree (T s)" "price_of (ob_levels b) j = p" by auto
  then have p1: "unat p < 10000" using side_rep_price_bound [OF trees_okD(1) [OF tr]] by blast
  have "card (prices (a_delete k ?B)) < lim_levels (limits_of b)" if "a_delete k ?B s p = []"
  proof -
    have "prices (a_delete k ?B) \<subset> prices ?B" using sub sp that by (auto simp: prices_def)
    then have "card (prices (a_delete k ?B)) < card (prices ?B)" by (rule psubset_card_mono [OF finite])
    then show ?thesis using card_live_le [OF w(2)] card_levels [OF inv] by (simp add: limits_of_def)
  qed
  then show ?thesis using u p0 p1 k0 o ix by (auto simp: add_accepted_def ids_a_delete limits_of_def)
qed

text \<open>Modifying an order that rests with quantity \<open>n\<close> on side \<open>s\<close> at price \<open>p\<close>. Less
  quantity keeps the place in the queue, more quantity goes to the end of the same queue with the
  time of the update, the same quantity changes nothing. Modifying never fails for a resting id,
  and a quantity of zero removes the order; an unknown id fails an assertion.\<close>

lemma modify_order_refines:
  assumes "book_rep b B"
  shows "if upd_order_id upd \<in> ids B
    then \<forall>s p n. resting_at B (upd_order_id upd) s p n \<longrightarrow>
      (\<exists>b'. modify_order upd b = Some b' \<and> limits_of b' = limits_of b \<and>
        book_rep b' (if upd_qty upd < n then a_reduce (upd_order_id upd) (n - upd_qty upd) B
          else if n < upd_qty upd then a_add s p (resting_update upd) (a_delete (upd_order_id upd) B)
          else B))
    else modify_order upd b = None"
proof -
  let ?k = "upd_order_id upd" and ?q = "upd_qty upd"
  obtain T Q where inv: "book_inv b T Q" and B: "B = abs_of b T Q" using assms by (auto simp: book_rep_def)
  have core: "book_core b T Q" using inv by (simp add: book_inv_def)
  have "\<exists>b'. modify_order upd b = Some b' \<and> limits_of b' = limits_of b \<and>
      book_rep b' (if ?q < n then a_reduce ?k (n - ?q) B
        else if n < ?q then a_add s p (resting_update upd) (a_delete ?k B) else B)"
    if at: "resting_at B ?k s p n" for s p n
  proof -
    obtain i r where i: "fm_find (ob_index b) ?k = Some i" "i \<noteq> kEmpty" "ords b i = Some r" "ord_id r = ?k"
      "ord_remaining_qty r = n" "ord_price r = p" "ord_side r = 0 \<longleftrightarrow> s"
      by (rule resting_at_order [OF core at [unfolded B]])
    have rq: "resting_qty B ?k n" using at by (auto simp: resting_at_def resting_qty_def)
    consider "?q < n" | "n < ?q" | "?q = n" by fastforce
    then show ?thesis
    proof cases
      case 1
      let ?u = "upd\<lparr>upd_qty := n - ?q\<rparr>"
      have "n - ?q \<le> n" using 1 by (simp add: word_sub_le)
      then have "\<exists>m \<ge> upd_qty ?u. resting_qty B (upd_order_id ?u) m" using rq by auto
      then have "\<exists>b'. cancel_order ?u b = Some b' \<and> limits_of b' = limits_of b \<and> book_rep b' (a_reduce ?k (n - ?q) B)"
        using cancel_order_refines [OF assms, of ?u] by simp
      then show ?thesis using 1 i by (simp add: modify_order_def)
    next
      case 2
      let ?u = "upd\<lparr>upd_price := ord_price r, upd_side := ord_side r\<rparr>"
      obtain b1 where b1: "delete_order upd b = Some b1" "limits_of b1 = limits_of b" "book_rep b1 (a_delete ?k B)"
        using delete_order_refines [OF assms, of upd] resting_qty_ids [OF rq] by auto
      have "0 < ?q" using 2 by (auto simp: word_gt_0)
      then have "add_accepted (limits_of b) ?u (a_delete ?k B)"
        unfolding B by (intro delete_room [OF inv at [unfolded B]]) (use i in simp_all)
      then obtain b2 where b2: "add_order ?u b1 = Some b2" "limits_of b2 = limits_of b1"
        "book_rep b2 (a_add (ord_side r = 0) p (resting_update ?u) (a_delete ?k B))"
        using add_order_refines [OF b1(3), of ?u] b1(2) i(6) by auto
      have "resting_update ?u = resting_update upd" by (simp add: resting_update_def)
      then show ?thesis using 2 i b1 b2 by (auto simp: modify_order_def)
    next
      case 3
      then show ?thesis using assms i by (simp add: modify_order_def)
    qed
  qed
  moreover have "modify_order upd b = None" if "?k \<notin> ids B"
    using absent_find [OF core, of ?k] that by (auto simp: B modify_order_def)
  ultimately show ?thesis by simp
qed

text \<open>Replacing deletes the old id and adds the new one at the end of its queue. It succeeds
  exactly when the old id rests in the book and the new order is accepted by the book without
  the old one.\<close>

lemma replace_order_refines:
  assumes "book_rep b B"
  shows "if upd_order_id upd \<in> ids B \<and>
      add_accepted (limits_of b) (upd\<lparr>upd_order_id := upd_match_id upd\<rparr>) (a_delete (upd_order_id upd) B)
    then \<exists>b'. replace_order upd b = Some b' \<and> limits_of b' = limits_of b \<and>
      book_rep b' (a_add (upd_side upd = 0) (upd_price upd) (resting_update (upd\<lparr>upd_order_id := upd_match_id upd\<rparr>))
        (a_delete (upd_order_id upd) B))
    else replace_order upd b = None"
proof (cases "upd_order_id upd \<in> ids B")
  case True
  then obtain b1 where b1: "delete_order upd b = Some b1" "limits_of b1 = limits_of b"
    "book_rep b1 (a_delete (upd_order_id upd) B)"
    using delete_order_refines [OF assms, of upd] by auto
  then show ?thesis using True add_order_refines [OF b1(3), of "upd\<lparr>upd_order_id := upd_match_id upd\<rparr>"]
    by (auto simp: replace_order_def split: if_splits)
next
  case False
  then show ?thesis using delete_order_refines [OF assms, of upd] by (simp add: replace_order_def)
qed

section \<open>Dispatching\<close>

text \<open>One update of the abstract book. \<open>rt\<close> is the value of the enumerator the code names
  \<open>ReplaceOrder\<close>.\<close>

inductive book_step :: "book_limits \<Rightarrow> update_type \<Rightarrow> book_update \<Rightarrow> abs_book \<Rightarrow> abs_book \<Rightarrow> bool"
  for L :: book_limits and rt :: update_type and upd :: book_update and B :: abs_book where
  Add: "upd_type upd = AddOrder \<Longrightarrow> add_accepted L upd B \<Longrightarrow>
    book_step L rt upd B (a_add (upd_side upd = 0) (upd_price upd) (resting_update upd) B)"
| Reduce: "upd_type upd = CancelOrder \<or> upd_type upd = ExecuteOrder \<Longrightarrow>
    resting_qty B (upd_order_id upd) n \<Longrightarrow> upd_qty upd \<le> n \<Longrightarrow>
    book_step L rt upd B (a_reduce (upd_order_id upd) (upd_qty upd) B)"
| Delete: "upd_type upd = DeleteOrder \<Longrightarrow> upd_order_id upd \<in> ids B \<Longrightarrow>
    book_step L rt upd B (a_delete (upd_order_id upd) B)"
| Replace: "upd_type upd = rt \<Longrightarrow> upd_order_id upd \<in> ids B \<Longrightarrow>
    add_accepted L (upd\<lparr>upd_order_id := upd_match_id upd\<rparr>) (a_delete (upd_order_id upd) B) \<Longrightarrow>
    book_step L rt upd B (a_add (upd_side upd = 0) (upd_price upd)
      (resting_update (upd\<lparr>upd_order_id := upd_match_id upd\<rparr>)) (a_delete (upd_order_id upd) B))"
| Modify: "upd_type upd = ModifyOrder \<Longrightarrow> resting_at B (upd_order_id upd) s p n \<Longrightarrow>
    book_step L rt upd B (if upd_qty upd < n then a_reduce (upd_order_id upd) (n - upd_qty upd) B
      else if n < upd_qty upd then a_add s p (resting_update upd) (a_delete (upd_order_id upd) B)
      else B)"
| Ignore: "upd_type upd \<notin> {AddOrder, CancelOrder, ExecuteOrder, DeleteOrder, ModifyOrder, rt} \<Longrightarrow>
    book_step L rt upd B B"

definition fresh_type :: "update_type \<Rightarrow> bool" where
  "fresh_type rt \<longleftrightarrow> rt \<notin> {AddOrder, CancelOrder, ExecuteOrder, DeleteOrder, ModifyOrder}"

lemma update_types_distinct [simp]:
  "AddOrder \<noteq> CancelOrder" "AddOrder \<noteq> ExecuteOrder" "AddOrder \<noteq> DeleteOrder" "AddOrder \<noteq> ModifyOrder"
  "CancelOrder \<noteq> ExecuteOrder" "CancelOrder \<noteq> DeleteOrder" "CancelOrder \<noteq> ModifyOrder"
  "ExecuteOrder \<noteq> DeleteOrder" "ExecuteOrder \<noteq> ModifyOrder" "DeleteOrder \<noteq> ModifyOrder"
  by (simp_all add: update_type_defs)

lemmas update_types_distinct' [simp] = update_types_distinct [symmetric]

text \<open>A run implements a set of abstract outcomes: it fails an assertion exactly when there is
  none, and otherwise its book represents one of them.\<close>

definition implements :: "order_book option \<Rightarrow> order_book \<Rightarrow> (abs_book \<Rightarrow> bool) \<Rightarrow> bool" where
  "implements res b P \<longleftrightarrow> (case res of None \<Rightarrow> \<forall>B'. \<not> P B'
     | Some b' \<Rightarrow> limits_of b' = limits_of b \<and> (\<exists>B'. P B' \<and> book_rep b' B'))"

lemma implements_None: "(\<And>B'. \<not> P B') \<Longrightarrow> implements None b P"
  by (simp add: implements_def)

lemma implements_Some: "limits_of b' = limits_of b \<Longrightarrow> P B' \<Longrightarrow> book_rep b' B' \<Longrightarrow> implements (Some b') b P"
  by (auto simp: implements_def)

lemma implements_if:
  assumes "\<And>B'. P B' \<longleftrightarrow> c \<and> B' = X"
    "if c then \<exists>b'. r = Some b' \<and> limits_of b' = limits_of b \<and> book_rep b' X else r = None"
  shows "implements r b P"
  using assms(2) by (cases c) (auto simp: implements_def assms(1))

lemma ids_resting_at: "k \<in> ids B \<longleftrightarrow> (\<exists>s p n. resting_at B k s p n)"
  by (auto simp: ids_def resting_at_def)

inductive_simps book_step_iff: "book_step L rt upd B B'"

lemma dispatch_eq:
  assumes "fresh_type rt"
  shows "dispatch rt upd b = (if upd_type upd = AddOrder then add_order upd b
    else if upd_type upd = CancelOrder \<or> upd_type upd = ExecuteOrder then cancel_order upd b
    else if upd_type upd = DeleteOrder then delete_order upd b
    else if upd_type upd = ModifyOrder then modify_order upd b
    else if upd_type upd = rt then replace_order upd b else Some b)"
  using assms by (auto simp: dispatch_def dispatch_table_def fresh_type_def ignore_update_def execute_order_def)

lemma modify_implements:
  assumes rep: "book_rep b B" and rt: "fresh_type rt" and t: "upd_type upd = ModifyOrder"
  shows "implements (modify_order upd b) b (book_step (limits_of b) rt upd B)"
proof (cases "upd_order_id upd \<in> ids B")
  case True
  let ?k = "upd_order_id upd"
  obtain s p n where at: "resting_at B ?k s p n" using True unfolding ids_resting_at by blast
  note modify_order_refines [OF rep, of upd, unfolded if_P [OF True], rule_format, OF at]
  then obtain b' where "modify_order upd b = Some b'" "limits_of b' = limits_of b"
    "book_rep b' (if upd_qty upd < n then a_reduce ?k (n - upd_qty upd) B
      else if n < upd_qty upd then a_add s p (resting_update upd) (a_delete ?k B) else B)"
    by (elim exE conjE)
  with book_step.Modify [OF t at] show ?thesis by (metis implements_Some)
next
  case False
  then have "\<not> book_step (limits_of b) rt upd B B'" for B'
    using t rt by (auto simp: book_step_iff ids_resting_at fresh_type_def)
  then show ?thesis using modify_order_refines [OF rep, of upd] False by (simp add: implements_None)
qed

lemma dispatch_implements:
  assumes "book_rep b B" "fresh_type rt"
  shows "implements (dispatch rt upd b) b (book_step (limits_of b) rt upd B)"
proof -
  let ?k = "upd_order_id upd" and ?t = "upd_type upd"
  note defs = dispatch_eq [OF assms(2)]
  have rt: "rt \<notin> {AddOrder, CancelOrder, ExecuteOrder, DeleteOrder, ModifyOrder}"
    using assms(2) by (simp add: fresh_type_def)
  consider "?t = AddOrder" | "?t = CancelOrder \<or> ?t = ExecuteOrder" | "?t = DeleteOrder" | "?t = ModifyOrder"
    | "?t = rt" | "?t \<notin> {AddOrder, CancelOrder, ExecuteOrder, DeleteOrder, ModifyOrder, rt}" by auto
  then show ?thesis
  proof cases
    case 1
    then have "dispatch rt upd b = add_order upd b" by (simp add: defs)
    moreover have "book_step (limits_of b) rt upd B B' \<longleftrightarrow> add_accepted (limits_of b) upd B \<and>
        B' = a_add (upd_side upd = 0) (upd_price upd) (resting_update upd) B" for B'
      using 1 rt by (auto simp: book_step_iff)
    ultimately show ?thesis using add_order_refines [OF assms(1), of upd] by (simp only: implements_if)
  next
    case 2
    then have "dispatch rt upd b = cancel_order upd b" by (auto simp: defs)
    moreover have "book_step (limits_of b) rt upd B B' \<longleftrightarrow> (\<exists>n \<ge> upd_qty upd. resting_qty B ?k n) \<and>
        B' = a_reduce ?k (upd_qty upd) B" for B'
      using 2 rt unfolding book_step_iff by (elim disjE) (simp_all add: eq_commute [of _ rt] conj_commute)
    ultimately show ?thesis using cancel_order_refines [OF assms(1), of upd] by (simp only: implements_if)
  next
    case 3
    then have "dispatch rt upd b = delete_order upd b" by (simp add: defs)
    moreover have "book_step (limits_of b) rt upd B B' \<longleftrightarrow> ?k \<in> ids B \<and> B' = a_delete ?k B" for B'
      using 3 rt by (auto simp: book_step_iff)
    ultimately show ?thesis using delete_order_refines [OF assms(1), of upd] by (simp only: implements_if)
  next
    case 4
    then have "dispatch rt upd b = modify_order upd b" by (simp add: defs)
    then show ?thesis using modify_implements [OF assms 4] by simp
  next
    case 5
    then have "dispatch rt upd b = replace_order upd b" using rt by (simp add: defs)
    moreover have "book_step (limits_of b) rt upd B B' \<longleftrightarrow> ?k \<in> ids B \<and>
        add_accepted (limits_of b) (upd\<lparr>upd_order_id := upd_match_id upd\<rparr>) (a_delete ?k B) \<and>
        B' = a_add (upd_side upd = 0) (upd_price upd) (resting_update (upd\<lparr>upd_order_id := upd_match_id upd\<rparr>))
          (a_delete ?k B)" for B'
      using 5 rt by (auto simp: book_step_iff)
    ultimately show ?thesis using replace_order_refines [OF assms(1), of upd]
      by (simp only: implements_if conj_assoc [symmetric])
  next
    case 6
    then have "dispatch rt upd b = Some b" by (simp add: defs)
    with 6 assms(1) show ?thesis by (metis implements_Some book_step.Ignore)
  qed
qed

end
