(* ===== verification/TC_Order_Book_Run.thy ===== *)
theory TC_Order_Book_Run
  imports TC_Order_Book_Spec
begin

text \<open>
  Runs of the order book: the books that dispatching any sequence of updates to a new book can
  reach, and what holds in all of them: they represent an abstract book, the pools and the index
  hold nothing but its orders and levels, the best prices of the two sides are its best prices
  with their summed quantities, and the trees are balanced and shallow.
\<close>

section \<open>A new book\<close>

definition empty_book :: abs_book where
  "empty_book = (\<lambda>s p. [])"

definition sizes_ok :: "nat \<Rightarrow> nat \<Rightarrow> bool" where
  "sizes_ok n m \<longleftrightarrow> 0 < n \<and> n < 2 ^ 32 \<and> 0 < m \<and> m < 2 ^ 32"

lemma book_new:
  assumes "sizes_ok n m"
  shows "\<exists>b. order_book_new n m = Some b \<and> book_rep b empty_book \<and>
    lim_orders (limits_of b) = n \<and> lim_levels (limits_of b) = m \<and>
    n \<le> unat (lim_index (limits_of b)) \<and> unat (lim_index (limits_of b)) < 2 * n"
proof -
  obtain po :: order_pool where po: "pool_new n = Some po" "pool_wf po" "pool_at po = Map.empty" "capacity po = n"
    using pool_new_ok assms unfolding sizes_ok_def by blast
  obtain pl :: level_pool where pl: "pool_new m = Some pl" "pool_wf pl" "pool_at pl = Map.empty" "capacity pl = m"
    using pool_new_ok assms unfolding sizes_ok_def by blast
  let ?c = "word_of_nat n :: u64"
  have u: "unat ?c = n" using assms by (intro unat_of_nat_u64) (auto simp: sizes_ok_def)
  have "?c \<noteq> 0" using u assms unfolding sizes_ok_def by (metis unat_0 less_irrefl)
  then have "0 < ?c" by (simp add: word_gt_0)
  moreover have "unat ?c \<le> 2 ^ 63" using u assms by (auto simp: sizes_ok_def)
  ultimately obtain x where x: "fm_new ?c = Some x" "fm_wf x" "fm_map x = Map.empty"
      "n \<le> unat (fm_capacity x)" "unat (fm_capacity x) < 2 * n"
    using fm_new_ok [of ?c] u by auto
  define b where "b = \<lparr>ob_orders = po, ob_levels = pl, ob_index = x, ob_bids = book_side_new 0,
    ob_asks = book_side_new 1, ob_stats = stats_init\<rparr>"
  have "order_book_new n m = Some b" by (simp add: order_book_new_def po pl x b_def)
  moreover have "book_inv b (\<lambda>_. Leaf) (\<lambda>_. [])"
  proof -
    have "trees_ok b (\<lambda>_. Leaf)"
      by (auto simp: trees_ok_def b_def pl sides_def side_rep_new) (simp_all add: book_side_new_def)
    then show ?thesis
      by (simp add: book_inv_def book_core_def pools_ok_def queues_ok_def index_ok_def totals_ok_def
        positive_ok_def busy_ok_def) (simp add: b_def po pl x)
  qed
  moreover have "abs_of b (\<lambda>_. Leaf) (\<lambda>_. []) = empty_book"
    by (simp add: abs_of_def empty_book_def fun_eq_iff)
  ultimately have "order_book_new n m = Some b \<and> book_rep b empty_book"
    unfolding book_rep_def by (metis (no_types))
  then show ?thesis using po pl x
    by (intro exI [of _ b]) (simp add: limits_of_def b_def)
qed

section \<open>Reachable books\<close>

inductive reachable :: "update_type \<Rightarrow> nat \<Rightarrow> nat \<Rightarrow> order_book \<Rightarrow> bool"
  for rt :: update_type and n :: nat and m :: nat where
  Start: "order_book_new n m = Some b \<Longrightarrow> reachable rt n m b"
| Step: "reachable rt n m b \<Longrightarrow> dispatch rt upd b = Some b' \<Longrightarrow> reachable rt n m b'"

lemma reachable_rep:
  assumes "reachable rt n m b" "sizes_ok n m" "fresh_type rt"
  shows "(\<exists>B. book_rep b B) \<and> lim_orders (limits_of b) = n \<and> lim_levels (limits_of b) = m"
  using assms(1)
proof induction
  case (Start b)
  with book_new [OF assms(2)] show ?case by auto
next
  case (Step b upd b')
  then obtain B where B: "book_rep b B" by blast
  from dispatch_implements [OF this assms(3), of upd] Step show ?case
    by (auto simp: implements_def)
qed

section \<open>Best prices\<close>

lemma best_in_top:
  assumes "sorted_by pr (inorder t)" "best_in s t = Some j" "i \<in> set_tree t"
  shows "if s = 0 then pr i \<le> pr j else pr j \<le> pr i"
proof -
  have ne: "inorder t \<noteq> []" and i: "i \<in> set (inorder t)" using assms(3) by auto
  have "pr i \<le> pr (last xs)" "pr (hd xs) \<le> pr i" if "sorted_by pr xs" "i \<in> set xs" for xs
    using that by (induction xs) (auto intro: order.strict_implies_order)
  then show ?thesis using assms(1,2) i ne by (auto simp: best_in_def tmax_eq tmin_eq split: if_splits)
qed

definition best_price_in :: "bool \<Rightarrow> abs_book \<Rightarrow> u32 \<Rightarrow> bool" where
  "best_price_in s B p \<longleftrightarrow> B s p \<noteq> [] \<and> (\<forall>p'. B s p' \<noteq> [] \<longrightarrow> (if s then p' \<le> p else p \<le> p'))"

definition queue_qty :: "resting list \<Rightarrow> u32" where
  "queue_qty xs = sum_list (map rs_qty xs)"

text \<open>The level behind the cached best index is the best non-empty price of the abstract book.\<close>

lemma best_level:
  assumes inv: "book_inv b T Q" and B: "B = abs_of b T Q"
  shows "if \<forall>p. B s p = [] then bbo_idx (sides b s) = kInvalidPoolIndex
    else \<exists>l. bbo_idx (sides b s) \<noteq> kInvalidPoolIndex \<and> lvls b (bbo_idx (sides b s)) = Some l \<and>
      (pl_side l = 0 \<longleftrightarrow> s) \<and> best_price_in s B (pl_price l) \<and> pl_total_qty l = queue_qty (B s (pl_price l)) \<and>
      unat (pl_order_count l) = length (B s (pl_price l))"
proof -
  have c: "trees_ok b T" "queues_ok b Q" "totals_ok b Q" using inv by (auto simp: book_inv_def book_core_def)
  note rep = trees_okD(1) [OF c(1), of s]
  have bb: "bbo_idx (sides b s) = or_invalid (best_in (bs_side (sides b s)) (T s))"
    using rep by (simp add: side_rep_def)
  have e: "B s p \<noteq> [] \<longleftrightarrow> p \<in> price_of (ob_levels b) ` set_tree (T s)" for p
    unfolding B by (rule level_iff_queue [OF inv, symmetric])
  show ?thesis
  proof (cases "best_in (bs_side (sides b s)) (T s)")
    case None
    then have "T s = Leaf" by (simp add: best_in_None)
    then show ?thesis using e None bb by simp
  next
    case (Some j)
    then have j: "j \<in> set_tree (T s)" by (rule best_in_mem)
    obtain l where l: "lvls b j = Some l" "j \<noteq> kInvalidPoolIndex" using side_rep_live [OF rep j] by auto
    have side: "pl_side l = 0 \<longleftrightarrow> s" by (rule side_level_tag [OF c(1) j l(1)])
    have q: "B s (pl_price l) = map (resting_of (ords b)) (Q j)"
      using abs_of_level [OF c(1) l(1), of Q] side by (simp add: B)
    have live: "\<exists>r. ords b x = Some r" if "x \<in> set (Q j)" for x using queue_at(2) [OF c(2) l(1)] that by auto
    have "map (remaining (ords b)) (Q j) = map rs_qty (B s (pl_price l))"
      unfolding q using live by (fastforce simp: resting_of_def)
    then have "pl_total_qty l = queue_qty (B s (pl_price l))" using c(3) l(1) by (simp add: totals_ok_def queue_qty_def)
    moreover have "unat (pl_order_count l) = length (B s (pl_price l))"
      using queue_at(1) [OF c(2) l(1)] by (simp add: q queue_ok_def)
    moreover have ne: "B s (pl_price l) \<noteq> []" using e j l(1) by force
    moreover have "best_price_in s B (pl_price l)"
      unfolding best_price_in_def
    proof (intro conjI allI impI ne)
      fix p assume "B s p \<noteq> []"
      obtain i where "i \<in> set_tree (T s)" "p = price_of (ob_levels b) i" using e \<open>B s p \<noteq> []\<close> by auto
      with best_in_top [OF side_rep_sorted [OF rep] Some] trees_okD(2) [OF c(1), of s] l(1)
      show "if s then p \<le> pl_price l else pl_price l \<le> p" by (auto split: if_splits)
    qed
    moreover have "\<not> (\<forall>p. B s p = [])" using ne by blast
    ultimately show ?thesis using bb Some l side by simp
  qed
qed

lemma best_price_ex:
  assumes "book_rep b B"
  shows "(\<exists>p. best_price_in s B p) \<longleftrightarrow> (\<exists>p. B s p \<noteq> [])"
proof
  assume "\<exists>p. B s p \<noteq> []"
  then have n: "\<not> (\<forall>p. B s p = [])" by blast
  obtain T Q where "book_inv b T Q" "B = abs_of b T Q" using assms by (auto simp: book_rep_def)
  from best_level [OF this, of s, unfolded if_not_P [OF n]] show "\<exists>p. best_price_in s B p" by blast
qed (auto simp: best_price_in_def)

text \<open>C13: The best bid and ask of the book, read in constant time. A side without orders gives the
  invalid value. Otherwise the price is the highest bid, the lowest ask, that has orders, the
  quantity is the sum of their remaining quantities in 32 bits and the count is their number.\<close>

theorem best_prices_correct:
  assumes "book_rep b B"
  shows "((\<forall>p. B True p = []) \<and> best_bid_of (ob_bids b) (ob_levels b) = Some no_bid \<or>
      (\<exists>p c. best_price_in True B p \<and> unat c = length (B True p) \<and> best_bid_of (ob_bids b) (ob_levels b) =
        Some \<lparr>bid_price = p, bid_qty = queue_qty (B True p), bid_order_count = c, bid_valid = True\<rparr>)) \<and>
    ((\<forall>p. B False p = []) \<and> best_ask_of (ob_asks b) (ob_levels b) = Some no_ask \<or>
      (\<exists>p c. best_price_in False B p \<and> unat c = length (B False p) \<and> best_ask_of (ob_asks b) (ob_levels b) =
        Some \<lparr>ask_price = p, ask_qty = queue_qty (B False p), ask_order_count = c, ask_valid = True\<rparr>))"
proof -
  obtain T Q where inv: "book_inv b T Q" and B: "B = abs_of b T Q" using assms by (auto simp: book_rep_def)
  have c: "trees_ok b T" using inv by (auto simp: book_inv_def book_core_def)
  have s: "sides b True = ob_bids b" "sides b False = ob_asks b" by (simp_all add: sides_def)
  have t: "bs_side (ob_bids b) = 0" "bs_side (ob_asks b) = 1"
    using trees_okD(2) [OF c, of True] trees_okD(2) [OF c, of False] by (simp_all add: s)
  have "best_bid_of (ob_bids b) (ob_levels b) = Some no_bid" if "\<forall>p. B True p = []"
    using best_level [OF inv B, of True] that t by (simp add: s best_bid_of_def)
  moreover have "\<exists>p c. best_price_in True B p \<and> unat c = length (B True p) \<and> best_bid_of (ob_bids b) (ob_levels b) =
      Some \<lparr>bid_price = p, bid_qty = queue_qty (B True p), bid_order_count = c, bid_valid = True\<rparr>"
    if "\<not> (\<forall>p. B True p = [])"
    using best_level [OF inv B, of True, unfolded if_not_P [OF that]] t by (auto simp: s best_bid_of_def)
  moreover have "best_ask_of (ob_asks b) (ob_levels b) = Some no_ask" if "\<forall>p. B False p = []"
    using best_level [OF inv B, of False] that t by (simp add: s best_ask_of_def)
  moreover have "\<exists>p c. best_price_in False B p \<and> unat c = length (B False p) \<and> best_ask_of (ob_asks b) (ob_levels b) =
      Some \<lparr>ask_price = p, ask_qty = queue_qty (B False p), ask_order_count = c, ask_valid = True\<rparr>"
    if "\<not> (\<forall>p. B False p = [])"
    using best_level [OF inv B, of False, unfolded if_not_P [OF that]] t by (auto simp: s best_ask_of_def)
  ultimately show ?thesis by blast
qed

text \<open>What a book that represents an abstract book holds.\<close>

lemma rep_counts:
  assumes "book_rep b B"
  shows "unat (active_count (ob_orders b)) = card (ids B)" "unat (fm_size (ob_index b)) = card (ids B)"
    "unat (active_count (ob_levels b)) = card (prices B)" "card (ids B) \<le> capacity (ob_orders b)"
    "card (prices B) \<le> capacity (ob_levels b)" "finite (ids B)"
proof -
  obtain T Q where inv: "book_inv b T Q" and A: "B = abs_of b T Q" using assms by (auto simp: book_rep_def)
  have core: "book_core b T Q" using inv by (simp add: book_inv_def)
  then have w: "pool_wf (ob_orders b)" "pool_wf (ob_levels b)" "fm_wf (ob_index b)"
    by (auto simp: book_core_def pools_ok_def)
  note cards = card_live [OF w(1)] card_live [OF w(2)] fm_card [OF w(3)] card_orders [OF core] card_levels [OF inv]
    card_live_le [OF w(1)] card_live_le [OF w(2)]
  show "unat (active_count (ob_orders b)) = card (ids B)" "unat (fm_size (ob_index b)) = card (ids B)"
    "unat (active_count (ob_levels b)) = card (prices B)" "card (ids B) \<le> capacity (ob_orders b)"
    "card (prices B) \<le> capacity (ob_levels b)" "finite (ids B)" using cards by (simp_all add: A)
qed

text \<open>C2: No leaks. In every book a sequence of updates can reach from a new one, the pool of
  orders and the index hold exactly the orders of the abstract book, the pool of levels exactly
  its non-empty prices, and neither pool exceeds the size it was built with.\<close>

theorem reachable_no_leak:
  assumes "reachable rt n m b" "sizes_ok n m" "fresh_type rt"
  shows "\<exists>B. book_rep b B \<and> unat (active_count (ob_orders b)) = card (ids B) \<and>
    unat (fm_size (ob_index b)) = card (ids B) \<and> unat (active_count (ob_levels b)) = card (prices B) \<and>
    card (ids B) \<le> n \<and> card (prices B) \<le> m"
proof -
  obtain B where "book_rep b B" "capacity (ob_orders b) = n" "capacity (ob_levels b) = m"
    using reachable_rep [OF assms] by (auto simp: limits_of_def)
  with rep_counts [of b B] show ?thesis by auto
qed

section \<open>Balance\<close>

text \<open>The trees of a represented book: balance at every level, and the height between the logarithm
  of the number of prices and the height of the sparsest balanced tree.\<close>

lemma side_height:
  assumes inv: "book_inv b T Q" and B: "B = abs_of b T Q"
  shows "\<exists>h. avl_height (ob_levels b) (avl_root (sides b s)) = Some (int h) \<and>
    unat (level_count (sides b s)) = card {p. B s p \<noteq> []} \<and> card {p. B s p \<noteq> []} < 2 ^ h \<and>
    avl_least h \<le> card {p. B s p \<noteq> []} \<and> h \<le> 18"
proof -
  have "trees_ok b T" using inv by (simp add: book_inv_def book_core_def)
  note r = trees_okD(1) [OF this, of s]
  let ?pr = "price_of (ob_levels b)"
  note so = side_rep_sorted [OF r]
  have im: "{p. B s p \<noteq> []} = ?pr ` set_tree (T s)" using level_iff_queue [OF inv, of _ s] unfolding B by blast
  have "inj_on ?pr (set (inorder (T s)))" using sorted_by_inj [OF so] by (auto intro!: inj_onI)
  then have c: "card {p. B s p \<noteq> []} = size (T s)"
    using distinct_card [OF sorted_by_distinct [OF so]] by (simp add: im card_image)
  have "{p. B s p \<noteq> []} \<subseteq> word_of_nat ` {..< 10000}"
  proof
    fix p assume "p \<in> {p. B s p \<noteq> []}"
    then obtain j where "j \<in> set_tree (T s)" "p = ?pr j" using im by blast
    then have "unat p < 10000" using side_rep_price_bound [OF r] by blast
    then show "p \<in> word_of_nat ` {..< 10000}" by (intro image_eqI [of _ _ "unat p"]) simp_all
  qed
  then have "card {p. B s p \<noteq> []} \<le> 10000" using surj_card_le [of "{..< 10000 :: nat}"] by simp
  moreover have "avl (T s)" "unat (level_count (sides b s)) = size (T s)" using r by (simp_all add: side_rep_def)
  ultimately show ?thesis
    using avl_height_tree [OF side_rep_tree [OF r]] size_less_height [of "T s"] avl_least_size [of "T s"]
      avl_height_18 [of "T s"] by (intro exI [of _ "height (T s)"]) (simp add: c)
qed

lemma levels_balanced:
  assumes "book_rep b B" "i \<in> dom (lvls b)"
  shows "(\<exists>d. balance_factor (ob_levels b) i = Some d \<and> \<bar>d\<bar> \<le> 1) \<and>
    update_height (ob_levels b) i = Some (ob_levels b)"
proof -
  obtain T Q where "book_inv b T Q" using assms(1) by (auto simp: book_rep_def)
  then have t: "trees_ok b T" by (simp add: book_inv_def book_core_def)
  then obtain s where "i \<in> set_tree (T s)" using assms(2) by (auto simp: trees_ok_def)
  moreover have "avl (T s)" using trees_okD(1) [OF t, of s] by (simp add: side_rep_def)
  ultimately show ?thesis using node_balanced [OF side_rep_tree [OF trees_okD(1) [OF t]]] by blast
qed

text \<open>C20: Balance in every book a sequence of updates can reach. At each price level, on either side,
  the balance factor the code computes is -1, 0 or 1, and updating the height of the level changes
  nothing, so every stored height is one more than the greater of its children's. With \<open>n\<close> prices on a
  side, which is what the side counts, the height the code reads at its root is \<open>h\<close> with \<open>n < 2 ^ h\<close> and
  \<open>avl_least h \<le> n\<close>, and never more than 18: no search or recursion goes deeper, and no
  height overflows its 32 bits.\<close>

theorem reachable_balanced:
  assumes "reachable rt n m b" "sizes_ok n m" "fresh_type rt"
  shows "(\<forall>i \<in> dom (lvls b). (\<exists>d. balance_factor (ob_levels b) i = Some d \<and> \<bar>d\<bar> \<le> 1) \<and>
      update_height (ob_levels b) i = Some (ob_levels b)) \<and>
    (\<exists>B. book_rep b B \<and> (\<forall>s. \<exists>h. avl_height (ob_levels b) (avl_root (sides b s)) = Some (int h) \<and>
      unat (level_count (sides b s)) = card {p. B s p \<noteq> []} \<and> card {p. B s p \<noteq> []} < 2 ^ h \<and>
      avl_least h \<le> card {p. B s p \<noteq> []} \<and> h \<le> 18))"
proof -
  obtain B where B: "book_rep b B" using reachable_rep [OF assms] by blast
  then obtain T Q where inv: "book_inv b T Q" "B = abs_of b T Q" by (auto simp: book_rep_def)
  show ?thesis using B levels_balanced [OF B] side_height [OF inv] by blast
qed

text \<open>A sequence of updates, as the replay engine feeds it.\<close>

fun dispatch_all :: "update_type \<Rightarrow> book_update list \<Rightarrow> order_book \<Rightarrow> order_book option" where
  "dispatch_all rt [] b = Some b"
| "dispatch_all rt (upd # us) b = do {
     b \<leftarrow> dispatch rt upd b;
     dispatch_all rt us b
   }"

lemma dispatch_all_reachable:
  "reachable rt n m b \<Longrightarrow> dispatch_all rt us b = Some b' \<Longrightarrow> reachable rt n m b'"
  by (induction us arbitrary: b) (auto simp: bind_Some_iff intro: reachable.Step)

end
