(* ===== verification/TC_Order_Book_Contract.thy ===== *)
theory TC_Order_Book_Contract
  imports TC_Order_Book_Run
begin

text \<open>
  The contract of the order book, as properties of its public operations, with the runs that
  show each of them at work: \<open>demo_bid\<close> is an update that adds a bid to a new book.
\<close>

section \<open>A small book\<close>

definition demo_bid :: "u64 \<Rightarrow> u32 \<Rightarrow> u32 \<Rightarrow> book_update" where
  "demo_bid k p q = book_update_init\<lparr>upd_type := AddOrder, upd_price := p, upd_qty := q, upd_order_id := k\<rparr>"

definition demo_limits :: book_limits where
  "demo_limits = \<lparr>lim_orders = 8, lim_levels = 4, lim_index = 8\<rparr>"

lemma demo_book_new: "\<exists>b. order_book_new 8 4 = Some b \<and> book_rep b empty_book \<and> limits_of b = demo_limits"
proof -
  obtain b where b: "order_book_new 8 4 = Some b" "book_rep b empty_book" "lim_orders (limits_of b) = 8"
    "lim_levels (limits_of b) = 4" using book_new [of 8 4] by (auto simp: sizes_ok_def)
  obtain x where x: "fm_new 8 = Some x" "ob_index b = x" using b(1) by (auto simp: order_book_new_def bind_Some_iff)
  have "floorlog 2 7 = 3" by code_simp
  then have "fm_capacity x = 8" using x(1) by (auto simp: fm_new_def bind_Some_iff next_power_of_two_def bit_width_def)
  then have "limits_of b = demo_limits" using b(3,4) x(2) by (simp add: limits_of_def demo_limits_def)
  with b show ?thesis by blast
qed

lemma demo_accepted: "add_accepted demo_limits (demo_bid 7 100 5) empty_book"
proof -
  have "index_room 8 0" by code_simp
  then show ?thesis
    by (simp add: add_accepted_def demo_limits_def demo_bid_def book_update_init_def empty_book_def ids_def prices_def)
qed

definition demo_abs :: abs_book where
  "demo_abs = a_add True 100 \<lparr>rs_id = 7, rs_qty = 5, rs_time = 0\<rparr> empty_book"

lemma demo_book: "\<exists>b. book_rep b demo_abs \<and> limits_of b = demo_limits"
proof -
  obtain b where b: "book_rep b empty_book" "limits_of b = demo_limits" using demo_book_new by blast
  from add_order_refines [OF b(1), of "demo_bid 7 100 5"] demo_accepted b(2)
  obtain b' where "limits_of b' = demo_limits"
    "book_rep b' (a_add (upd_side (demo_bid 7 100 5) = 0) (upd_price (demo_bid 7 100 5)) (resting_update (demo_bid 7 100 5)) empty_book)"
    by auto
  then show ?thesis
    by (intro exI [of _ b']) (simp add: demo_bid_def book_update_init_def resting_update_def demo_abs_def)
qed

section \<open>Adding, cancelling, modifying\<close>

text \<open>C10: Adding an order. An update is accepted exactly when its quantity, price and id are not
  zero, the id is not in the book, both pools and the index have room, and its price either has a
  level or is below 10000. An accepted order joins the end of the queue of its price and nothing
  else in the book changes; a refused one fails an assertion.\<close>

theorem add_order_correct:
  assumes "book_rep b B"
  shows "if add_accepted (limits_of b) upd B
    then \<exists>b'. add_order upd b = Some b' \<and> limits_of b' = limits_of b \<and>
      book_rep b' (a_add (upd_side upd = 0) (upd_price upd) (resting_update upd) B)
    else add_order upd b = None"
  by (rule add_order_refines [OF assms])

theorem add_order_correct_witness: "\<exists>b b'. order_book_new 8 4 = Some b \<and> add_order (demo_bid 7 100 5) b = Some b'"
proof -
  obtain b where b: "order_book_new 8 4 = Some b" "book_rep b empty_book" "limits_of b = demo_limits"
    using demo_book_new by blast
  then show ?thesis using add_order_correct [OF b(2), of "demo_bid 7 100 5"] demo_accepted by auto
qed

text \<open>C15: Prices at or above 10000 cannot rest. Whatever the book holds, adding an order at such a
  price fails, although prices carry a multiplier of 10000: the array of ticks of a side has 10000
  entries and its insertion is not guarded.\<close>

theorem add_order_price_limit:
  assumes "book_rep b B" "kPriceMultiplier \<le> upd_price upd"
  shows "add_order upd b = None"
proof -
  obtain T Q where inv: "book_inv b T Q" and B: "B = abs_of b T Q" using assms(1) by (auto simp: book_rep_def)
  have c: "trees_ok b T" using inv by (simp add: book_inv_def book_core_def)
  have big: "10000 \<le> unat (upd_price upd)" using assms(2) by (simp add: kPriceMultiplier_def word_le_nat_alt)
  have "B s (upd_price upd) = []" for s
  proof (rule ccontr)
    assume "B s (upd_price upd) \<noteq> []"
    then have "upd_price upd \<in> price_of (ob_levels b) ` set_tree (T s)" using level_iff_queue [OF inv] B by simp
    then show False using side_rep_price_bound [OF trees_okD(1) [OF c]] big by force
  qed
  then have "\<not> add_accepted (limits_of b) upd B" using big by (simp add: add_accepted_def)
  then show ?thesis using add_order_refines [OF assms(1), of upd] by simp
qed

theorem add_order_price_limit_witness: "\<exists>b. order_book_new 8 4 = Some b \<and> add_order (demo_bid 7 10000 5) b = None"
proof -
  obtain b where b: "order_book_new 8 4 = Some b" "book_rep b empty_book" using demo_book_new by blast
  have "kPriceMultiplier \<le> upd_price (demo_bid 7 10000 5)" by (simp add: kPriceMultiplier_def demo_bid_def)
  from add_order_price_limit [OF b(2) this] b(1) show ?thesis by blast
qed

text \<open>C11: Cancelling. If the id rests in the book with at least the cancelled quantity, its
  quantity is reduced in place, keeping its position in the queue; it leaves the book, with its
  level when it was the last of the queue, exactly when nothing remains. All else is unchanged.
  In every other case an assertion fails.\<close>

theorem cancel_order_correct:
  assumes "book_rep b B"
  shows "if \<exists>n \<ge> upd_qty upd. resting_qty B (upd_order_id upd) n
    then \<exists>b'. cancel_order upd b = Some b' \<and> limits_of b' = limits_of b \<and>
      book_rep b' (a_reduce (upd_order_id upd) (upd_qty upd) B)
    else cancel_order upd b = None"
  by (rule cancel_order_refines [OF assms])

lemma demo_resting: "resting_at demo_abs 7 True 100 5" "resting_qty demo_abs 7 5"
proof -
  show r: "resting_at demo_abs 7 True 100 5" by (simp add: resting_at_def demo_abs_def a_add_apply empty_book_def)
  then show "resting_qty demo_abs 7 5" by (auto simp: resting_at_def resting_qty_def)
qed

lemma demo_ids: "ids demo_abs = {7}" "ids empty_book = {}"
  by (simp_all add: demo_abs_def ids_a_add) (simp_all add: ids_def empty_book_def)

theorem cancel_order_correct_witness:
  "\<exists>b b'. book_rep b demo_abs \<and> cancel_order (demo_bid 7 100 2) b = Some b' \<and> book_rep b' (a_reduce 7 2 demo_abs)"
proof -
  obtain b where b: "book_rep b demo_abs" using demo_book by blast
  have "\<exists>n \<ge> upd_qty (demo_bid 7 100 2). resting_qty demo_abs (upd_order_id (demo_bid 7 100 2)) n"
    using demo_resting(2) by (intro exI [of _ 5]) (simp add: demo_bid_def)
  then show ?thesis using cancel_order_correct [OF b, of "demo_bid 7 100 2"] b
    by (auto simp: demo_bid_def)
qed

text \<open>C12: Modifying an order that rests with quantity \<open>n\<close> on side \<open>s\<close> at price \<open>p\<close>. Less
  quantity keeps the place in the queue, more quantity goes to the end of the same queue with the
  time of the update, the same quantity changes nothing. Modifying never fails for a resting id,
  even in a full book; an unknown id fails an assertion.\<close>

theorem modify_order_correct:
  assumes "book_rep b B"
  shows "if upd_order_id upd \<in> ids B
    then \<forall>s p n. resting_at B (upd_order_id upd) s p n \<longrightarrow>
      (\<exists>b'. modify_order upd b = Some b' \<and> limits_of b' = limits_of b \<and>
        book_rep b' (if upd_qty upd < n then a_reduce (upd_order_id upd) (n - upd_qty upd) B
          else if n < upd_qty upd then a_add s p (resting_update upd) (a_delete (upd_order_id upd) B)
          else B))
    else modify_order upd b = None"
  by (rule modify_order_refines [OF assms])

theorem modify_order_correct_witness:
  "\<exists>b b'. book_rep b demo_abs \<and> modify_order (demo_bid 7 0 9) b = Some b' \<and>
    book_rep b' (a_add True 100 \<lparr>rs_id = 7, rs_qty = 9, rs_time = 0\<rparr> (a_delete 7 demo_abs))"
proof -
  obtain b where b: "book_rep b demo_abs" using demo_book by blast
  have i: "upd_order_id (demo_bid 7 0 9) \<in> ids demo_abs" by (simp add: demo_ids demo_bid_def)
  have "resting_at demo_abs (upd_order_id (demo_bid 7 0 9)) True 100 5" using demo_resting by (simp add: demo_bid_def)
  from modify_order_correct [OF b, of "demo_bid 7 0 9", unfolded if_P [OF i], rule_format, OF this]
  show ?thesis using b by (auto simp: demo_bid_def book_update_init_def resting_update_def)
qed

section \<open>Dispatching\<close>

text \<open>C1: The book implements its specification. For every book that represents an abstract
  book and every update, of any type and content, dispatching fails an assertion exactly when the
  abstract book has no step for the update, and otherwise ends in a book, of the same sizes, that
  represents an outcome of that step.\<close>

theorem dispatch_refines:
  assumes "book_rep b B" "fresh_type rt"
  shows "case dispatch rt upd b of
      None \<Rightarrow> \<forall>B'. \<not> book_step (limits_of b) rt upd B B'
    | Some b' \<Rightarrow> limits_of b' = limits_of b \<and> (\<exists>B'. book_step (limits_of b) rt upd B B' \<and> book_rep b' B')"
  using dispatch_implements [OF assms, of upd] by (simp add: implements_def)

theorem dispatch_refines_witness:
  "\<exists>b b'. order_book_new 8 4 = Some b \<and> dispatch 9 (demo_bid 7 100 5) b = Some b'"
proof -
  obtain b where b: "order_book_new 8 4 = Some b" "book_rep b empty_book" "limits_of b = demo_limits"
    using demo_book_new by blast
  have "fresh_type 9" by (simp add: fresh_type_def update_type_defs)
  moreover have "\<exists>B'. book_step demo_limits 9 (demo_bid 7 100 5) empty_book B'"
    using book_step.Add [OF _ demo_accepted] by (fastforce simp: demo_bid_def)
  ultimately show ?thesis using dispatch_refines [OF b(2), of 9 "demo_bid 7 100 5"] b
    by (auto split: option.splits)
qed

section \<open>Draining\<close>

definition delete_update :: "u64 \<Rightarrow> book_update" where
  "delete_update k = book_update_init\<lparr>upd_type := DeleteOrder, upd_order_id := k\<rparr>"

lemma ids_empty: "ids B = {} \<longleftrightarrow> B = empty_book"
  by (auto simp: ids_def empty_book_def fun_eq_iff)

lemma drain:
  assumes "book_rep b B" "fresh_type rt" "finite (ids B)"
  shows "\<exists>ks b'. length ks = card (ids B) \<and> dispatch_all rt (map delete_update ks) b = Some b' \<and>
    book_rep b' empty_book"
  using assms(3,1)
proof (induction "card (ids B)" arbitrary: B b)
  case 0
  then have "B = empty_book" by (simp add: ids_empty)
  with 0 show ?case by (intro exI [of _ "[]"]) simp
next
  case (Suc n)
  then obtain k where k: "k \<in> ids B" by fastforce
  then obtain b1 where b1: "delete_order (delete_update k) b = Some b1" "book_rep b1 (a_delete k B)"
    using delete_order_refines [OF Suc.prems(2), of "delete_update k"] by (auto simp: delete_update_def)
  have d: "dispatch rt (delete_update k) b = Some b1" using b1 by (simp add: dispatch_eq [OF assms(2)] delete_update_def)
  have c: "card (ids (a_delete k B)) = n" "finite (ids (a_delete k B))"
    using k Suc.hyps(2) Suc.prems(1) by (simp_all add: ids_a_delete)
  obtain ks b' where "length ks = n" "dispatch_all rt (map delete_update ks) b1 = Some b'" "book_rep b' empty_book"
    using Suc.hyps(1) [OF c(1) [symmetric] c(2) b1(2)] c(1) by auto
  then show ?case using d Suc.hyps(2) by (intro exI [of _ "k # ks"]) auto
qed

text \<open>C14: Every reachable book can be emptied: as many delete messages as it holds orders lead,
  without a failed assertion, to the empty book, with every slot of both pools free again.\<close>

theorem reachable_drains:
  assumes "reachable rt n m b" "sizes_ok n m" "fresh_type rt"
  shows "\<exists>ks b'. length ks = unat (active_count (ob_orders b)) \<and>
    dispatch_all rt (map delete_update ks) b = Some b' \<and> book_rep b' empty_book \<and>
    active_count (ob_orders b') = 0 \<and> active_count (ob_levels b') = 0"
proof -
  obtain B where B: "book_rep b B" using reachable_rep [OF assms] by blast
  obtain ks b' where b': "length ks = card (ids B)" "dispatch_all rt (map delete_update ks) b = Some b'"
    "book_rep b' empty_book"
    using drain [OF B assms(3)] rep_counts [OF B] by blast
  have "card (ids empty_book) = 0" "card (prices empty_book) = 0"
    by (simp_all add: demo_ids) (simp add: prices_def empty_book_def)
  then have "unat (active_count (ob_orders b')) = 0" "unat (active_count (ob_levels b')) = 0"
    using rep_counts [OF b'(3)] by auto
  then show ?thesis using b' rep_counts [OF B] by (intro exI [of _ ks] exI [of _ b']) (simp add: unat_eq_0)
qed

theorem reachable_drains_witness: "\<exists>b ks b'. reachable 9 8 4 b \<and> dispatch_all 9 (map delete_update ks) b = Some b'"
proof -
  obtain b where b: "order_book_new 8 4 = Some b" using demo_book_new by blast
  have f: "fresh_type 9" by (simp add: fresh_type_def update_type_defs)
  have r: "reachable 9 8 4 b" by (rule reachable.Start [OF b])
  have "sizes_ok 8 4" by (simp add: sizes_ok_def)
  from reachable_drains [OF r this f]
  obtain ks b' where "dispatch_all 9 (map delete_update ks) b = Some b'" by (elim exE conjE) (rule that)
  with r show ?thesis by (intro exI conjI)
qed

section \<open>Reachable books\<close>

theorem best_prices_correct_witness:
  "\<exists>(b :: order_book) p c. best_bid_of (ob_bids b) (ob_levels b) =
    Some \<lparr>bid_price = p, bid_qty = 5, bid_order_count = c, bid_valid = True\<rparr>"
proof -
  obtain b where b: "book_rep b demo_abs" using demo_book by blast
  have "demo_abs True 100 \<noteq> []" using demo_resting(1) by (auto simp: resting_at_def)
  with conjunct1 [OF best_prices_correct [OF b]]
  obtain p c where p: "best_price_in True demo_abs p" "best_bid_of (ob_bids b) (ob_levels b) =
      Some \<lparr>bid_price = p, bid_qty = queue_qty (demo_abs True p), bid_order_count = c, bid_valid = True\<rparr>" by auto
  have "queue_qty (demo_abs True p) = 5"
    using p(1) by (simp add: best_price_in_def demo_abs_def a_add_apply empty_book_def queue_qty_def split: if_splits)
  with p(2) show ?thesis by auto
qed

theorem reachable_no_leak_witness: "\<exists>b. reachable 9 8 4 b \<and> unat (active_count (ob_orders b)) \<le> 8"
proof -
  obtain b where b: "order_book_new 8 4 = Some b" using demo_book_new by blast
  have "fresh_type 9" by (simp add: fresh_type_def update_type_defs)
  then show ?thesis using reachable_no_leak [OF reachable.Start [OF b], of 9] reachable.Start [OF b, of 9]
    by (auto simp: sizes_ok_def)
qed

text \<open>Three bids at rising prices: the third makes the tree of the bids rotate.\<close>

definition rising_abs :: abs_book where
  "rising_abs = a_add True 102 \<lparr>rs_id = 9, rs_qty = 5, rs_time = 0\<rparr>
     (a_add True 101 \<lparr>rs_id = 8, rs_qty = 5, rs_time = 0\<rparr> demo_abs)"

lemma dispatch_add:
  assumes "book_rep b B" "limits_of b = demo_limits" "fresh_type rt"
    and "k \<noteq> 0" "0 < p" "unat p < 10000" "k \<notin> ids B" "card (ids B) < 4" "card (prices B) < 4"
  shows "\<exists>b'. dispatch rt (demo_bid k p 5) b = Some b' \<and> limits_of b' = demo_limits \<and>
    book_rep b' (a_add True p \<lparr>rs_id = k, rs_qty = 5, rs_time = 0\<rparr> B)"
proof -
  have "index_room 8 c" if "c < 4" for c
  proof -
    have "\<forall>c \<in> set [0 ..< 4]. index_room 8 c" by code_simp
    then show ?thesis using that by simp
  qed
  then have "add_accepted (limits_of b) (demo_bid k p 5) B"
    using assms by (simp add: add_accepted_def demo_limits_def demo_bid_def book_update_init_def)
  with add_order_refines [OF assms(1), of "demo_bid k p 5"] assms(2) show ?thesis
    by (auto simp: dispatch_eq [OF assms(3)] demo_bid_def book_update_init_def resting_update_def)
qed

lemma demo_prices: "prices demo_abs = {(True, 100)}" "prices empty_book = {}"
  by (auto simp: prices_def demo_abs_def a_add_apply empty_book_def split: if_splits)

lemma rising_book: "\<exists>b. reachable 9 8 4 b \<and> book_rep b rising_abs"
proof -
  have f: "fresh_type 9" by (simp add: fresh_type_def update_type_defs)
  obtain b where b: "order_book_new 8 4 = Some b" "book_rep b empty_book" "limits_of b = demo_limits"
    using demo_book_new by blast
  obtain b1 where b1: "dispatch 9 (demo_bid 7 100 5) b = Some b1" "limits_of b1 = demo_limits" "book_rep b1 demo_abs"
    using dispatch_add [OF b(2,3) f, of 7 100] by (auto simp: demo_ids demo_prices demo_abs_def)
  let ?B2 = "a_add True 101 \<lparr>rs_id = 8, rs_qty = 5, rs_time = 0\<rparr> demo_abs"
  obtain b2 where b2: "dispatch 9 (demo_bid 8 101 5) b1 = Some b2" "limits_of b2 = demo_limits" "book_rep b2 ?B2"
    using dispatch_add [OF b1(3,2) f, of 8 101] by (auto simp: demo_ids demo_prices)
  have "prices ?B2 = {(True, 100), (True, 101)}"
    by (auto simp: prices_def demo_abs_def a_add_apply empty_book_def split: if_splits)
  then obtain b3 where "dispatch 9 (demo_bid 9 102 5) b2 = Some b3" "book_rep b3 rising_abs"
    using dispatch_add [OF b2(3,2) f, of 9 102] by (auto simp: demo_ids ids_a_add rising_abs_def)
  then show ?thesis using reachable.Start [OF b(1), of 9] b1(1) b2(1) reachable.Step by blast
qed

theorem reachable_balanced_witness:
  "\<exists>b. reachable 9 8 4 b \<and> book_rep b rising_abs \<and> avl_height (ob_levels b) (avl_root (ob_bids b)) = Some 2 \<and>
     avl_height (ob_levels b) (avl_root (ob_asks b)) = Some 0"
proof -
  obtain b where b: "reachable 9 8 4 b" "book_rep b rising_abs" using rising_book by blast
  have f: "sizes_ok 8 4" "fresh_type 9" by (simp_all add: sizes_ok_def fresh_type_def update_type_defs)
  obtain T Q where inv: "book_inv b T Q" "rising_abs = abs_of b T Q" using b(2) by (auto simp: book_rep_def)
  have s: "sides b True = ob_bids b" "sides b False = ob_asks b" by (simp_all add: sides_def)
  have "{p. rising_abs True p \<noteq> []} = {100, 101, 102}" "{p. rising_abs False p \<noteq> []} = {}"
    by (auto simp: rising_abs_def demo_abs_def a_add_apply empty_book_def split: if_splits)
  then have n: "unat (level_count (ob_bids b)) = 3" "unat (level_count (ob_asks b)) = 0"
    using side_height [OF inv, of True] side_height [OF inv, of False] by (auto simp: s)
  obtain B :: abs_book where B: "\<forall>s. \<exists>h. avl_height (ob_levels b) (avl_root (sides b s)) = Some (int h) \<and>
      unat (level_count (sides b s)) = card {p. B s p \<noteq> []} \<and> card {p. B s p \<noteq> []} < 2 ^ h \<and>
      avl_least h \<le> card {p. B s p \<noteq> []} \<and> h \<le> 18"
    using reachable_balanced [OF b(1) f] by (elim conjE exE) (rule that, assumption)
  obtain h k where h: "avl_height (ob_levels b) (avl_root (ob_bids b)) = Some (int h)" "3 < (2::nat) ^ h" "avl_least h \<le> 3"
    and k: "avl_height (ob_levels b) (avl_root (ob_asks b)) = Some (int k)" "avl_least k \<le> 0"
    using spec [OF B, of True] spec [OF B, of False] n by (auto simp: s)
  have "avl_least 3 = 4" by code_simp
  then have "h < 3" using avl_least_mono [of 3 h] h(3) by (cases "3 \<le> h") simp_all
  moreover have "h \<noteq> 0 \<and> h \<noteq> 1" using h(2) by (cases "h = 0"; cases "h = 1") simp_all
  ultimately have "h = 2" by linarith
  moreover have "k = 0" using avl_least_mono [of 1 k] k(2) by (cases k) simp_all
  ultimately show ?thesis using b h k by auto
qed

end
