(* ===== verification/TC_Static_Vector.thy ===== *)
theory TC_Static_Vector
  imports TC_Prelude
begin

text \<open>
  \<open>common/static_vector.hpp\<close>: a vector of fixed capacity in place. \<open>vec_list\<close> gives the sequence it
  stands for, and the lemmas give each operation on it.
\<close>

record 'a static_vector =
  sv_data :: "'a list"
  sv_size :: nat

definition sv_new :: "'a \<Rightarrow> nat \<Rightarrow> 'a static_vector" where
  "sv_new d capacity = \<lparr>sv_data = replicate capacity d, sv_size = 0\<rparr>"

definition sv_capacity :: "'a static_vector \<Rightarrow> nat" where
  "sv_capacity v = length (sv_data v)"

definition push_back :: "'a \<Rightarrow> 'a static_vector \<Rightarrow> 'a static_vector option" where
  "push_back x v = do {
     tc_assert (sv_size v < sv_capacity v);
     Some (v\<lparr>sv_data := (sv_data v)[sv_size v := x], sv_size := sv_size v + 1\<rparr>)
   }"

definition sv_empty :: "'a static_vector \<Rightarrow> bool" where
  "sv_empty v = (sv_size v = 0)"

definition sv_clear :: "'a static_vector \<Rightarrow> 'a static_vector" where
  "sv_clear v = v\<lparr>sv_size := 0\<rparr>"

definition sv_at :: "'a static_vector \<Rightarrow> nat \<Rightarrow> 'a option" where
  "sv_at v i = do {
     tc_assert (i < sv_size v);
     Some (sv_data v ! i)
   }"

definition sv_set :: "nat \<Rightarrow> 'a \<Rightarrow> 'a static_vector \<Rightarrow> 'a static_vector option" where
  "sv_set i x v = do {
     tc_assert (i < sv_size v);
     Some (v\<lparr>sv_data := (sv_data v)[i := x]\<rparr>)
   }"

text \<open>\<open>as_span\<close>, and the range between \<open>begin\<close> and \<open>end\<close>.\<close>

definition vec_list :: "'a static_vector \<Rightarrow> 'a list" where
  "vec_list v = take (sv_size v) (sv_data v)"

section \<open>A vector is a bounded list\<close>

definition sv_ok :: "'a static_vector \<Rightarrow> bool" where
  "sv_ok v \<longleftrightarrow> sv_size v \<le> sv_capacity v"

lemma sv_new_ok [simp]: "sv_ok (sv_new d n)" "vec_list (sv_new d n) = []" "sv_capacity (sv_new d n) = n"
  by (simp_all add: sv_ok_def sv_new_def vec_list_def sv_capacity_def)

lemma length_vec_list: "sv_ok v \<Longrightarrow> length (vec_list v) = sv_size v"
  by (simp add: vec_list_def sv_ok_def sv_capacity_def)

lemma vec_list_Nil [simp]: "sv_ok v \<Longrightarrow> sv_empty v \<longleftrightarrow> vec_list v = []"
  by (metis length_0_conv length_vec_list sv_empty_def)

lemma push_back_full: "sv_ok v \<Longrightarrow> push_back x v = None \<longleftrightarrow> length (vec_list v) = sv_capacity v"
  by (auto simp: push_back_def length_vec_list sv_ok_def tc_assert_def)

lemma push_back_ok:
  assumes "sv_ok v" "length (vec_list v) < sv_capacity v"
  shows "\<exists>v'. push_back x v = Some v' \<and> sv_ok v' \<and> vec_list v' = vec_list v @ [x] \<and> sv_capacity v' = sv_capacity v"
  using assms length_vec_list [OF assms(1)]
  by (simp add: push_back_def sv_ok_def vec_list_def sv_capacity_def take_Suc_conv_app_nth)

lemma sv_at_ok: "sv_ok v \<Longrightarrow> sv_at v i = (if i < length (vec_list v) then Some (vec_list v ! i) else None)"
  by (simp add: sv_at_def length_vec_list) (simp add: vec_list_def)

lemma sv_set_ok:
  assumes "sv_ok v" "i < length (vec_list v)"
  shows "\<exists>v'. sv_set i x v = Some v' \<and> sv_ok v' \<and> vec_list v' = (vec_list v)[i := x]"
  using assms length_vec_list [OF assms(1)]
  by (simp add: sv_set_def sv_ok_def vec_list_def sv_capacity_def take_update_swap)

end
