(* ===== verification/TC_Matching.thy ===== *)
theory TC_Matching
  imports TC_Order_Book_Contract TC_Static_Vector
begin

text \<open>
  \<open>matching/*.hpp\<close>: order actions, trades, execution results, the risk pipeline, the liquidity
  analyzer and the matching engine over the order book. The steady clock is a parameter, the
  sequence of its readings, and the engine counts the readings it has taken; the debug checks of
  the engine are assertions of the model.
\<close>

section \<open>Actions, trades and results\<close>

datatype order_type = Limit | Market | IOC | FOK

record order_action =
  act_order_id :: u64
  act_client_id :: u64
  act_price :: u32
  act_qty :: u32
  act_side :: u8
  act_type :: order_type

record trade =
  tr_trade_id :: u64
  tr_aggressor_order_id :: u64
  tr_resting_order_id :: u64
  tr_price :: u32
  tr_quantity :: u32
  tr_timestamp_ns :: u64

definition trade_init :: trade where
  "trade_init = \<lparr>tr_trade_id = 0, tr_aggressor_order_id = 0, tr_resting_order_id = 0, tr_price = 0,
     tr_quantity = 0, tr_timestamp_ns = 0\<rparr>"

datatype execution_status = Accepted | RejectedRisk | RejectedInvalid | Filled_all | PartiallyFilled

definition kMaxTradesPerMatch :: nat where
  "kMaxTradesPerMatch = 1000"

record execution_result =
  res_status :: execution_status
  res_trades :: "trade static_vector"

definition execution_result_init :: execution_result where
  "execution_result_init = \<lparr>res_status = Accepted, res_trades = sv_new trade_init kMaxTradesPerMatch\<rparr>"

section \<open>Risk checks\<close>

record risk_result =
  risk_ok :: bool
  risk_reason :: string

type_synonym risk_rule = "order_action \<Rightarrow> risk_result"

text \<open>The fold over the rules: each is evaluated only when the ones before it passed.\<close>

fun evaluate_rules :: "risk_rule list \<Rightarrow> order_action \<Rightarrow> risk_result \<Rightarrow> bool \<times> risk_result" where
  "evaluate_rules [] a result = (True, result)"
| "evaluate_rules (rule # rules) a result =
     (let result = rule a in if risk_ok result then evaluate_rules rules a result else (False, result))"

definition risk_evaluate :: "risk_rule list \<Rightarrow> order_action \<Rightarrow> risk_result" where
  "risk_evaluate rules a =
     (let (passed, result) = evaluate_rules rules a \<lparr>risk_ok = True, risk_reason = []\<rparr> in
      if \<not> passed then result else \<lparr>risk_ok = True, risk_reason = []\<rparr>)"

definition max_order_size_check :: "u32 \<Rightarrow> risk_rule" where
  "max_order_size_check max_qty a =
     (if act_qty a > max_qty then \<lparr>risk_ok = False, risk_reason = ''Order quantity exceeds maximum allowed size''\<rparr>
      else \<lparr>risk_ok = True, risk_reason = []\<rparr>)"

definition fat_finger_price_check :: "u32 \<Rightarrow> u32 \<Rightarrow> risk_rule" where
  "fat_finger_price_check min_price max_price a =
     (if act_type a = Market then \<lparr>risk_ok = True, risk_reason = []\<rparr>
      else if act_price a < min_price \<or> act_price a > max_price
      then \<lparr>risk_ok = False, risk_reason = ''Fat finger price violation''\<rparr>
      else \<lparr>risk_ok = True, risk_reason = []\<rparr>)"

section \<open>Liquidity\<close>

text \<open>The in-order scan; \<open>remaining\<close> is passed by reference, so it is part of the result.\<close>

partial_function (option) scan_tree :: "u32 \<Rightarrow> u8 \<Rightarrow> level_pool \<Rightarrow> u32 \<Rightarrow> (u32 \<times> u32) option" where
  "scan_tree node_idx s pool rem =
     (if node_idx = kInvalidPoolIndex \<or> rem = 0 then Some (0, rem)
      else do {
        node \<leftarrow> pool_at pool node_idx;
        if s = 0 then do {
          (found, rem) \<leftarrow> scan_tree (nd_right (pl_node node)) s pool rem;
          if rem = 0 then Some (found, rem)
          else do {
            let take = min (pl_total_qty node) rem;
            let found = found + take;
            let rem = rem - take;
            if rem = 0 then Some (found, rem)
            else do {
              (more, rem) \<leftarrow> scan_tree (nd_left (pl_node node)) s pool rem;
              Some (found + more, rem)
            }
          }
        } else do {
          (found, rem) \<leftarrow> scan_tree (nd_left (pl_node node)) s pool rem;
          if rem = 0 then Some (found, rem)
          else do {
            let take = min (pl_total_qty node) rem;
            let found = found + take;
            let rem = rem - take;
            if rem = 0 then Some (found, rem)
            else do {
              (more, rem) \<leftarrow> scan_tree (nd_right (pl_node node)) s pool rem;
              Some (found + more, rem)
            }
          }
        }
      })"

definition opposite_side :: "u8 \<Rightarrow> order_book \<Rightarrow> book_side" where
  "opposite_side incoming_side b = (if incoming_side = 0 then ob_asks b else ob_bids b)"

definition has_liquidity :: "order_book \<Rightarrow> u8 \<Rightarrow> u32 \<Rightarrow> bool option" where
  "has_liquidity b incoming_side qty =
     (let opp = opposite_side incoming_side b; root = avl_root opp in
      if root = kInvalidPoolIndex then Some False
      else do {
        (found, _) \<leftarrow> scan_tree root (bs_side opp) (ob_levels b) qty;
        Some (found \<ge> qty)
      })"

section \<open>The engine\<close>

record matching_engine =
  me_book :: order_book
  me_next_trade_id :: u64
  me_clock_reads :: nat

definition engine_new :: "nat \<Rightarrow> nat \<Rightarrow> matching_engine option" where
  "engine_new max_orders max_levels = do {
     b \<leftarrow> order_book_new max_orders max_levels;
     Some \<lparr>me_book = b, me_next_trade_id = 1, me_clock_reads = 0\<rparr>
   }"

definition get_timestamp :: "(nat \<Rightarrow> u64) \<Rightarrow> matching_engine \<Rightarrow> u64 \<times> matching_engine" where
  "get_timestamp clock e = (clock (me_clock_reads e), e\<lparr>me_clock_reads := me_clock_reads e + 1\<rparr>)"

definition verify_match :: "trade \<Rightarrow> order_action \<Rightarrow> order \<Rightarrow> unit option" where
  "verify_match t incoming r = do {
     tc_assert (tr_quantity t \<le> act_qty incoming);
     tc_assert (tr_quantity t \<le> ord_remaining_qty r);
     tc_assert (tr_price t = ord_price r);
     tc_assert (tr_aggressor_order_id t = act_order_id incoming);
     tc_assert (tr_resting_order_id t = ord_id r)
   }"

definition verify_execution :: "execution_result \<Rightarrow> u32 \<Rightarrow> order_action \<Rightarrow> order_book \<Rightarrow> unit option" where
  "verify_execution result initial_qty incoming b = do {
     tc_assert (sum_list (map tr_quantity (vec_list (res_trades result))) + act_qty incoming = initial_qty);
     if act_qty incoming > 0 \<and> act_type incoming = Limit
     then tc_assert (has_bbo (ob_bids b) \<or> has_bbo (ob_asks b))
     else Some ()
   }"

text \<open>One fill, the body of the inner loop: the trade, its record, the incoming quantity, and the
  execution in the book. The index of the next order is read before the book changes.\<close>

definition fill_one :: "(nat \<Rightarrow> u64) \<Rightarrow> u32 \<Rightarrow> order_action \<times> execution_result \<times> matching_engine \<Rightarrow>
    (u32 \<times> order_action \<times> execution_result \<times> matching_engine) option" where
  "fill_one clock cur st = (case st of (incoming, result, e) \<Rightarrow> do {
     resting_order \<leftarrow> pool_at (ob_orders (me_book e)) cur;
     let fill_qty = min (act_qty incoming) (ord_remaining_qty resting_order);
     let trade_id = me_next_trade_id e;
     let e = e\<lparr>me_next_trade_id := me_next_trade_id e + 1\<rparr>;
     let (ts, e) = get_timestamp clock e;
     let t = \<lparr>tr_trade_id = trade_id, tr_aggressor_order_id = act_order_id incoming,
       tr_resting_order_id = ord_id resting_order, tr_price = ord_price resting_order,
       tr_quantity = fill_qty, tr_timestamp_ns = ts\<rparr>;
     _ \<leftarrow> verify_match t incoming resting_order;
     trades \<leftarrow> push_back t (res_trades result);
     let result = result\<lparr>res_trades := trades\<rparr>;
     let incoming = incoming\<lparr>act_qty := act_qty incoming - fill_qty\<rparr>;
     let exec_upd = book_update_init\<lparr>upd_type := ExecuteOrder, upd_order_id := ord_id resting_order,
       upd_qty := fill_qty, upd_price := tr_price t, upd_match_id := tr_trade_id t\<rparr>;
     let next = ord_next_in_level resting_order;
     b \<leftarrow> execute_order exec_upd (me_book e);
     Some (next, incoming, result, e\<lparr>me_book := b\<rparr>)
   })"

partial_function (option) sweep_level :: "(nat \<Rightarrow> u64) \<Rightarrow> u32 \<Rightarrow> order_action \<times> execution_result \<times> matching_engine \<Rightarrow>
    (order_action \<times> execution_result \<times> matching_engine) option" where
  "sweep_level clock cur st =
     (if cur \<noteq> kInvalidPoolIndex \<and> act_qty (fst st) > 0 then do {
        (next, st) \<leftarrow> fill_one clock cur st;
        sweep_level clock next st
      } else Some st)"

text \<open>\<open>is_market\<close> or a price within the limit of the incoming order.\<close>

definition crosses :: "bool \<Rightarrow> order_action \<Rightarrow> u32 \<Rightarrow> bool" where
  "crosses is_market incoming price = (is_market \<or>
     (if act_side incoming = 0 then \<not> price > act_price incoming else \<not> price < act_price incoming))"

partial_function (option) match_core :: "(nat \<Rightarrow> u64) \<Rightarrow> bool \<Rightarrow> order_action \<times> execution_result \<times> matching_engine \<Rightarrow>
    (order_action \<times> execution_result \<times> matching_engine) option" where
  "match_core clock is_market st = (let opp = opposite_side (act_side (fst st)) (me_book (snd (snd st))) in
     if act_qty (fst st) > 0 \<and> has_bbo opp then do {
       best_level \<leftarrow> bbo_level opp (ob_levels (me_book (snd (snd st))));
       lvl \<leftarrow> best_level;
       if \<not> crosses is_market (fst st) (pl_price lvl) then Some st
       else do {
         st \<leftarrow> sweep_level clock (pl_head_order_idx lvl) st;
         match_core clock is_market st
       }
     } else Some st)"

text \<open>What is left of a limit order is added to the book.\<close>

definition rest_update :: "order_action \<Rightarrow> u64 \<Rightarrow> book_update" where
  "rest_update a ts = book_update_init\<lparr>upd_type := AddOrder, upd_side := act_side a, upd_price := act_price a,
     upd_qty := act_qty a, upd_order_id := act_order_id a, upd_timestamp_ns := ts\<rparr>"

definition final_status :: "order_action \<Rightarrow> execution_result \<Rightarrow> execution_status" where
  "final_status incoming result =
     (if sv_empty (res_trades result) then
        if act_type incoming = IOC \<or> act_type incoming = FOK then RejectedInvalid else Accepted
      else if act_qty incoming = 0 then Filled_all
      else PartiallyFilled)"

definition match_order :: "(nat \<Rightarrow> u64) \<Rightarrow> risk_rule list \<Rightarrow> order_action \<Rightarrow> matching_engine \<Rightarrow>
    (execution_result \<times> matching_engine) option" where
  "match_order clock rules action e = (let result = execution_result_init in
     if \<not> risk_ok (risk_evaluate rules action) then Some (result\<lparr>res_status := RejectedRisk\<rparr>, e)
     else do {
       enough \<leftarrow> (if act_type action = FOK then has_liquidity (me_book e) (act_side action) (act_qty action)
                  else Some True);
       if \<not> enough then Some (result\<lparr>res_status := RejectedInvalid\<rparr>, e)
       else do {
         (incoming, result, e) \<leftarrow> match_core clock (act_type action = Market) (action, result, e);
         e \<leftarrow> (if act_qty incoming > 0 \<and> act_type incoming = Limit then do {
             let (ts, e) = get_timestamp clock e;
             b \<leftarrow> add_order (rest_update incoming ts) (me_book e);
             Some (e\<lparr>me_book := b\<rparr>)
           } else Some e);
         let result = result\<lparr>res_status := final_status incoming result\<rparr>;
         _ \<leftarrow> verify_execution result (act_qty action) incoming (me_book e);
         Some (result, e)
       }
     })"

end
