(* ===== verification/TC_Match_Line.thy ===== *)
theory TC_Match_Line
  imports TC_Matching
begin

text \<open>
  Matching on the abstract book. \<open>line\<close> is the opposite side in price-time priority, cut at the
  limit of the incoming order; \<open>fills\<close> takes a quantity from a line. This is the reference the
  matching engine is compared with.
\<close>

section \<open>The line of resting orders\<close>

definition price_order :: "bool \<Rightarrow> u32 set \<Rightarrow> u32 list" where
  "price_order s S = (if s then rev (sorted_list_of_set S) else sorted_list_of_set S)"

definition line_prices :: "bool \<Rightarrow> (u32 \<Rightarrow> bool) \<Rightarrow> abs_book \<Rightarrow> u32 list" where
  "line_prices s c B = price_order s {p. B s p \<noteq> [] \<and> c p}"

definition line :: "bool \<Rightarrow> (u32 \<Rightarrow> bool) \<Rightarrow> abs_book \<Rightarrow> (u32 \<times> resting) list" where
  "line s c B = concat (map (\<lambda>p. map (Pair p) (B s p)) (line_prices s c B))"

text \<open>Taking a quantity from a line: the fills, as price, id and quantity, and what is left.\<close>

fun fills :: "u32 \<Rightarrow> (u32 \<times> resting) list \<Rightarrow> (u32 \<times> u64 \<times> u32) list" where
  "fills q [] = []"
| "fills q ((p, r) # xs) = (if q = 0 then [] else
     (p, rs_id r, min q (rs_qty r)) # fills (q - min q (rs_qty r)) xs)"

fun unfilled :: "u32 \<Rightarrow> (u32 \<times> resting) list \<Rightarrow> u32" where
  "unfilled q [] = q"
| "unfilled q ((p, r) # xs) = (if q = 0 then 0 else unfilled (q - min q (rs_qty r)) xs)"

definition apply_fills :: "(u32 \<times> u64 \<times> u32) list \<Rightarrow> abs_book \<Rightarrow> abs_book" where
  "apply_fills fs B = fold (\<lambda>(p, k, q). a_reduce k q) fs B"

section \<open>Ordering prices\<close>

lemma price_order_Nil [simp]: "price_order s S = [] \<longleftrightarrow> S = {}" for S :: "u32 set"
  by (simp add: price_order_def)

lemma set_price_order [simp]: "set (price_order s S) = S" for S :: "u32 set"
  by (simp add: price_order_def)

definition first_price :: "bool \<Rightarrow> u32 set \<Rightarrow> u32" where
  "first_price s S = (if s then Max S else Min S)"

lemma sorted_list_Max:
  assumes "finite S" "S \<noteq> {}"
  shows "sorted_list_of_set S = sorted_list_of_set (S - {Max S}) @ [Max S]"
proof -
  have "sorted (sorted_list_of_set (S - {Max S}) @ [Max S])" using assms by (auto simp: sorted_append)
  moreover have "distinct (sorted_list_of_set (S - {Max S}) @ [Max S])" using assms by auto
  moreover have "set (sorted_list_of_set (S - {Max S}) @ [Max S]) = S" using assms Max_in by auto
  ultimately show ?thesis using assms(1) by (metis sorted_list_of_set.idem_if_sorted_distinct)
qed

lemma price_order_Cons:
  fixes S :: "u32 set"
  assumes "S \<noteq> {}"
  shows "price_order s S = first_price s S # price_order s (S - {first_price s S})"
proof (cases s)
  case True
  have "sorted_list_of_set S = sorted_list_of_set (S - {Max S}) @ [Max S]"
    by (rule sorted_list_Max [OF finite assms])
  then show ?thesis using True by (simp add: price_order_def first_price_def)
next
  case False
  then show ?thesis using sorted_list_of_set_nonempty [OF finite assms] by (simp add: price_order_def first_price_def)
qed

text \<open>A limit: whatever price crosses, every better price of the side crosses.\<close>

definition limit_like :: "bool \<Rightarrow> (u32 \<Rightarrow> bool) \<Rightarrow> bool" where
  "limit_like s c \<longleftrightarrow> (\<forall>p p'. c p \<longrightarrow> (if s then p \<le> p' else p' \<le> p) \<longrightarrow> c p')"

text \<open>The prices an order may trade at: any, or those not worse than its own.\<close>

definition within_limit :: "bool \<Rightarrow> order_action \<Rightarrow> u32 \<Rightarrow> bool" where
  "within_limit any a p \<longleftrightarrow> any \<or> (if act_side a = 0 then p \<le> act_price a else act_price a \<le> p)"

lemma crosses_eq: "crosses m a = within_limit m a"
  by (simp add: fun_eq_iff crosses_def within_limit_def not_less)

lemma within_limit_like: "limit_like (act_side a \<noteq> 0) (within_limit m a)"
  by (auto simp: limit_like_def within_limit_def not_less)

lemma first_price_best:
  fixes S :: "u32 set"
  assumes "p \<in> S"
  shows "first_price s S \<in> S" "if s then p \<le> first_price s S else first_price s S \<le> p"
proof -
  have "S \<noteq> {}" using assms by blast
  then have "Max S \<in> S" "Min S \<in> S" by simp_all
  then show "first_price s S \<in> S" by (simp add: first_price_def)
  show "if s then p \<le> first_price s S else first_price s S \<le> p" using assms by (simp add: first_price_def)
qed

lemma first_price_eq:
  fixes S :: "u32 set"
  assumes "p \<in> S" "\<forall>p' \<in> S. if s then p' \<le> p else p \<le> p'"
  shows "first_price s S = p"
  using first_price_best [OF assms(1), of s] bspec [OF assms(2), of "first_price s S"]
  by (cases s) (auto intro: order.antisym)

section \<open>The line of a book\<close>

lemma best_price_unique: "best_price_in s B p \<Longrightarrow> best_price_in s B p' \<Longrightarrow> p = p'"
  unfolding best_price_in_def by (cases s) (metis order.antisym)+

lemma line_best:
  assumes c: "limit_like s c" and best: "best_price_in s B p"
  shows "if c p then line s c B = map (Pair p) (B s p) @ line s c (B(s := (B s)(p := [])))
    else line s c B = []"
proof -
  let ?S = "{p. B s p \<noteq> [] \<and> c p}"
  have b: "B s p \<noteq> []" "\<forall>p'. B s p' \<noteq> [] \<longrightarrow> (if s then p' \<le> p else p \<le> p')"
    using best unfolding best_price_in_def by blast+
  show ?thesis
  proof (cases "c p")
    case True
    have f: "first_price s ?S = p" using b True by (intro first_price_eq) auto
    have S: "?S - {p} = {p'. (B(s := (B s)(p := []))) s p' \<noteq> [] \<and> c p'}" by auto
    have "?S \<noteq> {}" using b(1) True by blast
    from price_order_Cons [OF this, of s, unfolded f S]
    have lp: "line_prices s c B = p # line_prices s c (B(s := (B s)(p := [])))" by (simp add: line_prices_def)
    have "p \<notin> set (line_prices s c (B(s := (B s)(p := []))))" by (simp add: line_prices_def)
    then have "map (\<lambda>p'. map (Pair p') ((B(s := (B s)(p := []))) s p')) (line_prices s c (B(s := (B s)(p := [])))) =
        map (\<lambda>p'. map (Pair p') (B s p')) (line_prices s c (B(s := (B s)(p := []))))"
      by (intro map_cong) auto
    then have "line s c (B(s := (B s)(p := []))) =
        concat (map (\<lambda>p'. map (Pair p') (B s p')) (line_prices s c (B(s := (B s)(p := [])))))"
      by (simp only: line_def)
    moreover have "line s c B = map (Pair p) (B s p) @
        concat (map (\<lambda>p'. map (Pair p') (B s p')) (line_prices s c (B(s := (B s)(p := [])))))"
      by (simp only: line_def lp list.map concat.simps)
    ultimately show ?thesis using True by simp
  next
    case False
    have "?S = {}" using False b(2) c by (fastforce simp: limit_like_def split: if_splits)
    then show ?thesis using False by (simp add: line_def line_prices_def)
  qed
qed

lemma line_none: "\<forall>p. B s p = [] \<Longrightarrow> line s c B = []"
  by (simp add: line_def line_prices_def)

text \<open>Replacing the best queue.\<close>

lemma line_put:
  assumes c: "limit_like s c" "c p" and best: "best_price_in s B p"
  shows "line s c (B(s := (B s)(p := ys))) = map (Pair p) ys @ line s c (B(s := (B s)(p := [])))"
proof (cases "ys = []")
  case False
  let ?B = "B(s := (B s)(p := ys))"
  have "best_price_in s ?B p" using best False by (auto simp: best_price_in_def)
  from line_best [OF c(1) this] c(2)
  have "line s c ?B = map (Pair p) (?B s p) @ line s c (?B(s := (?B s)(p := [])))" by simp
  moreover have "?B(s := (?B s)(p := [])) = B(s := (B s)(p := []))" by simp
  ultimately show ?thesis by (simp only: fun_upd_same)
qed simp

section \<open>One fill on the abstract book\<close>

definition ids_unique :: "abs_book \<Rightarrow> bool" where
  "ids_unique B \<longleftrightarrow> (\<forall>s p. distinct (map rs_id (B s p))) \<and>
     (\<forall>s p s' p' x y. x \<in> set (B s p) \<longrightarrow> y \<in> set (B s' p') \<longrightarrow> rs_id x = rs_id y \<longrightarrow> s = s' \<and> p = p')"

definition all_positive :: "abs_book \<Rightarrow> bool" where
  "all_positive B \<longleftrightarrow> (\<forall>s p. \<forall>x \<in> set (B s p). 0 < rs_qty x)"

lemma filter_positive: "all_positive B \<Longrightarrow> filter (\<lambda>r. rs_qty r \<noteq> 0) (B s p) = B s p"
  by (rule filter_True) (auto simp: all_positive_def word_gt_0)

lemma reduce_head:
  assumes u: "ids_unique B" and pos: "all_positive B" and h: "B s p = r # rs"
  shows "a_reduce (rs_id r) q B = B(s := (B s)(p :=
    (if q = rs_qty r then rs else r\<lparr>rs_qty := rs_qty r - q\<rparr> # rs)))"
proof (intro ext)
  fix s' p'
  let ?g = "\<lambda>x. if rs_id x = rs_id r then x\<lparr>rs_qty := rs_qty x - q\<rparr> else x"
  have other: "map ?g xs = xs" if "\<forall>x \<in> set xs. rs_id x \<noteq> rs_id r" for xs
    using that by (simp add: map_idI)
  show "a_reduce (rs_id r) q B s' p' = (B(s := (B s)(p := (if q = rs_qty r then rs else r\<lparr>rs_qty := rs_qty r - q\<rparr> # rs)))) s' p'"
  proof (cases "s' = s \<and> p' = p")
    case True
    have "distinct (map rs_id (B s p))" using u by (simp add: ids_unique_def)
    then have "\<forall>x \<in> set rs. rs_id x \<noteq> rs_id r" using h by (auto simp: image_iff)
    moreover have "\<forall>x \<in> set (B s p). rs_qty x \<noteq> 0" using pos by (simp add: all_positive_def word_gt_0)
    then have "filter (\<lambda>r. rs_qty r \<noteq> 0) rs = rs" using h by simp
    ultimately show ?thesis using True h other [of rs] by (auto simp: a_reduce_def)
  next
    case False
    have "r \<in> set (B s p)" using h by simp
    then have "rs_id x \<noteq> rs_id r" if "x \<in> set (B s' p')" for x
      using u that False unfolding ids_unique_def by blast
    then show ?thesis using False other [of "B s' p'"] filter_positive [OF pos, of s' p'] by (auto simp: a_reduce_def)
  qed
qed

lemma line_reduce:
  assumes u: "ids_unique B" and pos: "all_positive B" and c: "limit_like s c" "c p"
    and best: "best_price_in s B p" and h: "B s p = r # rs"
  shows "line s c (a_reduce (rs_id r) q B) =
    (if q = rs_qty r then tl (line s c B) else (p, r\<lparr>rs_qty := rs_qty r - q\<rparr>) # tl (line s c B))"
proof -
  have "line s c B = map (Pair p) (r # rs) @ line s c (B(s := (B s)(p := [])))"
    using line_best [OF c(1) best] c(2) h by simp
  moreover have "line s c (a_reduce (rs_id r) q B) =
      map (Pair p) (if q = rs_qty r then rs else r\<lparr>rs_qty := rs_qty r - q\<rparr> # rs) @ line s c (B(s := (B s)(p := [])))"
    unfolding reduce_head [OF u pos h] by (rule line_put [OF c best])
  ultimately show ?thesis by simp
qed

section \<open>Conservation\<close>

lemma fills_sum: "sum_list (map (\<lambda>(_, _, f). unat f) (fills q xs)) + unat (unfilled q xs) = unat q"
proof (induction q xs rule: fills.induct)
  case (2 q p r xs)
  have "min q (rs_qty r) \<le> q" by simp
  then have "unat (min q (rs_qty r)) + unat (q - min q (rs_qty r)) = unat q"
    using unat_sub [of "min q (rs_qty r)" q] word_le_nat_alt [of "min q (rs_qty r)" q] by simp
  then show ?case using 2 by auto
qed simp

lemma fills_zero [simp]: "fills 0 xs = []" "unfilled 0 xs = 0"
  by (cases xs; auto)+

end
