(* ===== verification/TC_Match_Step.thy ===== *)
theory TC_Match_Step
  imports TC_Match_Line
begin

text \<open>
  Between the engine and the abstract book: the order the engine finds at the head of the best
  level is the first of the line, its successor is the second, and executing an order leaves
  every other order in its slot.
\<close>

section \<open>Orders stay in their slots\<close>

definition same_orders :: "u32 set \<Rightarrow> order_pool \<Rightarrow> order_pool \<Rightarrow> bool" where
  "same_orders X p q \<longleftrightarrow> (\<forall>k. k \<notin> X \<longrightarrow> map_option ord_id (pool_at q k) = map_option ord_id (pool_at p k))"

lemma same_orders_refl [simp]: "same_orders X p p"
  by (simp add: same_orders_def)

lemma same_orders_trans: "same_orders X p q \<Longrightarrow> same_orders X q r \<Longrightarrow> same_orders X p r"
  by (simp add: same_orders_def)

lemma same_orders_update:
  assumes "pool_update p i f = Some q" "\<And>x. ord_id (f x) = ord_id x"
  shows "same_orders X p q"
proof -
  obtain x where x: "pool_at p i = Some x" using assms(1) by (auto simp: pool_update_def bind_Some_iff)
  then have "q = pool_set p i (f x)" using assms(1) by simp
  then show ?thesis using x assms(2) by (simp add: same_orders_def)
qed

lemma same_orders_free:
  assumes "pool_deallocate i p = Some q"
  shows "same_orders {i} p q"
  using pool_deallocate_other [OF assms] by (simp add: same_orders_def)

lemma unlink_loop_same:
  assumes "unlink_loop i j cur b = Some b'"
  shows "same_orders X (ob_orders b) (ob_orders b')"
proof (rule unlink_loop.raw_induct
    [where P = "\<lambda>i j cur b b'. same_orders X (ob_orders b) (ob_orders b')", OF _ assms], goal_cases)
  case (1 f i j cur b b')
  note run = 1(2)
  show ?case
  proof (cases "cur = kInvalidPoolIndex")
    case False
    then obtain r where r: "ords b cur = Some r" using run by (auto simp: bind_Some_iff)
    show ?thesis
    proof (cases "ord_next_in_level r = i")
      case True
      then obtain x o1 where "pool_update (ob_orders b) cur (\<lambda>r. r\<lparr>ord_next_in_level := x\<rparr>) = Some o1" "ob_orders b' = o1"
        using run False r by (auto simp: bind_Some_iff)
      then show ?thesis by (auto intro: same_orders_update)
    next
      case False
      with \<open>cur \<noteq> kInvalidPoolIndex\<close> show ?thesis using run r by (auto intro: 1(1))
    qed
  qed (use run in simp)
qed

lemma unlink_order_same: "unlink_order i j b = Some b' \<Longrightarrow> same_orders X (ob_orders b) (ob_orders b')"
  using unlink_loop_same by (fastforce simp: unlink_order_def bind_Some_iff split: if_splits)

lemma delete_internal_same:
  assumes "delete_order_internal i s j b = Some b'"
  shows "same_orders {i} (ob_orders b) (ob_orders b')"
proof -
  obtain m b1 lv o1 where *: "unlink_order i j (b\<lparr>ob_index := m\<rparr>) = Some b1"
    "pool_deallocate i (ob_orders b1) = Some o1" "ob_orders b' = o1"
    using assms by (auto simp: delete_order_internal_def bind_Some_iff Let_def split: if_splits)
  have "same_orders {i} (ob_orders b) (ob_orders b1)" using unlink_order_same [OF *(1)] by simp
  then show ?thesis using same_orders_free [OF *(2)] *(3) same_orders_trans by blast
qed

lemma cancel_order_same:
  assumes "cancel_order upd b = Some b'" "fm_find (ob_index b) (upd_order_id upd) = Some i"
  shows "same_orders {i} (ob_orders b) (ob_orders b')"
proof -
  obtain o1 where *: "pool_update (ob_orders b) i (\<lambda>r. r\<lparr>ord_remaining_qty := ord_remaining_qty r - upd_qty upd\<rparr>) = Some o1"
    "ob_orders b' = o1 \<or> (\<exists>s j lv. delete_order_internal i s j (b\<lparr>ob_orders := o1, ob_levels := lv\<rparr>) = Some b')"
    using assms by (auto simp: cancel_order_def bind_Some_iff Let_def split: if_splits)
  have "same_orders {i} (ob_orders b) o1" using same_orders_update [OF *(1)] by simp
  moreover have "same_orders {i} o1 (ob_orders b')" using *(2) delete_internal_same by fastforce
  ultimately show ?thesis by (rule same_orders_trans)
qed

section \<open>Ids and quantities of a book\<close>

lemma rep_positive: "book_rep b B \<Longrightarrow> all_positive B"
  using abs_positive by (fastforce simp: book_rep_def book_inv_def all_positive_def)

lemma rep_unique:
  assumes "book_rep b B"
  shows "ids_unique B"
proof -
  obtain T Q where inv: "book_inv b T Q" and B: "B = abs_of b T Q" using assms by (auto simp: book_rep_def)
  have core: "book_core b T Q" using inv by (simp add: book_inv_def)
  then have c: "trees_ok b T" "queues_ok b Q" by (auto simp: book_core_def)
  have "s = s' \<and> p = p'" if x: "x \<in> set (B s p)" "y \<in> set (B s' p')" "rs_id x = rs_id y" for s p s' p' x y
  proof -
    have "resting_at B (rs_id x) s p (rs_qty x)" "resting_at B (rs_id x) s' p' (rs_qty y)"
      using x by (auto simp: resting_at_def)
    note at = this [unfolded B]
    obtain i r where i: "fm_find (ob_index b) (rs_id x) = Some i" "ords b i = Some r" "ord_price r = p"
      "ord_side r = 0 \<longleftrightarrow> s" by (rule resting_at_order [OF core at(1)])
    obtain i' r' where "fm_find (ob_index b) (rs_id x) = Some i'" "ords b i' = Some r'" "ord_price r' = p'"
      "ord_side r' = 0 \<longleftrightarrow> s'" by (rule resting_at_order [OF core at(2)])
    with i show ?thesis by auto
  qed
  moreover have "distinct (map rs_id (B s p))" for s p
  proof (cases "tfind (price_of (ob_levels b)) p (T s)")
    case (Some j)
    then obtain l where l: "lvls b j = Some l"
      using side_find_Some [OF trees_okD(1) [OF c(1)]] trees_okD(4) [OF c(1), of s] by blast
    have q: "distinct (Q j)" "set (Q j) \<subseteq> dom (ords b)" using queue_at [OF c(2) l] by (auto simp: queue_ok_def)
    have "inj_on (rs_id \<circ> resting_of (ords b)) (set (Q j))"
    proof (rule inj_onI)
      fix x y assume xy: "x \<in> set (Q j)" "y \<in> set (Q j)" "(rs_id \<circ> resting_of (ords b)) x = (rs_id \<circ> resting_of (ords b)) y"
      have "x \<in> dom (ords b)" "y \<in> dom (ords b)" using xy(1,2) q(2) by auto
      then obtain r z where rz: "ords b x = Some r" "ords b y = Some z" by auto
      have "ord_id r = ord_id z" using xy(3) rz by (simp add: resting_of_def)
      from abs_ids_unique [OF core rz(2,1) this] show "x = y" .
    qed
    moreover have "map rs_id (B s p) = map (rs_id \<circ> resting_of (ords b)) (Q j)" by (simp add: B abs_of_def Some)
    ultimately show ?thesis using q(1) by (simp only: distinct_map)
  qed (simp add: B abs_of_def)
  ultimately show ?thesis unfolding ids_unique_def by blast
qed

section \<open>The head of the best level\<close>

text \<open>The link of an order whose queue goes on with \<open>xs\<close>.\<close>

definition next_is :: "order_book \<Rightarrow> order \<Rightarrow> resting list \<Rightarrow> bool" where
  "next_is b r xs \<longleftrightarrow> (case xs of [] \<Rightarrow> ord_next_in_level r = kInvalidPoolIndex
     | y # _ \<Rightarrow> ord_next_in_level r \<noteq> kInvalidPoolIndex \<and> map_option ord_id (ords b (ord_next_in_level r)) = Some (rs_id y))"

lemma find_live:
  assumes "book_rep b B" "ords b i = Some r"
  shows "fm_find (ob_index b) (ord_id r) = Some i" "ord_id r \<in> ids B"
proof -
  obtain T Q where core: "book_core b T Q" and B: "B = abs_of b T Q" using assms(1) by (auto simp: book_rep_def book_inv_def)
  have "fm_map (ob_index b) (ord_id r) = Some i" using core assms(2) by (auto simp: book_core_def index_ok_def)
  then show k: "ord_id r \<in> ids B" using ids_abs [OF core] B by simp
  obtain j z where j: "fm_find (ob_index b) (ord_id r) = Some j" "ords b j = Some z" "ord_id z = ord_id r"
    using abs_find [OF core k [unfolded B]] by blast
  with abs_ids_unique [OF core assms(2) j(2,3)] show "fm_find (ob_index b) (ord_id r) = Some i" by simp
qed

lemma best_head:
  assumes rep: "book_rep b B" and best: "best_price_in s B p" and q: "B s p = x # xs"
  shows "\<exists>l r. has_bbo (sides b s) \<and> bbo_level (sides b s) (ob_levels b) = Some (Some l) \<and> pl_price l = p \<and>
    pl_head_order_idx l \<noteq> kInvalidPoolIndex \<and> ords b (pl_head_order_idx l) = Some r \<and>
    ord_id r = rs_id x \<and> ord_remaining_qty r = rs_qty x \<and> ord_price r = p \<and>
    next_is b r xs"
proof -
  obtain T Q where inv: "book_inv b T Q" and B: "B = abs_of b T Q" using rep by (auto simp: book_rep_def)
  have core: "book_core b T Q" using inv by (simp add: book_inv_def)
  then have c: "trees_ok b T" "queues_ok b Q" by (auto simp: book_core_def)
  have "\<not> (\<forall>p. B s p = [])" using q by (metis list.distinct(1))
  from best_level [OF inv B, of s, unfolded if_not_P [OF this]]
  obtain l where l: "bbo_idx (sides b s) \<noteq> kInvalidPoolIndex" "lvls b (bbo_idx (sides b s)) = Some l"
    "pl_side l = 0 \<longleftrightarrow> s" "best_price_in s B (pl_price l)" by blast
  have p: "pl_price l = p" using best_price_unique [OF l(4) best] .
  let ?j = "bbo_idx (sides b s)"
  have mq: "map (resting_of (ords b)) (Q ?j) = x # xs"
    using abs_of_level [OF c(1) l(2), of Q] l(3) p q by (simp add: B)
  then obtain i ix where i: "Q ?j = i # ix" "x = resting_of (ords b) i" "xs = map (resting_of (ords b)) ix" by auto
  have qo: "queue_ok (ords b) l (i # ix)" using queue_at(1) [OF c(2) l(2)] i(1) by simp
  then obtain r where r: "pl_head_order_idx l = i" "i \<noteq> kInvalidPoolIndex" "ords b i = Some r"
    "chain (ords b) (ord_next_in_level r) ix" "ord_price r = pl_price l" by (auto simp: queue_ok_def)
  have nx: "next_is b r xs" using r(4) i(3) by (cases ix) (auto simp: resting_of_def next_is_def)
  show ?thesis
    by (rule exI [of _ l], rule exI [of _ r])
      (use l(1,2) p r i(2) nx in \<open>simp add: has_bbo_def bbo_level_def resting_of_def\<close>)
qed

lemma no_best:
  assumes rep: "book_rep b B" and e: "\<forall>p. B s p = []"
  shows "\<not> has_bbo (sides b s)"
proof -
  obtain T Q where "book_inv b T Q" "B = abs_of b T Q" using rep by (auto simp: book_rep_def)
  from best_level [OF this, of s, unfolded if_P [OF e]] show ?thesis by (simp add: has_bbo_def)
qed

end
