(* ===== verification/TC_Match_Correct.thy ===== *)
theory TC_Match_Correct
  imports TC_Match_Step
begin

text \<open>
  The matching engine against the line of the abstract book: \<open>matched\<close> says what a run of the
  matching loops from a state amounts to, and the induction follows the line.
\<close>

section \<open>What a run amounts to\<close>

fun make_trades :: "(nat \<Rightarrow> u64) \<Rightarrow> nat \<Rightarrow> u64 \<Rightarrow> u64 \<Rightarrow> (u32 \<times> u64 \<times> u32) list \<Rightarrow> trade list" where
  "make_trades clock n k agg [] = []"
| "make_trades clock n k agg ((p, i, f) # fs) = \<lparr>tr_trade_id = k, tr_aggressor_order_id = agg,
     tr_resting_order_id = i, tr_price = p, tr_quantity = f, tr_timestamp_ns = clock n\<rparr> #
     make_trades clock (n + 1) (k + 1) agg fs"

definition cross_line :: "bool \<Rightarrow> order_action \<Rightarrow> abs_book \<Rightarrow> (u32 \<times> resting) list" where
  "cross_line m a B = line (act_side a \<noteq> 0) (within_limit m a) B"

type_synonym match_state = "order_action \<times> execution_result \<times> matching_engine"

definition trades_in :: "execution_result \<Rightarrow> trade list" where
  "trades_in R = vec_list (res_trades R)"

definition result_ok :: "execution_result \<Rightarrow> bool" where
  "result_ok R \<longleftrightarrow> sv_ok (res_trades R)"

definition room :: "execution_result \<Rightarrow> nat" where
  "room R = sv_capacity (res_trades R) - length (trades_in R)"

definition after :: "(nat \<Rightarrow> u64) \<Rightarrow> bool \<Rightarrow> abs_book \<Rightarrow> match_state \<Rightarrow> match_state \<Rightarrow> bool" where
  "after clock m B st st' = (case st of (a, R, e) \<Rightarrow> case st' of (a', R', e') \<Rightarrow>
     let xs = cross_line m a B; fs = fills (act_qty a) xs in
     a' = a\<lparr>act_qty := unfilled (act_qty a) xs\<rparr> \<and> result_ok R' \<and> res_status R' = res_status R \<and>
     trades_in R' = trades_in R @ make_trades clock (me_clock_reads e) (me_next_trade_id e) (act_order_id a) fs \<and>
     sv_capacity (res_trades R') = sv_capacity (res_trades R) \<and>
     book_rep (me_book e') (apply_fills fs B) \<and> limits_of (me_book e') = limits_of (me_book e) \<and>
     me_next_trade_id e' = me_next_trade_id e + word_of_nat (length fs) \<and>
     me_clock_reads e' = me_clock_reads e + length fs \<and>
     (unfilled (act_qty a) xs \<noteq> 0 \<longrightarrow> cross_line m a (apply_fills fs B) = []))"

definition matched :: "(nat \<Rightarrow> u64) \<Rightarrow> bool \<Rightarrow> abs_book \<Rightarrow> match_state \<Rightarrow> match_state option \<Rightarrow> bool" where
  "matched clock m B st res = (if length (fills (act_qty (fst st)) (cross_line m (fst st) B)) \<le> room (fst (snd st))
     then \<exists>st'. res = Some st' \<and> after clock m B st st' else res = None)"

lemma within_limit_qty [simp]: "within_limit m (a\<lparr>act_qty := q\<rparr>) = within_limit m a"
  by (simp add: within_limit_def fun_eq_iff)

lemma cross_line_qty [simp]: "cross_line m (a\<lparr>act_qty := q\<rparr>) B = cross_line m a B"
  by (simp add: cross_line_def)

text \<open>Nothing to match.\<close>

lemma matched_done:
  assumes "book_rep (me_book e) B" "result_ok R" "act_qty a = 0 \<or> cross_line m a B = []"
  shows "matched clock m B (a, R, e) (Some (a, R, e))"
proof -
  have "fills (act_qty a) (cross_line m a B) = []" "unfilled (act_qty a) (cross_line m a B) = act_qty a"
    using assms(3) by auto
  then show ?thesis using assms by (auto simp: matched_def after_def apply_fills_def Let_def)
qed

section \<open>One fill\<close>

text \<open>The index the engine holds: the head of the best level, which crosses.\<close>

definition at_head :: "bool \<Rightarrow> order_action \<Rightarrow> order_book \<Rightarrow> abs_book \<Rightarrow> u32 \<Rightarrow> u32 \<Rightarrow> resting \<Rightarrow> resting list \<Rightarrow> bool" where
  "at_head m a b B i p x xs \<longleftrightarrow> best_price_in (act_side a \<noteq> 0) B p \<and> within_limit m a p \<and>
     B (act_side a \<noteq> 0) p = x # xs \<and> i \<noteq> kInvalidPoolIndex \<and> map_option ord_id (ords b i) = Some (rs_id x)"

lemma at_head_line:
  assumes "at_head m a b B i p x xs"
  shows "cross_line m a B = (p, x) # tl (cross_line m a B)"
proof -
  have "limit_like (act_side a \<noteq> 0) (within_limit m a)" by (rule within_limit_like)
  from line_best [OF this, of B p] assms show ?thesis by (auto simp: at_head_def cross_line_def)
qed

text \<open>The order at that index is the one the book puts there.\<close>

lemma at_head_order:
  assumes rep: "book_rep b B" and h: "at_head m a b B i p x xs"
  shows "\<exists>r. ords b i = Some r \<and> ord_id r = rs_id x \<and> ord_remaining_qty r = rs_qty x \<and> ord_price r = p \<and>
    next_is b r xs"
proof -
  have hb: "best_price_in (act_side a \<noteq> 0) B p" "B (act_side a \<noteq> 0) p = x # xs"
    using h unfolding at_head_def by simp_all
  obtain l r where "has_bbo (sides b (act_side a \<noteq> 0))" "bbo_level (sides b (act_side a \<noteq> 0)) (ob_levels b) = Some (Some l)"
    "pl_price l = p" "pl_head_order_idx l \<noteq> kInvalidPoolIndex"
    and l: "ords b (pl_head_order_idx l) = Some r" "ord_id r = rs_id x" "ord_remaining_qty r = rs_qty x"
    "ord_price r = p" "next_is b r xs"
    using best_head [OF rep hb] by (elim exE conjE) (rule that)
  obtain z where z: "ords b i = Some z" "ord_id z = rs_id x" using h by (auto simp: at_head_def)
  obtain T Q where "book_core b T Q" using rep by (auto simp: book_rep_def book_inv_def)
  from abs_ids_unique [OF this l(1) z(1)] have "i = pl_head_order_idx l" using z(2) l(2) by simp
  with l show ?thesis by blast
qed

definition follows :: "bool \<Rightarrow> order_action \<Rightarrow> order_book \<Rightarrow> abs_book \<Rightarrow> u32 \<Rightarrow> u32 \<Rightarrow> resting list \<Rightarrow> bool" where
  "follows m a b B i p xs \<longleftrightarrow> (case xs of [] \<Rightarrow> i = kInvalidPoolIndex | y # ys \<Rightarrow> at_head m a b B i p y ys)"

lemma at_head_qty [simp]: "at_head m (a\<lparr>act_qty := q\<rparr>) = at_head m a"
  by (simp add: at_head_def fun_eq_iff)

lemma follows_qty [simp]: "follows m (a\<lparr>act_qty := q\<rparr>) = follows m a"
  by (simp add: follows_def fun_eq_iff split: list.split)

lemma push_trade:
  assumes "result_ok R"
  shows "room R = 0 \<Longrightarrow> push_back t (res_trades R) = None"
    and "room R \<noteq> 0 \<Longrightarrow> \<exists>v. push_back t (res_trades R) = Some v \<and> sv_ok v \<and>
      vec_list v = vec_list (res_trades R) @ [t] \<and> sv_capacity v = sv_capacity (res_trades R)"
proof -
  show "push_back t (res_trades R) = None" if "room R = 0"
  proof -
    have "sv_capacity (res_trades R) = length (vec_list (res_trades R))"
      using that assms length_vec_list [of "res_trades R"] by (simp add: room_def trades_in_def result_ok_def sv_ok_def)
    then show ?thesis using push_back_full [of "res_trades R"] assms by (simp add: result_ok_def)
  qed
  show "\<exists>v. push_back t (res_trades R) = Some v \<and> sv_ok v \<and>
      vec_list v = vec_list (res_trades R) @ [t] \<and> sv_capacity v = sv_capacity (res_trades R)" if "room R \<noteq> 0"
    using that push_back_ok [of "res_trades R" t] assms by (auto simp: room_def trades_in_def result_ok_def)
qed

lemma follows_filled:
  assumes rep: "book_rep b B" and h: "at_head m a b B i p x xs"
    and r: "ords b i = Some r" "ord_id r = rs_id x" "next_is b r xs"
    and same: "same_orders {i} (ob_orders b) (ob_orders b')"
  shows "follows m a b' (a_reduce (rs_id x) (rs_qty x) B) (ord_next_in_level r) p xs"
proof (cases xs)
  case Nil
  then show ?thesis using r(3) by (simp add: next_is_def follows_def)
next
  case (Cons y ys)
  let ?s = "act_side a \<noteq> 0"
  have q: "B ?s p = x # xs" and best: "best_price_in ?s B p" and cr: "within_limit m a p" using h by (auto simp: at_head_def)
  note uniq = rep_unique [OF rep] and pos = rep_positive [OF rep]
  have n: "ord_next_in_level r \<noteq> kInvalidPoolIndex"
    "map_option ord_id (ords b (ord_next_in_level r)) = Some (rs_id y)" using r(3) Cons by (simp_all add: next_is_def)
  have "distinct (map rs_id (x # y # ys))" using uniq q Cons by (metis ids_unique_def)
  then have "rs_id y \<noteq> rs_id x" by auto
  then have "ord_next_in_level r \<noteq> i" using n(2) r(1,2) by auto
  then have n': "map_option ord_id (ords b' (ord_next_in_level r)) = Some (rs_id y)"
    using same n(2) by (simp add: same_orders_def)
  have B': "a_reduce (rs_id x) (rs_qty x) B = B(?s := (B ?s)(p := y # ys))"
    using reduce_head [OF uniq pos q, of "rs_qty x"] Cons by simp
  have "best_price_in ?s (B(?s := (B ?s)(p := y # ys))) p"
    using best by (auto simp: best_price_in_def)
  then show ?thesis unfolding follows_def at_head_def B' using Cons cr n(1) n' by simp
qed

lemma fill_one_ok:
  assumes rep: "book_rep (me_book e) B" and h: "at_head m a (me_book e) B i p x xs" and R: "result_ok R"
  defines "f \<equiv> min (act_qty a) (rs_qty x)"
  shows "if room R = 0 then fill_one clock i (a, R, e) = None else
   \<exists>next R' e'. fill_one clock i (a, R, e) = Some (next, a\<lparr>act_qty := act_qty a - f\<rparr>, R', e') \<and>
    result_ok R' \<and> res_status R' = res_status R \<and> sv_capacity (res_trades R') = sv_capacity (res_trades R) \<and>
    trades_in R' = trades_in R @ make_trades clock (me_clock_reads e) (me_next_trade_id e) (act_order_id a) [(p, rs_id x, f)] \<and>
    me_next_trade_id e' = me_next_trade_id e + 1 \<and> me_clock_reads e' = me_clock_reads e + 1 \<and>
    book_rep (me_book e') (a_reduce (rs_id x) f B) \<and> limits_of (me_book e') = limits_of (me_book e) \<and>
    (f = rs_qty x \<longrightarrow> follows m a (me_book e') (a_reduce (rs_id x) f B) next p xs)"
proof -
  let ?b = "me_book e" and ?s = "act_side a \<noteq> 0"
  obtain r where r: "ords ?b i = Some r" "ord_id r = rs_id x" "ord_remaining_qty r = rs_qty x" "ord_price r = p"
    "next_is ?b r xs" using at_head_order [OF rep h] by blast
  have q: "B ?s p = x # xs" using h by (simp add: at_head_def)
  let ?t = "\<lparr>tr_trade_id = me_next_trade_id e, tr_aggressor_order_id = act_order_id a,
     tr_resting_order_id = ord_id r, tr_price = ord_price r, tr_quantity = f, tr_timestamp_ns = clock (me_clock_reads e)\<rparr>"
  have v: "verify_match ?t a r = Some ()" by (simp add: verify_match_def f_def r(3))
  let ?u = "book_update_init\<lparr>upd_type := ExecuteOrder, upd_order_id := ord_id r, upd_qty := f,
     upd_price := p, upd_match_id := me_next_trade_id e\<rparr>"
  have run: "fill_one clock i (a, R, e) = do {
      trades \<leftarrow> push_back ?t (res_trades R);
      b \<leftarrow> cancel_order ?u ?b;
      Some (ord_next_in_level r, a\<lparr>act_qty := act_qty a - f\<rparr>, R\<lparr>res_trades := trades\<rparr>,
        e\<lparr>me_next_trade_id := me_next_trade_id e + 1, me_clock_reads := me_clock_reads e + 1, me_book := b\<rparr>) }"
    using r(1,3,4) v by (simp add: fill_one_def get_timestamp_def execute_order_def Let_def f_def)
  show ?thesis
  proof (cases "room R = 0")
    case True
    then have "push_back ?t (res_trades R) = None" by (rule push_trade(1) [OF R])
    then show ?thesis using run True by simp
  next
    case False
    then obtain v where v: "push_back ?t (res_trades R) = Some v" "sv_ok v" "vec_list v = vec_list (res_trades R) @ [?t]"
      "sv_capacity v = sv_capacity (res_trades R)"
      using push_trade(2) [OF R] by blast
    have "x \<in> set (B ?s p)" using q by simp
    then have at: "resting_qty B (rs_id x) (rs_qty x)" unfolding resting_qty_def by blast
    have "\<exists>n \<ge> upd_qty ?u. resting_qty B (upd_order_id ?u) n" using at r(2) by (intro exI [of _ "rs_qty x"]) (simp add: f_def)
    then obtain b' where b': "cancel_order ?u ?b = Some b'" "limits_of b' = limits_of ?b" "book_rep b' (a_reduce (rs_id x) f B)"
      using cancel_order_refines [OF rep, of ?u] r(2) by auto
    have same: "same_orders {i} (ob_orders ?b) (ob_orders b')"
      by (rule cancel_order_same [OF b'(1)]) (use find_live(1) [OF rep r(1)] in simp)
    have nx: "follows m a b' (a_reduce (rs_id x) f B) (ord_next_in_level r) p xs" if "f = rs_qty x"
      unfolding that by (rule follows_filled [OF rep h r(1,2,5) same])
    have "fill_one clock i (a, R, e) = Some (ord_next_in_level r, a\<lparr>act_qty := act_qty a - f\<rparr>, R\<lparr>res_trades := v\<rparr>,
        e\<lparr>me_next_trade_id := me_next_trade_id e + 1, me_clock_reads := me_clock_reads e + 1, me_book := b'\<rparr>)"
      using run v(1) b'(1) by simp
    then show ?thesis unfolding if_not_P [OF False]
      by (intro exI conjI) (assumption, use v b' r nx in \<open>simp_all add: result_ok_def trades_in_def\<close>)
  qed
qed

section \<open>The loops\<close>

lemma fills_step:
  assumes rep: "book_rep b B" and h: "at_head m a b B i p x xs" and q: "q \<noteq> 0"
  defines "f \<equiv> min q (rs_qty x)"
  shows "fills q (cross_line m a B) = (p, rs_id x, f) # fills (q - f) (cross_line m a (a_reduce (rs_id x) f B))"
    "unfilled q (cross_line m a B) = unfilled (q - f) (cross_line m a (a_reduce (rs_id x) f B))"
    "f = rs_qty x \<Longrightarrow> length (cross_line m a (a_reduce (rs_id x) f B)) < length (cross_line m a B)"
proof -
  have hb: "best_price_in (act_side a \<noteq> 0) B p" "B (act_side a \<noteq> 0) p = x # xs" "within_limit m a p"
    using h unfolding at_head_def by simp_all
  note l = at_head_line [OF h]
  have red: "cross_line m a (a_reduce (rs_id x) f B) = (if f = rs_qty x then tl (cross_line m a B)
      else (p, x\<lparr>rs_qty := rs_qty x - f\<rparr>) # tl (cross_line m a B))"
    unfolding cross_line_def
    by (rule line_reduce [OF rep_unique [OF rep] rep_positive [OF rep] within_limit_like hb(3) hb(1,2)])
  have z: "f \<noteq> rs_qty x \<Longrightarrow> q - f = 0" by (auto simp: f_def min_def split: if_splits)
  have rest: "fills (q - f) (tl (cross_line m a B)) = fills (q - f) (cross_line m a (a_reduce (rs_id x) f B))"
    "unfilled (q - f) (tl (cross_line m a B)) = unfilled (q - f) (cross_line m a (a_reduce (rs_id x) f B))"
  proof -
    have "cross_line m a (a_reduce (rs_id x) f B) = tl (cross_line m a B) \<or> q - f = 0" using red z by (cases "f = rs_qty x") simp_all
    then show "fills (q - f) (tl (cross_line m a B)) = fills (q - f) (cross_line m a (a_reduce (rs_id x) f B))"
      "unfilled (q - f) (tl (cross_line m a B)) = unfilled (q - f) (cross_line m a (a_reduce (rs_id x) f B))"
      by (elim disjE; simp only: fills_zero)+
  qed
  show "fills q (cross_line m a B) = (p, rs_id x, f) # fills (q - f) (cross_line m a (a_reduce (rs_id x) f B))"
    unfolding rest(1) [symmetric] by (subst l) (simp add: q f_def)
  show "unfilled q (cross_line m a B) = unfilled (q - f) (cross_line m a (a_reduce (rs_id x) f B))"
    unfolding rest(2) [symmetric] by (subst l) (simp add: q f_def)
  show "f = rs_qty x \<Longrightarrow> length (cross_line m a (a_reduce (rs_id x) f B)) < length (cross_line m a B)"
    using red l by (metis length_Cons lessI)
qed

lemma matched_step:
  assumes rep: "book_rep (me_book e) B" and h: "at_head m a (me_book e) B i p x xs" and q: "act_qty a \<noteq> 0"
  defines "f \<equiv> min (act_qty a) (rs_qty x)"
  assumes R': "result_ok R'" "res_status R' = res_status R" "sv_capacity (res_trades R') = sv_capacity (res_trades R)"
      "trades_in R' = trades_in R @ make_trades clock (me_clock_reads e) (me_next_trade_id e) (act_order_id a) [(p, rs_id x, f)]"
    and e': "me_next_trade_id e' = me_next_trade_id e + 1" "me_clock_reads e' = me_clock_reads e + 1"
      "limits_of (me_book e') = limits_of (me_book e)"
    and r0: "room R \<noteq> 0"
    and rest: "matched clock m (a_reduce (rs_id x) f B) (a\<lparr>act_qty := act_qty a - f\<rparr>, R', e') res"
  shows "matched clock m B (a, R, e) res"
proof -
  note st = fills_step [OF rep h q, folded f_def]
  let ?ys = "cross_line m a (a_reduce (rs_id x) f B)"
  let ?fs = "fills (act_qty a - f) ?ys"
  have room: "Suc (length ?fs) \<le> room R \<longleftrightarrow> length ?fs \<le> room R'" using R'(3,4) r0 by (auto simp: room_def)
  show ?thesis
  proof (cases "length ?fs \<le> room R'")
    case True
    then obtain st' where r: "res = Some st'" "after clock m (a_reduce (rs_id x) f B) (a\<lparr>act_qty := act_qty a - f\<rparr>, R', e') st'"
      using rest by (auto simp: matched_def)
    obtain a1 R1 e1 where s1: "st' = (a1, R1, e1)" by (metis prod_cases3)
    have "after clock m B (a, R, e) st'"
      using r(2) R' e' unfolding s1 after_def Let_def by (simp add: st(1,2) apply_fills_def algebra_simps)
    then show ?thesis using r(1) True room by (simp add: matched_def st(1))
  next
    case False
    then show ?thesis using rest room by (simp add: matched_def st(1))
  qed
qed

lemma sweep_stop: "cur = kInvalidPoolIndex \<or> act_qty (fst st) = 0 \<Longrightarrow> sweep_level clock cur st = Some st"
  by (subst sweep_level.simps) auto

lemma sweep_go:
  "cur \<noteq> kInvalidPoolIndex \<Longrightarrow> act_qty (fst st) \<noteq> 0 \<Longrightarrow> sweep_level clock cur st =
    do { (next, st) \<leftarrow> fill_one clock cur st; sweep_level clock next st }"
  by (subst sweep_level.simps) (simp add: word_gt_0)

definition sweep_on :: "(nat \<Rightarrow> u64) \<Rightarrow> bool \<Rightarrow> u32 \<Rightarrow> match_state \<Rightarrow> match_state option" where
  "sweep_on clock m cur st = do { st \<leftarrow> sweep_level clock cur st; match_core clock m st }"

text \<open>From the head of the best level, given the loops are right on shorter lines.\<close>

lemma sweep_head:
  assumes rep: "book_rep (me_book e) B" and h: "at_head m a (me_book e) B i p x xs" and R: "result_ok R"
    and q: "act_qty a \<noteq> 0"
    and stop: "\<And>st B. book_rep (me_book (snd (snd st))) B \<Longrightarrow> result_ok (fst (snd st)) \<Longrightarrow> act_qty (fst st) = 0 \<Longrightarrow>
      matched clock m B st (match_core clock m st)"
    and shorter: "\<And>st B p xs next. book_rep (me_book (snd (snd st))) B \<Longrightarrow> result_ok (fst (snd st)) \<Longrightarrow>
      follows m (fst st) (me_book (snd (snd st))) B next p xs \<Longrightarrow>
      length (cross_line m (fst st) B) < length (cross_line m a B') \<Longrightarrow> matched clock m B st (sweep_on clock m next st)"
    and B': "B' = B"
  shows "matched clock m B (a, R, e) (sweep_on clock m i (a, R, e))"
proof -
  let ?f = "min (act_qty a) (rs_qty x)"
  have iv: "i \<noteq> kInvalidPoolIndex" using h by (simp add: at_head_def)
  have run: "sweep_on clock m i (a, R, e) = do { (next, st) \<leftarrow> fill_one clock i (a, R, e); sweep_on clock m next st }"
    using q iv by (simp add: sweep_on_def sweep_go case_prod_unfold)
  show ?thesis
  proof (cases "room R = 0")
    case True
    have "fill_one clock i (a, R, e) = None" using fill_one_ok [OF rep h R, of clock] True by simp
    then show ?thesis using run True fills_step(1) [OF rep h q] by (simp add: matched_def)
  next
    case False
    obtain nxt R' e' where g: "fill_one clock i (a, R, e) = Some (nxt, a\<lparr>act_qty := act_qty a - ?f\<rparr>, R', e')"
      "result_ok R'" "res_status R' = res_status R" "sv_capacity (res_trades R') = sv_capacity (res_trades R)"
      "trades_in R' = trades_in R @ make_trades clock (me_clock_reads e) (me_next_trade_id e) (act_order_id a) [(p, rs_id x, ?f)]"
      "me_next_trade_id e' = me_next_trade_id e + 1" "me_clock_reads e' = me_clock_reads e + 1"
      "book_rep (me_book e') (a_reduce (rs_id x) ?f B)" "limits_of (me_book e') = limits_of (me_book e)"
      "?f = rs_qty x \<longrightarrow> follows m a (me_book e') (a_reduce (rs_id x) ?f B) nxt p xs"
      using fill_one_ok [OF rep h R, of clock, unfolded if_not_P [OF False]] by (elim exE conjE) (rule that)
    let ?st = "(a\<lparr>act_qty := act_qty a - ?f\<rparr>, R', e')"
    have "matched clock m (a_reduce (rs_id x) ?f B) ?st (sweep_on clock m nxt ?st)"
    proof (cases "?f = rs_qty x")
      case True
      have "follows m (a\<lparr>act_qty := act_qty a - ?f\<rparr>) (me_book e') (a_reduce (rs_id x) ?f B) nxt p xs"
        using g(10) True by simp
      then show ?thesis using shorter [of ?st] g(2,8) fills_step(3) [OF rep h q True] B' by simp
    next
      case False
      then have "act_qty a - ?f = 0" by (auto simp: min_def split: if_splits)
      then show ?thesis using stop [of ?st] g(2,8) by (simp add: sweep_on_def sweep_stop)
    qed
    from matched_step [OF rep h q g(2-7) g(9) False this] show ?thesis using run g(1) by simp
  qed
qed

lemma opposite_sides: "opposite_side k b = sides b (k \<noteq> 0)"
  by (simp add: opposite_side_def sides_def)

lemma match_stop:
  assumes "book_rep (me_book (snd (snd st))) B" "result_ok (fst (snd st))" "act_qty (fst st) = 0"
  shows "matched clock m B st (match_core clock m st)"
proof -
  obtain a R e where st: "st = (a, R, e)" by (metis prod_cases3)
  have "match_core clock m st = Some st" using assms(3) by (subst match_core.simps) simp
  then show ?thesis using matched_done [of e B R a m clock] assms st by simp
qed

lemma match_core_done:
  assumes "book_rep (me_book e) B" "result_ok R" "act_qty a = 0 \<or> (\<forall>p. B (act_side a \<noteq> 0) p = [])"
  shows "matched clock m B (a, R, e) (match_core clock m (a, R, e))"
proof -
  have "match_core clock m (a, R, e) = Some (a, R, e)"
    using no_best [OF assms(1), of "act_side a \<noteq> 0"] assms(3)
    by (subst match_core.simps) (auto simp: opposite_sides)
  moreover have "act_qty a = 0 \<or> cross_line m a B = []"
    using assms(3) line_none by (auto simp: cross_line_def)
  ultimately show ?thesis using matched_done [OF assms(1,2)] by simp
qed

lemma match_core_best:
  assumes rep: "book_rep (me_book e) B" and q: "act_qty a \<noteq> 0"
    and p: "best_price_in (act_side a \<noteq> 0) B p" and x: "B (act_side a \<noteq> 0) p = x # xs"
  obtains i where "match_core clock m (a, R, e) =
      (if within_limit m a p then sweep_on clock m i (a, R, e) else Some (a, R, e))"
    "within_limit m a p \<Longrightarrow> at_head m a (me_book e) B i p x xs"
proof -
  obtain l r where l: "has_bbo (sides (me_book e) (act_side a \<noteq> 0))"
    "bbo_level (sides (me_book e) (act_side a \<noteq> 0)) (ob_levels (me_book e)) = Some (Some l)"
    "pl_price l = p" "pl_head_order_idx l \<noteq> kInvalidPoolIndex" "ords (me_book e) (pl_head_order_idx l) = Some r"
    "ord_id r = rs_id x" "ord_remaining_qty r = rs_qty x" "ord_price r = p" "next_is (me_book e) r xs"
    using best_head [OF rep p x] by (elim exE conjE) (rule that)
  have "match_core clock m (a, R, e) =
      (if within_limit m a p then sweep_on clock m (pl_head_order_idx l) (a, R, e) else Some (a, R, e))"
    using q l(1-3) by (subst match_core.simps) (simp add: opposite_sides sweep_on_def word_gt_0 crosses_eq)
  moreover have "at_head m a (me_book e) B (pl_head_order_idx l) p x xs" if "within_limit m a p"
    unfolding at_head_def using p x l that by simp
  ultimately show ?thesis by (rule that)
qed

lemma match_loops:
  assumes "book_rep (me_book (snd (snd st))) B" "result_ok (fst (snd st))"
  shows "matched clock m B st (match_core clock m st) \<and>
    (\<forall>i p xs. follows m (fst st) (me_book (snd (snd st))) B i p xs \<longrightarrow> matched clock m B st (sweep_on clock m i st))"
  using assms
proof (induction "length (cross_line m (fst st) B)" arbitrary: st B rule: less_induct)
  case less
  obtain a R e where st: "st = (a, R, e)" by (metis prod_cases3)
  have rep: "book_rep (me_book e) B" and R: "result_ok R" using less.prems st by auto
  let ?s = "act_side a \<noteq> 0"
  have sweep: "matched clock m B st (sweep_on clock m i st)"
    if h: "at_head m a (me_book e) B i p x xs" and q: "act_qty a \<noteq> 0" for i p x xs
    unfolding st
  proof (rule sweep_head [OF rep h R q match_stop _ refl])
    fix st' :: match_state and B' p' xs' j
    assume *: "book_rep (me_book (snd (snd st'))) B'" "result_ok (fst (snd st'))"
      "follows m (fst st') (me_book (snd (snd st'))) B' j p' xs'"
      "length (cross_line m (fst st') B') < length (cross_line m a B)"
    have "length (cross_line m (fst st') B') < length (cross_line m (fst st) B)" using *(4) st by simp
    from less.hyps [OF this *(1,2)] *(3) show "matched clock m B' st' (sweep_on clock m j st')" by blast
  qed
  have core: "matched clock m B st (match_core clock m st)"
  proof (cases "act_qty a = 0 \<or> (\<forall>p. B ?s p = [])")
    case True
    then show ?thesis unfolding st by (rule match_core_done [OF rep R])
  next
    case False
    then obtain p where p: "best_price_in ?s B p" using best_price_ex [OF rep] by blast
    then obtain x xs where x: "B ?s p = x # xs" by (cases "B ?s p") (auto simp: best_price_in_def)
    have q: "act_qty a \<noteq> 0" using False by simp
    obtain i where i: "match_core clock m (a, R, e) =
        (if within_limit m a p then sweep_on clock m i (a, R, e) else Some (a, R, e))"
      "within_limit m a p \<Longrightarrow> at_head m a (me_book e) B i p x xs"
      using match_core_best [OF rep q p x] by metis
    show ?thesis
    proof (cases "within_limit m a p")
      case True
      then show ?thesis using sweep [OF i(2) q] i(1) st by simp
    next
      case no: False
      have "cross_line m a B = []" using line_best [OF within_limit_like p] no by (simp add: cross_line_def)
      then show ?thesis using matched_done [OF rep R] st i(1) no by simp
    qed
  qed
  have "matched clock m B st (sweep_on clock m i st)" if f: "follows m a (me_book e) B i p xs" for i p xs
  proof (cases "i = kInvalidPoolIndex \<or> act_qty a = 0")
    case True
    then show ?thesis using core st by (simp add: sweep_on_def sweep_stop)
  next
    case False
    then obtain y ys where "xs = y # ys" "at_head m a (me_book e) B i p y ys" using f
      by (cases xs) (auto simp: follows_def)
    then show ?thesis using sweep False by blast
  qed
  with core show ?case using st by simp
qed

end
