(* ===== verification/TC_Liquidity.thy ===== *)
theory TC_Liquidity
  imports TC_Match_Correct
begin

text \<open>
  \<open>matching/liquidity_analyzer.hpp\<close>: the scan over the tree of the opposite side finds exactly the
  quantity of all its levels, capped at the quantity asked for.
\<close>

definition level_qty :: "level_pool \<Rightarrow> u32 \<Rightarrow> nat" where
  "level_qty pool j = (case pool_at pool j of None \<Rightarrow> 0 | Some l \<Rightarrow> unat (pl_total_qty l))"

definition tree_qty :: "level_pool \<Rightarrow> u32 tree \<Rightarrow> nat" where
  "tree_qty pool t = sum_list (map (level_qty pool) (inorder t))"

lemma tree_qty_simps [simp]:
  "tree_qty pool Leaf = 0"
  "tree_qty pool (Node l x r) = tree_qty pool l + level_qty pool x + tree_qty pool r"
  by (simp_all add: tree_qty_def)

text \<open>Taking from one amount what another asks for.\<close>

lemma unat_take:
  fixes x rem :: u32
  shows "unat (min x rem) = min (unat x) (unat rem)" "unat (rem - min x rem) = unat rem - min (unat x) (unat rem)"
proof -
  show m: "unat (min x rem) = min (unat x) (unat rem)" by (simp add: min_def word_le_nat_alt)
  have "min x rem \<le> rem" by simp
  then show "unat (rem - min x rem) = unat rem - min (unat x) (unat rem)" by (simp add: unat_sub m)
qed

lemma unat_add_le:
  fixes x y rem :: u32
  assumes "unat x + unat y \<le> unat rem"
  shows "unat (x + y) = unat x + unat y"
proof -
  have "unat rem < 2 ^ 32" using unsigned_less [of rem] by simp
  then show ?thesis using assms by (simp add: unat_word_ariths)
qed

definition scanned :: "u32 \<Rightarrow> nat \<Rightarrow> (u32 \<times> u32) option \<Rightarrow> bool" where
  "scanned rem tot res \<longleftrightarrow> (\<exists>found rem'. res = Some (found, rem') \<and>
     unat found = min tot (unat rem) \<and> unat rem' = unat rem - min tot (unat rem))"

text \<open>One subtree, the node, the other subtree, in whichever order.\<close>

definition scan_three :: "(u32 \<Rightarrow> (u32 \<times> u32) option) \<Rightarrow> u32 \<Rightarrow> (u32 \<Rightarrow> (u32 \<times> u32) option) \<Rightarrow> u32 \<Rightarrow> (u32 \<times> u32) option" where
  "scan_three f q g rem = do {
     (found, rem) \<leftarrow> f rem;
     if rem = 0 then Some (found, rem)
     else do {
       let take = min q rem;
       let found = found + take;
       let rem = rem - take;
       if rem = 0 then Some (found, rem)
       else do {
         (more, rem) \<leftarrow> g rem;
         Some (found + more, rem)
       }
     }
   }"

lemma scan_three_ok:
  assumes f: "\<And>rem. scanned rem n (f rem)" and g: "\<And>rem. scanned rem k (g rem)"
  shows "scanned rem (n + unat q + k) (scan_three f q g rem)"
proof -
  obtain a r1 where a: "f rem = Some (a, r1)" "unat a = min n (unat rem)" "unat r1 = unat rem - min n (unat rem)"
    using f [of rem] unfolding scanned_def by blast
  show ?thesis
  proof (cases "r1 = 0")
    case True
    then have "unat rem \<le> n" using a(3) by simp
    then show ?thesis using a True by (simp add: scan_three_def scanned_def)
  next
    case False
    then have r1: "unat r1 \<noteq> 0" by (simp add: unat_eq_0)
    let ?t = "min q r1"
    note t = unat_take [where x = q and rem = r1]
    have at: "unat (a + ?t) = unat a + unat ?t" by (rule unat_add_le [where rem = rem]) (use a t in \<open>auto simp: min_def\<close>)
    show ?thesis
    proof (cases "r1 - ?t = 0")
      case True
      then have "unat r1 - min (unat q) (unat r1) = 0" using t(2) by (metis unat_0)
      then show ?thesis using a t at False True r1 by (simp add: scan_three_def scanned_def Let_def)
    next
      case more: False
      obtain c r2 where c: "g (r1 - ?t) = Some (c, r2)" "unat c = min k (unat (r1 - ?t))"
        "unat r2 = unat (r1 - ?t) - min k (unat (r1 - ?t))"
        using g [of "r1 - ?t"] unfolding scanned_def by blast
      have "unat (r1 - ?t) \<noteq> 0" using more by (simp add: unat_eq_0)
      then have lt: "unat q < unat r1" using t(2) by simp
      have run: "scan_three f q g rem = Some (a + ?t + c, r2)"
        using a(1) False more c(1) by (simp add: scan_three_def Let_def)
      have n: "n < unat rem" using a(3) r1 by linarith
      then have v: "unat a = n" "unat r1 = unat rem - n" using a by simp_all
      have w: "unat ?t = unat q" "unat (r1 - ?t) = unat rem - n - unat q" using t lt v by simp_all
      have "unat (a + ?t) + unat c \<le> unat rem" using at v w c(2) lt by linarith
      then have ct: "unat (a + ?t + c) = unat a + unat ?t + unat c" using unat_add_le at by metis
      have "unat (a + ?t + c) = min (n + unat q + k) (unat rem)" using ct v w c(2) lt by linarith
      moreover have "unat r2 = unat rem - min (n + unat q + k) (unat rem)" using v w c(3) lt by linarith
      ultimately show ?thesis unfolding run scanned_def by blast
    qed
  qed
qed

lemma scan_tree_ok:
  "tree_at (pool_at pool) par i t \<Longrightarrow> scanned rem (tree_qty pool t) (scan_tree i s pool rem)"
proof (induction t arbitrary: par i rem)
  case Leaf
  then show ?case by (subst scan_tree.simps) (simp add: scanned_def)
next
  case (Node l x r)
  then obtain lv where lv: "i = x" "x \<noteq> kInvalidPoolIndex" "pool_at pool x = Some lv"
    "tree_at (pool_at pool) x (nd_left (pl_node lv)) l" "tree_at (pool_at pool) x (nd_right (pl_node lv)) r"
    by auto
  have qx: "level_qty pool x = unat (pl_total_qty lv)" using lv(3) by (simp add: level_qty_def)
  show ?case
  proof (cases "rem = 0")
    case True
    then show ?thesis by (subst scan_tree.simps) (simp add: scanned_def)
  next
    case False
    let ?l = "scan_tree (nd_left (pl_node lv)) s pool" and ?r = "scan_tree (nd_right (pl_node lv)) s pool"
    have "scan_tree i s pool rem = (if s = 0 then scan_three ?r (pl_total_qty lv) ?l rem
        else scan_three ?l (pl_total_qty lv) ?r rem)"
      using lv(1-3) False by (subst scan_tree.simps, cases "s = 0") (auto simp: scan_three_def)
    moreover have "scanned rem (tree_qty pool r + unat (pl_total_qty lv) + tree_qty pool l) (scan_three ?r (pl_total_qty lv) ?l rem)"
      by (rule scan_three_ok) (use Node.IH lv in blast)+
    moreover have "scanned rem (tree_qty pool l + unat (pl_total_qty lv) + tree_qty pool r) (scan_three ?l (pl_total_qty lv) ?r rem)"
      by (rule scan_three_ok) (use Node.IH lv in blast)+
    ultimately show ?thesis by (auto simp: qx add.commute add.left_commute)
  qed
qed

section \<open>The scan on a book\<close>

text \<open>All the quantity resting on a side, whatever its price.\<close>

definition side_qty :: "bool \<Rightarrow> abs_book \<Rightarrow> nat" where
  "side_qty s B = (\<Sum>p \<in> {p. B s p \<noteq> []}. unat (queue_qty (B s p)))"

lemma level_total:
  assumes inv: "book_inv b T Q" and l: "lvls b j = Some l"
  shows "pl_total_qty l = queue_qty (abs_of b T Q (pl_side l = 0) (pl_price l))"
proof -
  have c: "trees_ok b T" "queues_ok b Q" "totals_ok b Q" using inv by (auto simp: book_inv_def book_core_def)
  have live: "\<exists>r. ords b x = Some r" if "x \<in> set (Q j)" for x using queue_at(2) [OF c(2) l] that by auto
  have "map (remaining (ords b)) (Q j) = map rs_qty (map (resting_of (ords b)) (Q j))"
    using live by (fastforce simp: resting_of_def)
  moreover have "pl_total_qty l = sum_list (map (remaining (ords b)) (Q j))" using c(3) l by (simp add: totals_ok_def)
  ultimately show ?thesis by (simp only: queue_qty_def abs_of_level [OF c(1) l])
qed

lemma tree_side_qty:
  assumes inv: "book_inv b T Q"
  shows "tree_qty (ob_levels b) (T s) = side_qty s (abs_of b T Q)"
proof -
  have c: "trees_ok b T" using inv by (auto simp: book_inv_def book_core_def)
  note rep = trees_okD(1) [OF c, of s]
  note sorted = side_rep_sorted [OF rep]
  have d: "distinct (inorder (T s))" using sorted_by_distinct [OF sorted] .
  have inj: "inj_on (price_of (ob_levels b)) (set_tree (T s))"
    using sorted_by_inj [OF sorted] by (auto simp: inj_on_def)
  have q: "level_qty (ob_levels b) j = unat (queue_qty (abs_of b T Q s (price_of (ob_levels b) j)))"
    if j: "j \<in> set_tree (T s)" for j
  proof -
    obtain l where l: "lvls b j = Some l" using trees_okD(4) [OF c, of s] j by auto
    have "pl_side l = 0 \<longleftrightarrow> s" by (rule side_level_tag [OF c j l])
    then show ?thesis using level_total [OF inv l] l by (simp add: level_qty_def)
  qed
  have im: "price_of (ob_levels b) ` set_tree (T s) = {p. abs_of b T Q s p \<noteq> []}"
    using level_iff_queue [OF inv, of _ s] by blast
  have "tree_qty (ob_levels b) (T s) = (\<Sum>j \<in> set_tree (T s). level_qty (ob_levels b) j)"
    using d by (simp add: tree_qty_def sum_list_distinct_conv_sum_set)
  also have "\<dots> = (\<Sum>j \<in> set_tree (T s). unat (queue_qty (abs_of b T Q s (price_of (ob_levels b) j))))"
    by (rule sum.cong) (simp_all add: q)
  also have "\<dots> = side_qty s (abs_of b T Q)"
    unfolding side_qty_def im [symmetric] by (rule sum.reindex [OF inj, symmetric, unfolded comp_def])
  finally show ?thesis .
qed

lemma has_liquidity_ok:
  assumes rep: "book_rep b B"
  shows "has_liquidity b k qty = Some ((\<exists>p. B (k \<noteq> 0) p \<noteq> []) \<and> unat qty \<le> side_qty (k \<noteq> 0) B)"
proof -
  let ?s = "k \<noteq> 0"
  obtain T Q where inv: "book_inv b T Q" and B: "B = abs_of b T Q" using rep by (auto simp: book_rep_def)
  have c: "trees_ok b T" using inv by (auto simp: book_inv_def book_core_def)
  note srep = trees_okD(1) [OF c, of ?s]
  have t: "tree_at (lvls b) kInvalidPoolIndex (avl_root (sides b ?s)) (T ?s)" by (rule side_rep_tree [OF srep])
  have e: "(\<exists>p. B ?s p \<noteq> []) \<longleftrightarrow> set_tree (T ?s) \<noteq> {}"
    using level_iff_queue [OF inv, of _ ?s] unfolding B by blast
  have r: "avl_root (sides b ?s) = kInvalidPoolIndex \<longleftrightarrow> set_tree (T ?s) = {}" using t by (cases "T ?s") auto
  obtain found rem where f: "scan_tree (avl_root (sides b ?s)) (bs_side (sides b ?s)) (ob_levels b) qty = Some (found, rem)"
    "unat found = min (side_qty ?s B) (unat qty)"
    using scan_tree_ok [OF t, of qty "bs_side (sides b ?s)"] tree_side_qty [OF inv, of ?s]
    unfolding scanned_def B by auto
  have "qty \<le> found \<longleftrightarrow> unat qty \<le> side_qty ?s B" using f(2) by (simp add: word_le_nat_alt)
  then show ?thesis
    using e r f(1) by (simp add: has_liquidity_def opposite_sides Let_def)
qed

text \<open>C30: The pre-scan of fill-or-kill orders. It succeeds exactly when the opposite side is not
  empty and all its resting quantity together, at any price, reaches the quantity asked for; the
  limit of the order plays no part in it.\<close>

theorem has_liquidity_correct:
  assumes "book_rep b B"
  shows "has_liquidity b incoming_side qty =
    Some ((\<exists>p. B (incoming_side \<noteq> 0) p \<noteq> []) \<and> unat qty \<le> side_qty (incoming_side \<noteq> 0) B)"
  by (rule has_liquidity_ok [OF assms])

theorem has_liquidity_correct_witness:
  "\<exists>b. book_rep b demo_abs \<and> has_liquidity b 1 5 = Some True \<and> has_liquidity b 1 6 = Some False"
proof -
  obtain b where b: "book_rep b demo_abs" using demo_book by blast
  have "{p. demo_abs True p \<noteq> []} = {100}" by (auto simp: demo_abs_def a_add_apply empty_book_def)
  moreover have "queue_qty (demo_abs True 100) = 5" by (simp add: demo_abs_def a_add_apply empty_book_def queue_qty_def)
  ultimately have "side_qty True demo_abs = 5" by (simp add: side_qty_def)
  moreover have "demo_abs True 100 \<noteq> []" by (simp add: demo_abs_def a_add_apply)
  then have "\<exists>p. demo_abs True p \<noteq> []" by blast
  ultimately show ?thesis using has_liquidity_correct [OF b, of 1 5] has_liquidity_correct [OF b, of 1 6] b by auto
qed

end
