(* ===== verification/TC_Match_Engine.thy ===== *)
theory TC_Match_Engine
  imports TC_Liquidity
begin

text \<open>
  The matching engine as a whole: \<open>match\<close> of an order action against the reference that fills it
  from the line of the opposite side, and what follows for every match: conservation of quantity,
  price-time priority, no trade beyond the limit, and a book that stays uncrossed.
\<close>

section \<open>Trades and fills\<close>

lemma length_make_trades [simp]: "length (make_trades clock n k g fs) = length fs"
  by (induction fs arbitrary: n k) auto

lemma make_trades_quantity [simp]: "map tr_quantity (make_trades clock n k g fs) = map (\<lambda>(p, i, f). f) fs"
  by (induction fs arbitrary: n k) auto

lemma fills_total: "sum_list (map (\<lambda>(p, i, f). f) (fills q xs)) + unfilled q xs = q"
  by (induction q xs rule: fills.induct) (auto simp: algebra_simps)

lemma rep_has_bbo:
  assumes "book_rep b B" "B s p \<noteq> []"
  shows "has_bbo (sides b s)"
proof -
  obtain p' where best: "best_price_in s B p'" using best_price_ex [OF assms(1)] assms(2) by blast
  then obtain x xs where "B s p' = x # xs" by (cases "B s p'") (auto simp: best_price_in_def)
  from best_head [OF assms(1) best this] show ?thesis by (elim exE conjE)
qed

section \<open>The reference\<close>

text \<open>What the engine should do with an accepted action: the fills, the quantity left, the book
  after the fills, the update that rests the remainder, and the status.\<close>

definition ref_fills :: "order_action \<Rightarrow> abs_book \<Rightarrow> (u32 \<times> u64 \<times> u32) list" where
  "ref_fills a B = fills (act_qty a) (cross_line (act_type a = Market) a B)"

definition ref_left :: "order_action \<Rightarrow> abs_book \<Rightarrow> u32" where
  "ref_left a B = unfilled (act_qty a) (cross_line (act_type a = Market) a B)"

definition rests :: "order_action \<Rightarrow> abs_book \<Rightarrow> bool" where
  "rests a B \<longleftrightarrow> ref_left a B \<noteq> 0 \<and> act_type a = Limit"

definition ref_rest :: "(nat \<Rightarrow> u64) \<Rightarrow> matching_engine \<Rightarrow> order_action \<Rightarrow> abs_book \<Rightarrow> book_update" where
  "ref_rest clock e a B = book_update_init\<lparr>upd_type := AddOrder, upd_side := act_side a, upd_price := act_price a,
     upd_qty := ref_left a B, upd_order_id := act_order_id a,
     upd_timestamp_ns := clock (me_clock_reads e + length (ref_fills a B))\<rparr>"

definition ref_book :: "(nat \<Rightarrow> u64) \<Rightarrow> matching_engine \<Rightarrow> order_action \<Rightarrow> abs_book \<Rightarrow> abs_book" where
  "ref_book clock e a B = (if rests a B
     then a_add (act_side a = 0) (act_price a) (resting_update (ref_rest clock e a B)) (apply_fills (ref_fills a B) B)
     else apply_fills (ref_fills a B) B)"

definition ref_status :: "order_action \<Rightarrow> abs_book \<Rightarrow> execution_status" where
  "ref_status a B = (if ref_fills a B = [] then if act_type a = IOC \<or> act_type a = FOK then RejectedInvalid else Accepted
     else if ref_left a B = 0 then Filled_all else PartiallyFilled)"

definition prescan_fails :: "order_action \<Rightarrow> abs_book \<Rightarrow> bool" where
  "prescan_fails a B \<longleftrightarrow> act_type a = FOK \<and>
     \<not> ((\<exists>p. B (act_side a \<noteq> 0) p \<noteq> []) \<and> unat (act_qty a) \<le> side_qty (act_side a \<noteq> 0) B)"

text \<open>When the engine does not fail an assertion.\<close>

definition match_fits :: "(nat \<Rightarrow> u64) \<Rightarrow> matching_engine \<Rightarrow> order_action \<Rightarrow> abs_book \<Rightarrow> bool" where
  "match_fits clock e a B \<longleftrightarrow> length (ref_fills a B) \<le> kMaxTradesPerMatch \<and>
     (rests a B \<longrightarrow> add_accepted (limits_of (me_book e)) (ref_rest clock e a B) (apply_fills (ref_fills a B) B))"

definition matches_as :: "(nat \<Rightarrow> u64) \<Rightarrow> order_action \<Rightarrow> matching_engine \<Rightarrow> abs_book \<Rightarrow>
    (execution_result \<times> matching_engine) option \<Rightarrow> bool" where
  "matches_as clock a e B res = (if match_fits clock e a B
     then \<exists>R e'. res = Some (R, e') \<and>
       trades_in R = make_trades clock (me_clock_reads e) (me_next_trade_id e) (act_order_id a) (ref_fills a B) \<and>
       res_status R = ref_status a B \<and> book_rep (me_book e') (ref_book clock e a B) \<and>
       limits_of (me_book e') = limits_of (me_book e) \<and>
       me_next_trade_id e' = me_next_trade_id e + word_of_nat (length (ref_fills a B))
     else res = None)"

text \<open>The part of \<open>match\<close> after the checks.\<close>

definition match_rest_of :: "(nat \<Rightarrow> u64) \<Rightarrow> order_action \<Rightarrow> matching_engine \<Rightarrow> (execution_result \<times> matching_engine) option" where
  "match_rest_of clock action e = do {
     (incoming, result, e) \<leftarrow> match_core clock (act_type action = Market) (action, execution_result_init, e);
     e \<leftarrow> (if act_qty incoming > 0 \<and> act_type incoming = Limit then do {
         let (ts, e) = get_timestamp clock e;
         b \<leftarrow> add_order (rest_update incoming ts) (me_book e);
         Some (e\<lparr>me_book := b\<rparr>)
       } else Some e);
     let result = result\<lparr>res_status := final_status incoming result\<rparr>;
     _ \<leftarrow> verify_execution result (act_qty action) incoming (me_book e);
     Some (result, e)
   }"

text \<open>What the loops leave behind, in terms of the reference.\<close>

definition matched_to :: "(nat \<Rightarrow> u64) \<Rightarrow> order_action \<Rightarrow> matching_engine \<Rightarrow> abs_book \<Rightarrow> order_action \<times> execution_result \<times> matching_engine \<Rightarrow> bool" where
  "matched_to clock a e B = (\<lambda>(a1, R1, e1). a1 = a\<lparr>act_qty := ref_left a B\<rparr> \<and> result_ok R1 \<and>
     trades_in R1 = make_trades clock (me_clock_reads e) (me_next_trade_id e) (act_order_id a) (ref_fills a B) \<and>
     book_rep (me_book e1) (apply_fills (ref_fills a B) B) \<and> limits_of (me_book e1) = limits_of (me_book e) \<and>
     me_next_trade_id e1 = me_next_trade_id e + word_of_nat (length (ref_fills a B)) \<and>
     me_clock_reads e1 = me_clock_reads e + length (ref_fills a B))"

lemma matched_status:
  assumes m: "matched_to clock a e B (a1, R1, e1)"
  shows "final_status a1 R1 = ref_status a B"
    and "sum_list (map tr_quantity (vec_list (res_trades R1))) + ref_left a B = act_qty a"
proof -
  have o: "a1 = a\<lparr>act_qty := ref_left a B\<rparr>" "result_ok R1"
    "trades_in R1 = make_trades clock (me_clock_reads e) (me_next_trade_id e) (act_order_id a) (ref_fills a B)"
    using m by (simp_all add: matched_to_def)
  have "sv_empty (res_trades R1) \<longleftrightarrow> length (trades_in R1) = 0" using o(2) by (simp add: result_ok_def trades_in_def)
  then have "sv_empty (res_trades R1) \<longleftrightarrow> ref_fills a B = []" by (simp add: o(3))
  then show "final_status a1 R1 = ref_status a B" by (simp add: final_status_def ref_status_def o(1))
  show "sum_list (map tr_quantity (vec_list (res_trades R1))) + ref_left a B = act_qty a"
    using o(3) fills_total by (simp add: trades_in_def ref_fills_def ref_left_def)
qed

lemma match_core_ok:
  assumes rep: "book_rep (me_book e) B"
  obtains (full) "\<not> length (ref_fills a B) \<le> kMaxTradesPerMatch"
      "match_core clock (act_type a = Market) (a, execution_result_init, e) = None"
  | (fits) st where "length (ref_fills a B) \<le> kMaxTradesPerMatch"
      "match_core clock (act_type a = Market) (a, execution_result_init, e) = Some st" "matched_to clock a e B st"
proof -
  let ?m = "act_type a = Market" and ?st0 = "(a, execution_result_init, e)"
  have r0: "result_ok execution_result_init" "room execution_result_init = kMaxTradesPerMatch" "trades_in execution_result_init = []"
    by (simp_all add: execution_result_init_def result_ok_def room_def trades_in_def)
  have ml: "matched clock ?m B ?st0 (match_core clock ?m ?st0)"
    using match_loops [of ?st0 B clock ?m] rep r0(1) by simp
  show ?thesis
  proof (cases "length (ref_fills a B) \<le> kMaxTradesPerMatch")
    case False
    then show ?thesis using full ml r0(2) by (simp add: matched_def ref_fills_def)
  next
    case True
    then obtain a1 R1 e1 where st: "match_core clock ?m ?st0 = Some (a1, R1, e1)" "after clock ?m B ?st0 (a1, R1, e1)"
      using ml r0(2) by (auto simp: matched_def ref_fills_def)
    then have "matched_to clock a e B (a1, R1, e1)"
      using r0(3) by (simp add: matched_to_def after_def ref_fills_def ref_left_def Let_def)
    then show ?thesis by (rule fits [OF True st(1)])
  qed
qed

text \<open>The end of \<open>match_order\<close> when nothing of the order rests, and when its remainder does.\<close>

lemma match_without_rest:
  assumes st: "match_core clock (act_type a = Market) (a, execution_result_init, e) = Some (a1, R1, e1)"
    and m: "matched_to clock a e B (a1, R1, e1)" and n: "\<not> rests a B"
  shows "match_rest_of clock a e = Some (R1\<lparr>res_status := ref_status a B\<rparr>, e1)"
proof -
  have a1: "a1 = a\<lparr>act_qty := ref_left a B\<rparr>" using m by (simp add: matched_to_def)
  note status = matched_status [OF m]
  have "verify_execution (R1\<lparr>res_status := ref_status a B\<rparr>) (act_qty a) a1 (me_book e1) = Some ()"
    using status(2) n by (auto simp: verify_execution_def a1 rests_def word_gt_0)
  then show ?thesis
    using n st status(1) by (auto simp: match_rest_of_def a1 rests_def word_gt_0 Let_def)
qed

lemma match_with_rest:
  assumes st: "match_core clock (act_type a = Market) (a, execution_result_init, e) = Some (a1, R1, e1)"
    and m: "matched_to clock a e B (a1, R1, e1)" and n: "rests a B"
  shows "match_rest_of clock a e = (if add_accepted (limits_of (me_book e)) (ref_rest clock e a B) (apply_fills (ref_fills a B) B)
      then map_option (\<lambda>b. (R1\<lparr>res_status := ref_status a B\<rparr>, e1\<lparr>me_clock_reads := me_clock_reads e1 + 1, me_book := b\<rparr>))
        (add_order (ref_rest clock e a B) (me_book e1)) else None)"
    and "add_accepted (limits_of (me_book e)) (ref_rest clock e a B) (apply_fills (ref_fills a B) B) \<Longrightarrow>
      \<exists>b. add_order (ref_rest clock e a B) (me_book e1) = Some b \<and> limits_of b = limits_of (me_book e) \<and>
        book_rep b (ref_book clock e a B)"
proof -
  let ?u = "ref_rest clock e a B" and ?B1 = "apply_fills (ref_fills a B) B"
  have o: "a1 = a\<lparr>act_qty := ref_left a B\<rparr>" "book_rep (me_book e1) ?B1" "limits_of (me_book e1) = limits_of (me_book e)"
    "me_clock_reads e1 = me_clock_reads e + length (ref_fills a B)"
    using m by (simp_all add: matched_to_def)
  note status = matched_status [OF m]
  have q: "ref_left a B \<noteq> 0" "act_type a = Limit" using n by (simp_all add: rests_def)
  have f: "upd_side ?u = act_side a" "upd_price ?u = act_price a" by (simp_all add: ref_rest_def)
  have run: "match_rest_of clock a e = do {
      b \<leftarrow> add_order ?u (me_book e1);
      _ \<leftarrow> verify_execution (R1\<lparr>res_status := ref_status a B\<rparr>) (act_qty a) a1 b;
      Some (R1\<lparr>res_status := ref_status a B\<rparr>, e1\<lparr>me_clock_reads := me_clock_reads e1 + 1, me_book := b\<rparr>) }"
    using st status(1) q by (simp add: match_rest_of_def o(1,4) get_timestamp_def ref_rest_def rest_update_def word_gt_0 Let_def)
  show added: "\<exists>b. add_order ?u (me_book e1) = Some b \<and> limits_of b = limits_of (me_book e) \<and>
      book_rep b (ref_book clock e a B)" if "add_accepted (limits_of (me_book e)) ?u ?B1"
    using add_order_refines [OF o(2), of ?u] that o(3) n f by (auto simp: ref_book_def)
  have refused: "add_order ?u (me_book e1) = None" if "\<not> add_accepted (limits_of (me_book e)) ?u ?B1"
    using add_order_refines [OF o(2), of ?u] that o(3) by simp
  have "verify_execution (R1\<lparr>res_status := ref_status a B\<rparr>) (act_qty a) a1 b = Some ()"
    if "book_rep b (ref_book clock e a B)" for b
  proof -
    have "ref_book clock e a B (act_side a = 0) (act_price a) \<noteq> []" using n by (simp add: ref_book_def a_add_apply)
    then have "has_bbo (sides b (act_side a = 0))" by (rule rep_has_bbo [OF that])
    then have "has_bbo (ob_bids b) \<or> has_bbo (ob_asks b)" by (auto simp: sides_def split: if_splits)
    then show ?thesis using status(2) by (simp add: verify_execution_def o(1))
  qed
  then show "match_rest_of clock a e = (if add_accepted (limits_of (me_book e)) ?u ?B1
      then map_option (\<lambda>b. (R1\<lparr>res_status := ref_status a B\<rparr>, e1\<lparr>me_clock_reads := me_clock_reads e1 + 1, me_book := b\<rparr>))
        (add_order ?u (me_book e1)) else None)"
    unfolding run using added refused by fastforce
qed

lemma match_rest_ok:
  assumes rep: "book_rep (me_book e) B"
  shows "matches_as clock a e B (match_rest_of clock a e)"
  using rep
proof (cases rule: match_core_ok [where clock = clock and a = a])
  case full
  then show ?thesis by (simp add: match_rest_of_def matches_as_def match_fits_def)
next
  case (fits st)
  obtain a1 R1 e1 where s1: "st = (a1, R1, e1)" by (metis prod_cases3)
  note st = fits(2,3) [unfolded s1]
  have o: "result_ok R1"
    "trades_in R1 = make_trades clock (me_clock_reads e) (me_next_trade_id e) (act_order_id a) (ref_fills a B)"
    "book_rep (me_book e1) (apply_fills (ref_fills a B) B)" "limits_of (me_book e1) = limits_of (me_book e)"
    "me_next_trade_id e1 = me_next_trade_id e + word_of_nat (length (ref_fills a B))"
    "me_clock_reads e1 = me_clock_reads e + length (ref_fills a B)"
    using st(2) by (simp_all add: matched_to_def)
  show ?thesis
  proof (cases "rests a B")
    case False
    then show ?thesis using match_without_rest [OF st False] fits(1) o
      by (simp add: matches_as_def match_fits_def ref_book_def trades_in_def)
  next
    case True
    show ?thesis
      using match_with_rest [OF st True] True fits(1) o
      by (cases "add_accepted (limits_of (me_book e)) (ref_rest clock e a B) (apply_fills (ref_fills a B) B)")
        (auto simp: matches_as_def match_fits_def trades_in_def)
  qed
qed

lemma match_order_eq:
  assumes rep: "book_rep (me_book e) B"
  shows "match_order clock rules a e =
    (if \<not> risk_ok (risk_evaluate rules a) then Some (execution_result_init\<lparr>res_status := RejectedRisk\<rparr>, e)
     else if prescan_fails a B then Some (execution_result_init\<lparr>res_status := RejectedInvalid\<rparr>, e)
     else match_rest_of clock a e)"
proof (cases "act_type a = FOK")
  case True
  then show ?thesis using has_liquidity_ok [OF rep, of "act_side a" "act_qty a"]
    by (simp add: match_order_def match_rest_of_def prescan_fails_def Let_def)
next
  case False
  then show ?thesis by (simp add: match_order_def match_rest_of_def prescan_fails_def Let_def)
qed

section \<open>Risk checks\<close>

lemma evaluate_rules_eq:
  "evaluate_rules rules a r = (case find (\<lambda>rule. \<not> risk_ok (rule a)) rules of
     None \<Rightarrow> (True, if rules = [] then r else last rules a) | Some rule \<Rightarrow> (False, rule a))"
  by (induction rules arbitrary: r) (auto simp: Let_def split: option.split)

text \<open>The risk pipeline gives the verdict of the first rule that fails, and passes when there is
  none.\<close>

theorem risk_first_failure:
  "risk_evaluate rules a = (case find (\<lambda>rule. \<not> risk_ok (rule a)) rules of
     None \<Rightarrow> \<lparr>risk_ok = True, risk_reason = []\<rparr> | Some rule \<Rightarrow> rule a)"
  by (simp add: risk_evaluate_def evaluate_rules_eq split: option.split)

section \<open>The engine implements the reference\<close>

text \<open>C3: Matching. An action that a risk rule refuses, and a fill-or-kill order that fails its
  pre-scan, come back rejected and change nothing. Every other action is filled as the reference
  says: the trades are the fills of the line of crossing orders in price-time priority, with
  consecutive trade ids and the aggressor's id; the status follows from the fills and the quantity
  left; a limit order rests what is left at the end of its queue, any other order drops it. An
  assertion fails exactly when there are more than 1000 fills or the book cannot accept the
  resting remainder.\<close>

theorem match_order_correct:
  assumes "book_rep (me_book e) B"
  shows "if \<not> risk_ok (risk_evaluate rules a)
    then match_order clock rules a e = Some (execution_result_init\<lparr>res_status := RejectedRisk\<rparr>, e)
    else if prescan_fails a B
    then match_order clock rules a e = Some (execution_result_init\<lparr>res_status := RejectedInvalid\<rparr>, e)
    else if match_fits clock e a B
    then \<exists>R e'. match_order clock rules a e = Some (R, e') \<and>
      trades_in R = make_trades clock (me_clock_reads e) (me_next_trade_id e) (act_order_id a) (ref_fills a B) \<and>
      res_status R = ref_status a B \<and> book_rep (me_book e') (ref_book clock e a B) \<and>
      limits_of (me_book e') = limits_of (me_book e)
    else match_order clock rules a e = None"
proof -
  consider "\<not> risk_ok (risk_evaluate rules a)" | "risk_ok (risk_evaluate rules a)" "prescan_fails a B"
    | "risk_ok (risk_evaluate rules a)" "\<not> prescan_fails a B" by blast
  then show ?thesis
  proof cases
    case 3
    then have "match_order clock rules a e = match_rest_of clock a e" using match_order_eq [OF assms] by simp
    then show ?thesis using match_rest_ok [OF assms, of clock a] 3 by (auto simp: matches_as_def)
  qed (simp_all add: match_order_eq [OF assms])
qed

definition demo_engine :: "order_book \<Rightarrow> matching_engine" where
  "demo_engine b = \<lparr>me_book = b, me_next_trade_id = 1, me_clock_reads = 0\<rparr>"

definition demo_action :: "u64 \<Rightarrow> u8 \<Rightarrow> order_type \<Rightarrow> u32 \<Rightarrow> u32 \<Rightarrow> order_action" where
  "demo_action k s t p q = \<lparr>act_order_id = k, act_client_id = 0, act_price = p, act_qty = q, act_side = s, act_type = t\<rparr>"

text \<open>A sell against the bid of \<open>demo_abs\<close>.\<close>

lemma demo_line: "cross_line False (demo_action 8 1 Limit 90 3) demo_abs = [(100, \<lparr>rs_id = 7, rs_qty = 5, rs_time = 0\<rparr>)]"
proof -
  let ?c = "within_limit False (demo_action 8 1 Limit 90 3)"
  have l: "limit_like True ?c" using within_limit_like [of "demo_action 8 1 Limit 90 3" False] by (simp add: demo_action_def)
  have b: "best_price_in True demo_abs 100" by (auto simp: best_price_in_def demo_abs_def a_add_apply empty_book_def)
  have "demo_abs(True := (demo_abs True)(100 := [])) = empty_book"
    by (auto simp: fun_eq_iff demo_abs_def a_add_apply empty_book_def)
  moreover have "line True ?c empty_book = []" by (rule line_none) (simp add: empty_book_def)
  moreover have "?c 100" by (simp add: within_limit_def demo_action_def)
  ultimately show ?thesis using line_best [OF l b]
    by (simp add: cross_line_def demo_action_def) (simp add: demo_abs_def a_add_apply empty_book_def)
qed

lemma demo_fills: "ref_fills (demo_action 8 1 Limit 90 3) demo_abs = [(100, 7, 3)]"
  "ref_left (demo_action 8 1 Limit 90 3) demo_abs = 0"
proof -
  have "(demo_action 8 1 Limit 90 3)\<lparr>act_qty := 3\<rparr> = demo_action 8 1 Limit 90 3" "act_qty (demo_action 8 1 Limit 90 3) = 3"
    "act_type (demo_action 8 1 Limit 90 3) = Limit" by (simp_all add: demo_action_def)
  then show "ref_fills (demo_action 8 1 Limit 90 3) demo_abs = [(100, 7, 3)]"
    "ref_left (demo_action 8 1 Limit 90 3) demo_abs = 0"
    by (simp_all add: ref_fills_def ref_left_def demo_line min_def)
qed

lemma demo_fits: "match_fits clock e (demo_action 8 1 Limit 90 3) demo_abs" "\<not> prescan_fails (demo_action 8 1 Limit 90 3) demo_abs"
  by (simp_all add: match_fits_def demo_fills rests_def kMaxTradesPerMatch_def prescan_fails_def) (simp add: demo_action_def)

theorem match_order_correct_witness:
  "\<exists>e R e'. book_rep (me_book e) demo_abs \<and> match_order (\<lambda>n. 0) [] (demo_action 8 1 Limit 90 3) e = Some (R, e') \<and>
    res_status R = Filled_all \<and> length (trades_in R) = 1"
proof -
  obtain b where b: "book_rep b demo_abs" using demo_book by blast
  let ?e = "demo_engine b"
  have rep: "book_rep (me_book ?e) demo_abs" using b by (simp add: demo_engine_def)
  have ok: "\<not> \<not> risk_ok (risk_evaluate [] (demo_action 8 1 Limit 90 3))" by (simp add: risk_evaluate_def)
  have st: "ref_status (demo_action 8 1 Limit 90 3) demo_abs = Filled_all" by (simp add: ref_status_def demo_fills)
  from match_order_correct [OF rep, of "[]" "demo_action 8 1 Limit 90 3" "\<lambda>n. 0",
      unfolded if_not_P [OF ok] if_not_P [OF demo_fits(2)] if_P [OF demo_fits(1)]]
  obtain R e' where "match_order (\<lambda>n. 0) [] (demo_action 8 1 Limit 90 3) ?e = Some (R, e')"
    "trades_in R = make_trades (\<lambda>n. 0) (me_clock_reads ?e) (me_next_trade_id ?e) (act_order_id (demo_action 8 1 Limit 90 3))
      (ref_fills (demo_action 8 1 Limit 90 3) demo_abs)"
    "res_status R = ref_status (demo_action 8 1 Limit 90 3) demo_abs" by (elim exE conjE) (rule that)
  then show ?thesis using rep st by (intro exI [of _ ?e] exI [of _ R] exI [of _ e']) (simp add: demo_fills)
qed

end
