(* ===== verification/TC_Match_Safety.thy ===== *)
theory TC_Match_Safety
  imports TC_Match_Engine
begin

text \<open>
  What every run of the matching engine guarantees: trades in price-time priority within the
  limit of the aggressor, quantity conserved, and books that never stay crossed. The last section
  shows what the fill-or-kill pre-scan does not guarantee.
\<close>

section \<open>The trades of a match\<close>

text \<open>Prices of a line run from best to worse.\<close>

definition no_better :: "bool \<Rightarrow> u32 \<Rightarrow> u32 \<Rightarrow> bool" where
  "no_better s p p' \<longleftrightarrow> (if s then p' \<le> p else p \<le> p')"

lemma sorted_price_order: "sorted_wrt (no_better s) (price_order s S)"
proof (cases s)
  case True
  have "sorted_wrt (\<lambda>x y. y \<le> x) (rev (sorted_list_of_set S))"
    by (simp add: sorted_wrt_rev)
  moreover have "no_better True = (\<lambda>x y. y \<le> x)" by (simp add: fun_eq_iff no_better_def)
  ultimately show ?thesis using True by (simp add: price_order_def)
next
  case False
  moreover have "no_better False = (\<lambda>x y. x \<le> y)" by (simp add: fun_eq_iff no_better_def)
  ultimately show ?thesis by (simp add: price_order_def)
qed

lemma sorted_concat_pairs:
  assumes "sorted_wrt r ps" "\<And>p. r p p"
  shows "sorted_wrt (\<lambda>x y. r (fst x) (fst y)) (concat (map (\<lambda>p. map (Pair p) (f p)) ps))"
  using assms(1)
proof (induction ps)
  case (Cons p ps)
  have "sorted_wrt (\<lambda>x y. r (fst x) (fst y)) (map (Pair p) ys)" for ys :: "'b list"
    using assms(2) by (induction ys) auto
  then show ?case using Cons by (auto simp: sorted_wrt_append)
qed simp

lemma line_sorted: "sorted_wrt (\<lambda>x y. no_better s (fst x) (fst y)) (line s c B)"
  unfolding line_def line_prices_def
  by (rule sorted_concat_pairs [OF sorted_price_order]) (simp add: no_better_def)

lemma line_crosses: "x \<in> set (line s c B) \<Longrightarrow> c (fst x) \<and> snd x \<in> set (B s (fst x))"
  by (auto simp: line_def line_prices_def)

lemma fills_prefix: "\<exists>k. map fst (fills q xs) = take k (map fst xs)"
proof (induction q xs rule: fills.induct)
  case (2 q p r xs)
  show ?case
  proof (cases "q = 0")
    case False
    with 2 obtain k where "map fst (fills (q - min q (rs_qty r)) xs) = take k (map fst xs)" by blast
    then have "map fst (fills q ((p, r) # xs)) = take (Suc k) (map fst ((p, r) # xs))" using False by simp
    then show ?thesis by blast
  qed (auto intro: exI [of _ 0])
qed simp

lemma fills_sorted:
  assumes "sorted_wrt (\<lambda>x y. r (fst x) (fst y)) xs"
  shows "sorted_wrt (\<lambda>x y. r (fst x) (fst y)) (fills q xs)"
proof -
  obtain k where k: "map fst (fills q xs) = take k (map fst xs)" using fills_prefix by blast
  have "sorted_wrt r (map fst xs)" using assms by (simp add: sorted_wrt_map)
  then have "sorted_wrt r (map fst (fills q xs))" unfolding k by (rule sorted_wrt_take)
  then show ?thesis by (simp add: sorted_wrt_map)
qed

lemma fills_mem:
  assumes "(p, i, f) \<in> set (fills q xs)" "\<forall>x \<in> set xs. 0 < rs_qty (snd x)"
  shows "\<exists>r. (p, r) \<in> set xs \<and> rs_id r = i \<and> 0 < f \<and> f \<le> rs_qty r"
  using assms
proof (induction q xs rule: fills.induct)
  case (2 q p' r xs)
  show ?case
  proof (cases "(p, i, f) = (p', rs_id r, min q (rs_qty r))")
    case True
    moreover have "q \<noteq> 0" using 2(2) by auto
    then have "0 < min q (rs_qty r)" using 2(3) by (simp add: word_gt_0 min_def)
    ultimately show ?thesis by auto
  next
    case False
    then have "(p, i, f) \<in> set (fills (q - min q (rs_qty r)) xs)" "q \<noteq> 0" using 2(2) by (auto split: if_splits)
    then obtain r where "(p, r) \<in> set xs" "rs_id r = i" "0 < f" "f \<le> rs_qty r" using 2(1,3) by auto
    then show ?thesis by auto
  qed
qed simp

lemma make_trades_view: "map (\<lambda>t. (tr_price t, tr_resting_order_id t, tr_quantity t)) (make_trades clock n k g fs) = fs"
  by (induction fs arbitrary: n k) auto

lemma make_trades_aggressor: "t \<in> set (make_trades clock n k g fs) \<Longrightarrow> tr_aggressor_order_id t = g"
  by (induction fs arbitrary: n k) auto

lemma match_trades:
  assumes "book_rep (me_book e) B" "match_order clock rules a e = Some (R, e')"
  shows "trades_in R = [] \<or>
    trades_in R = make_trades clock (me_clock_reads e) (me_next_trade_id e) (act_order_id a) (ref_fills a B)"
proof -
  have "trades_in (execution_result_init\<lparr>res_status := x\<rparr>) = []" for x
    by (simp add: trades_in_def execution_result_init_def)
  then show ?thesis using assms(2) match_rest_ok [OF assms(1), of clock a]
    by (auto simp: match_order_eq [OF assms(1)] matches_as_def split: if_splits)
qed

text \<open>C4: The trades of a match. Whatever the engine returns, each trade is with an order that rests
  on the opposite side at the price of the trade, for a positive quantity that this order had,
  within the limit of the aggressor; prices go from best to worse; and the quantities traded, as
  unbounded numbers, do not exceed the quantity of the action.\<close>

theorem match_trades_safe:
  assumes "book_rep (me_book e) B" "match_order clock rules a e = Some (R, e')"
  shows "(\<forall>t \<in> set (trades_in R). tr_aggressor_order_id t = act_order_id a \<and>
      within_limit (act_type a = Market) a (tr_price t) \<and> 0 < tr_quantity t \<and>
      (\<exists>r \<in> set (B (act_side a \<noteq> 0) (tr_price t)). rs_id r = tr_resting_order_id t \<and> tr_quantity t \<le> rs_qty r)) \<and>
    sorted_wrt (\<lambda>t u. if act_side a \<noteq> 0 then tr_price u \<le> tr_price t else tr_price t \<le> tr_price u) (trades_in R) \<and>
    sum_list (map (\<lambda>t. unat (tr_quantity t)) (trades_in R)) \<le> unat (act_qty a)"
proof (cases "trades_in R = []")
  case False
  let ?ts = "make_trades clock (me_clock_reads e) (me_next_trade_id e) (act_order_id a) (ref_fills a B)"
  let ?view = "\<lambda>t. (tr_price t, tr_resting_order_id t, tr_quantity t)"
  have ts: "trades_in R = ?ts" using match_trades [OF assms] False by blast
  let ?xs = "cross_line (act_type a = Market) a B"
  have pos: "\<forall>x \<in> set ?xs. 0 < rs_qty (snd x)"
    using rep_positive [OF assms(1)] line_crosses unfolding cross_line_def all_positive_def by blast
  have "tr_aggressor_order_id t = act_order_id a \<and> within_limit (act_type a = Market) a (tr_price t) \<and> 0 < tr_quantity t \<and>
      (\<exists>r \<in> set (B (act_side a \<noteq> 0) (tr_price t)). rs_id r = tr_resting_order_id t \<and> tr_quantity t \<le> rs_qty r)"
    if t: "t \<in> set ?ts" for t
  proof -
    have "?view t \<in> set (map ?view ?ts)" using t by (simp only: set_map image_eqI)
    then have "?view t \<in> set (fills (act_qty a) ?xs)" unfolding make_trades_view ref_fills_def .
    from fills_mem [OF this pos] obtain r where r: "(tr_price t, r) \<in> set ?xs" "rs_id r = tr_resting_order_id t"
      "0 < tr_quantity t" "tr_quantity t \<le> rs_qty r" by blast
    from line_crosses [OF r(1) [unfolded cross_line_def]] r make_trades_aggressor [OF t] show ?thesis by auto
  qed
  moreover have "sorted_wrt (\<lambda>t u. if act_side a \<noteq> 0 then tr_price u \<le> tr_price t else tr_price t \<le> tr_price u) ?ts"
  proof -
    have "sorted_wrt (\<lambda>x y. no_better (act_side a \<noteq> 0) (fst x) (fst y)) (map ?view ?ts)"
      unfolding make_trades_view ref_fills_def cross_line_def by (rule fills_sorted [OF line_sorted])
    then show ?thesis unfolding sorted_wrt_map no_better_def fst_conv .
  qed
  moreover have "sum_list (map (\<lambda>t. unat (tr_quantity t)) ?ts) \<le> unat (act_qty a)"
  proof -
    have "map (\<lambda>t. unat (tr_quantity t)) ?ts = map unat (map tr_quantity ?ts)"
      by (simp add: comp_def del: make_trades_quantity)
    also have "\<dots> = map (\<lambda>(p, i, f). unat f) (ref_fills a B)" unfolding make_trades_quantity by (simp add: case_prod_unfold)
    finally show ?thesis using fills_sum [of "act_qty a" ?xs] by (simp add: ref_fills_def)
  qed
  ultimately show ?thesis unfolding ts by blast
qed simp

theorem match_trades_safe_witness:
  "\<exists>e R e'. match_order (\<lambda>n. 0) [] (demo_action 8 1 Limit 90 3) e = Some (R, e') \<and>
    sum_list (map (\<lambda>t. unat (tr_quantity t)) (trades_in R)) \<le> 3"
proof -
  obtain b where b: "book_rep (me_book (demo_engine b)) demo_abs" using demo_book by (auto simp: demo_engine_def)
  have ok: "risk_ok (risk_evaluate [] (demo_action 8 1 Limit 90 3))" by (simp add: risk_evaluate_def)
  have "match_order (\<lambda>n. 0) [] (demo_action 8 1 Limit 90 3) (demo_engine b) =
      match_rest_of (\<lambda>n. 0) (demo_action 8 1 Limit 90 3) (demo_engine b)"
    using match_order_eq [OF b] ok demo_fits(2) by simp
  then obtain R e' where r: "match_order (\<lambda>n. 0) [] (demo_action 8 1 Limit 90 3) (demo_engine b) = Some (R, e')"
    using match_rest_ok [OF b, of "\<lambda>n. 0" "demo_action 8 1 Limit 90 3"] demo_fits(1) by (auto simp: matches_as_def)
  have "unat (act_qty (demo_action 8 1 Limit 90 3)) = 3" by (simp add: demo_action_def)
  then have "sum_list (map (\<lambda>t. unat (tr_quantity t)) (trades_in R)) \<le> 3"
    using match_trades_safe [OF b r] by simp
  with r show ?thesis by blast
qed

section \<open>Crossed books\<close>

definition uncrossed :: "abs_book \<Rightarrow> bool" where
  "uncrossed B \<longleftrightarrow> (\<forall>p p'. B True p \<noteq> [] \<longrightarrow> B False p' \<noteq> [] \<longrightarrow> p < p')"

lemma reduce_shrinks: "a_reduce k q B s p \<noteq> [] \<Longrightarrow> B s p \<noteq> []"
  by (auto simp: a_reduce_def)

lemma apply_fills_shrinks: "apply_fills fs B s p \<noteq> [] \<Longrightarrow> B s p \<noteq> []"
proof (induction fs arbitrary: B)
  case (Cons x fs)
  obtain p' k q where x: "x = (p', k, q)" by (metis prod_cases3)
  have "apply_fills (x # fs) B = apply_fills fs (a_reduce k q B)" by (simp add: apply_fills_def x)
  then show ?case using Cons reduce_shrinks by metis
qed (simp add: apply_fills_def)

lemma line_Nil_prices: "line s c B = [] \<Longrightarrow> B s p \<noteq> [] \<Longrightarrow> \<not> c p"
proof
  assume *: "line s c B = []" "B s p \<noteq> []" "c p"
  then have "p \<in> set (line_prices s c B)" by (simp add: line_prices_def)
  then have "map (Pair p) (B s p) = []" using *(1) by (simp add: line_def)
  with *(2) show False by simp
qed

text \<open>Quantity is left only when nothing that crosses is left.\<close>

lemma ref_exhausted:
  fixes e :: matching_engine
  assumes rep: "book_rep (me_book e) B" and len: "length (ref_fills a B) \<le> kMaxTradesPerMatch" and q: "ref_left a B \<noteq> 0"
  shows "cross_line (act_type a = Market) a (apply_fills (ref_fills a B) B) = []"
proof -
  have r0: "result_ok execution_result_init" "room execution_result_init = kMaxTradesPerMatch"
    by (simp_all add: execution_result_init_def result_ok_def room_def trades_in_def)
  have "matched (\<lambda>n. 0) (act_type a = Market) B (a, execution_result_init, e)
      (match_core (\<lambda>n. 0) (act_type a = Market) (a, execution_result_init, e))"
    using match_loops [of "(a, execution_result_init, e)" B] rep r0(1) by simp
  then obtain st where "after (\<lambda>n. 0) (act_type a = Market) B (a, execution_result_init, e) st"
    using len r0(2) by (auto simp: matched_def ref_fills_def)
  then show ?thesis using q by (cases st) (auto simp: after_def ref_fills_def ref_left_def Let_def)
qed

lemma ref_book_uncrossed:
  fixes e :: matching_engine
  assumes rep: "book_rep (me_book e) B" and u: "uncrossed B" and fits: "match_fits clock e a B"
  shows "uncrossed (ref_book clock e a B)"
proof -
  let ?B1 = "apply_fills (ref_fills a B) B"
  have u1: "uncrossed ?B1" using u apply_fills_shrinks unfolding uncrossed_def by blast
  show ?thesis
  proof (cases "rests a B")
    case False
    then show ?thesis using u1 by (simp add: ref_book_def)
  next
    case True
    then have ex: "line (act_side a \<noteq> 0) (within_limit False a) ?B1 = []"
      using ref_exhausted [OF rep, of a] fits by (simp add: match_fits_def rests_def cross_line_def)
    have far: "\<not> within_limit False a p" if "?B1 (act_side a \<noteq> 0) p \<noteq> []" for p
      by (rule line_Nil_prices [OF ex that])
    have b: "ref_book clock e a B s p \<noteq> [] \<longleftrightarrow> ?B1 s p \<noteq> [] \<or> (s = (act_side a = 0) \<and> p = act_price a)" for s p
      using True by (auto simp: ref_book_def a_add_apply)
    show ?thesis
      unfolding uncrossed_def b
    proof (intro allI impI)
      fix p p'
      assume p: "?B1 True p \<noteq> [] \<or> True = (act_side a = 0) \<and> p = act_price a"
        "?B1 False p' \<noteq> [] \<or> False = (act_side a = 0) \<and> p' = act_price a"
      show "p < p'"
      proof (cases "act_side a = 0")
        case True
        then have o: "?B1 False p' \<noteq> []" using p(2) by simp
        then have "act_price a < p'" using far [of p'] True by (simp add: within_limit_def)
        then show ?thesis using p(1) o u1 unfolding uncrossed_def by blast
      next
        case False
        then have o: "?B1 True p \<noteq> []" using p(1) by simp
        then have "p < act_price a" using far [of p] False by (simp add: within_limit_def)
        then show ?thesis using p(2) o u1 unfolding uncrossed_def by blast
      qed
    qed
  qed
qed

text \<open>The engines that matching any sequence of actions can reach.\<close>

inductive engine_reachable :: "nat \<Rightarrow> nat \<Rightarrow> matching_engine \<Rightarrow> bool" for n :: nat and m :: nat where
  Start: "engine_new n m = Some e \<Longrightarrow> engine_reachable n m e"
| Match: "engine_reachable n m e \<Longrightarrow> match_order clock rules a e = Some (R, e') \<Longrightarrow> engine_reachable n m e'"

lemma uncrossed_empty: "uncrossed empty_book"
  by (simp add: uncrossed_def empty_book_def)

lemma match_invariant:
  assumes rep: "book_rep (me_book e) B" and run: "match_order clock rules a e = Some (R, e')"
  shows "\<exists>B'. book_rep (me_book e') B' \<and> (uncrossed B \<longrightarrow> uncrossed B') \<and> limits_of (me_book e') = limits_of (me_book e)"
proof -
  have "e' = e \<or> match_rest_of clock a e = Some (R, e')"
    using run match_order_eq [OF rep, of clock rules a] by (auto split: if_splits)
  then show ?thesis
  proof
    assume "match_rest_of clock a e = Some (R, e')"
    then have "match_fits clock e a B" "book_rep (me_book e') (ref_book clock e a B)" "limits_of (me_book e') = limits_of (me_book e)"
      using match_rest_ok [OF rep, of clock a] by (auto simp: matches_as_def split: if_splits)
    then show ?thesis using ref_book_uncrossed [OF rep] by blast
  qed (use rep in blast)
qed

text \<open>C5: The engine never leaves a crossed book. In every engine reached by matching, from a new one,
  any actions under any risk rules and clock, the book represents an abstract book whose bids are
  all below its asks, and its pools keep their sizes.\<close>

theorem engine_uncrossed:
  assumes "engine_reachable n m e" "sizes_ok n m"
  shows "\<exists>B. book_rep (me_book e) B \<and> uncrossed B \<and> lim_orders (limits_of (me_book e)) = n \<and>
    lim_levels (limits_of (me_book e)) = m"
  using assms(1)
proof induction
  case (Start e)
  then have "order_book_new n m = Some (me_book e)" by (auto simp: engine_new_def bind_Some_iff)
  with book_new [OF assms(2)] uncrossed_empty show ?case by auto
next
  case (Match e clock rules a R e')
  then obtain B where B: "book_rep (me_book e) B" "uncrossed B" "lim_orders (limits_of (me_book e)) = n"
    "lim_levels (limits_of (me_book e)) = m" by blast
  from match_invariant [OF B(1) Match(2)] B(2-4) show ?case by fastforce
qed

lemma demo_engine_new: "\<exists>e. engine_new 8 4 = Some e \<and> book_rep (me_book e) empty_book \<and> limits_of (me_book e) = demo_limits"
  using demo_book_new by (auto simp: engine_new_def)

theorem engine_uncrossed_witness: "\<exists>e B. engine_new 8 4 = Some e \<and> book_rep (me_book e) B \<and> uncrossed B"
proof -
  obtain e where e: "engine_new 8 4 = Some e" using demo_engine_new by blast
  have "sizes_ok 8 4" by (simp add: sizes_ok_def)
  from engine_uncrossed [OF engine_reachable.Start [OF e] this] e show ?thesis by blast
qed

section \<open>Fill or kill\<close>

definition demo_ask :: "u64 \<Rightarrow> u32 \<Rightarrow> u32 \<Rightarrow> book_update" where
  "demo_ask k p q = (demo_bid k p q)\<lparr>upd_side := 1\<rparr>"

definition two_asks :: abs_book where
  "two_asks = a_add False 200 \<lparr>rs_id = 2, rs_qty = 3, rs_time = 0\<rparr>
     (a_add False 100 \<lparr>rs_id = 1, rs_qty = 2, rs_time = 0\<rparr> empty_book)"

lemma two_asks_queues:
  "two_asks True p = []" "two_asks False p = (if p = 200 then [\<lparr>rs_id = 2, rs_qty = 3, rs_time = 0\<rparr>]
     else if p = 100 then [\<lparr>rs_id = 1, rs_qty = 2, rs_time = 0\<rparr>] else [])"
  by (simp_all add: two_asks_def a_add_apply empty_book_def)

lemma add_ask:
  assumes "book_rep b B" "limits_of b = demo_limits" "0 < q" "0 < p" "unat p < 10000" "k \<noteq> 0" "k \<notin> ids B"
    "card (ids B) < 5" "card (prices B) < 4"
  shows "\<exists>b'. dispatch 9 (demo_ask k p q) b = Some b' \<and> limits_of b' = demo_limits \<and>
    book_rep b' (a_add False p \<lparr>rs_id = k, rs_qty = q, rs_time = 0\<rparr> B)"
proof -
  have i: "index_room 8 0" "index_room 8 1" "index_room 8 2" "index_room 8 3" "index_room 8 4" by code_simp+
  have "n \<in> {0, 1, 2, 3, 4}" if "n < 5" for n :: nat using that by auto
  then have "card (ids B) \<in> {0, 1, 2, 3, 4}" using assms(8) by blast
  then have "index_room 8 (card (ids B))" by (elim insertE emptyE) (simp_all only: i)
  then have "add_accepted demo_limits (demo_ask k p q) B"
    using assms(3-9) by (simp add: add_accepted_def demo_limits_def demo_ask_def demo_bid_def book_update_init_def)
  then obtain b' where "add_order (demo_ask k p q) b = Some b'" "limits_of b' = demo_limits"
    "book_rep b' (a_add (upd_side (demo_ask k p q) = 0) (upd_price (demo_ask k p q)) (resting_update (demo_ask k p q)) B)"
    using add_order_refines [OF assms(1), of "demo_ask k p q"] assms(2) by auto
  moreover have "fresh_type 9" by (simp add: fresh_type_def update_type_defs)
  then have "dispatch 9 (demo_ask k p q) b = add_order (demo_ask k p q) b"
    by (simp add: dispatch_eq demo_ask_def demo_bid_def)
  ultimately show ?thesis
    by (intro exI [of _ b']) (simp add: demo_ask_def demo_bid_def book_update_init_def resting_update_def)
qed

lemma two_asks_book:
  "\<exists>b0 b. order_book_new 8 4 = Some b0 \<and> dispatch_all 9 [demo_ask 1 100 2, demo_ask 2 200 3] b0 = Some b \<and> book_rep b two_asks"
proof -
  obtain b0 where b0: "order_book_new 8 4 = Some b0" "book_rep b0 empty_book" "limits_of b0 = demo_limits"
    using demo_book_new by blast
  have c: "ids empty_book = {}" "prices empty_book = {}" by (simp_all add: demo_ids) (simp add: prices_def empty_book_def)
  obtain b1 where b1: "dispatch 9 (demo_ask 1 100 2) b0 = Some b1" "limits_of b1 = demo_limits"
    "book_rep b1 (a_add False 100 \<lparr>rs_id = 1, rs_qty = 2, rs_time = 0\<rparr> empty_book)" (is "book_rep b1 ?B1")
    using add_ask [OF b0(2,3), of 2 100 1] c by auto
  have c1: "ids ?B1 = {1}" "prices ?B1 = {(False, 100)}"
    by (simp add: ids_a_add c) (auto simp: prices_def a_add_apply empty_book_def)
  obtain b where "dispatch 9 (demo_ask 2 200 3) b1 = Some b" "book_rep b two_asks"
    using add_ask [OF b1(3,2), of 3 200 2] c1 by (auto simp: two_asks_def)
  with b0 b1 show ?thesis by auto
qed

definition fok_action :: order_action where
  "fok_action = demo_action 9 0 FOK 100 5"

lemma fok_reference: "\<not> prescan_fails fok_action two_asks" "ref_fills fok_action two_asks = [(100, 1, 2)]"
  "ref_left fok_action two_asks = 3"
proof -
  have ps: "{p. two_asks False p \<noteq> []} = {100, 200}" by (auto simp: two_asks_queues)
  have "side_qty False two_asks = 5" unfolding side_qty_def ps by (simp add: two_asks_queues queue_qty_def)
  moreover have "two_asks False 100 \<noteq> []" by (simp add: two_asks_queues)
  then have "\<exists>p. two_asks False p \<noteq> []" by blast
  ultimately show "\<not> prescan_fails fok_action two_asks" by (simp add: prescan_fails_def fok_action_def demo_action_def)
  let ?c = "within_limit False fok_action" and ?B = "two_asks(False := (two_asks False)(100 := []))"
  have l: "limit_like False ?c" using within_limit_like [of fok_action False] by (simp add: fok_action_def demo_action_def)
  have c: "?c 100" "\<not> ?c 200" by (simp_all add: within_limit_def fok_action_def demo_action_def)
  have "best_price_in False two_asks 100" by (auto simp: best_price_in_def two_asks_queues)
  from line_best [OF l this] have "line False ?c two_asks = map (Pair 100) (two_asks False 100) @ line False ?c ?B" using c by simp
  moreover have "best_price_in False ?B 200" by (auto simp: best_price_in_def two_asks_queues)
  from line_best [OF l this] have "line False ?c ?B = []" using c by simp
  ultimately have "line False ?c two_asks = [(100, \<lparr>rs_id = 1, rs_qty = 2, rs_time = 0\<rparr>)]" by (simp add: two_asks_queues)
  then have x: "cross_line (act_type fok_action = Market) fok_action two_asks = [(100, \<lparr>rs_id = 1, rs_qty = 2, rs_time = 0\<rparr>)]"
    by (simp add: cross_line_def) (simp add: fok_action_def demo_action_def)
  have "act_qty fok_action = 5" by (simp add: fok_action_def demo_action_def)
  then show "ref_fills fok_action two_asks = [(100, 1, 2)]" "ref_left fok_action two_asks = 3"
    by (simp_all add: ref_fills_def ref_left_def x min_def)
qed

text \<open>C31: Fill-or-kill orders can be filled in part. The pre-scan counts quantity beyond the limit of
  the order, so on a book with 2 offered at 100 and 3 at 200, a fill-or-kill buy of 5 limited to 100
  passes it, trades 2 and reports a partial fill.\<close>

theorem fok_partial_fill:
  "\<exists>b0 b R e'. order_book_new 8 4 = Some b0 \<and> dispatch_all 9 [demo_ask 1 100 2, demo_ask 2 200 3] b0 = Some b \<and>
    match_order (\<lambda>n. 0) [] (demo_action 9 0 FOK 100 5) (demo_engine b) = Some (R, e') \<and>
    res_status R = PartiallyFilled \<and> map tr_quantity (trades_in R) = [2]"
proof -
  obtain b0 b where b: "order_book_new 8 4 = Some b0" "dispatch_all 9 [demo_ask 1 100 2, demo_ask 2 200 3] b0 = Some b"
    "book_rep b two_asks" using two_asks_book by blast
  have rep: "book_rep (me_book (demo_engine b)) two_asks" using b(3) by (simp add: demo_engine_def)
  have f: "match_fits (\<lambda>n. 0) (demo_engine b) fok_action two_asks"
    by (simp add: match_fits_def fok_reference kMaxTradesPerMatch_def rests_def) (simp add: fok_action_def demo_action_def)
  have s: "ref_status fok_action two_asks = PartiallyFilled" by (simp add: ref_status_def fok_reference)
  have "match_order (\<lambda>n. 0) [] fok_action (demo_engine b) = match_rest_of (\<lambda>n. 0) fok_action (demo_engine b)"
    using match_order_eq [OF rep, of "\<lambda>n. 0" "[]" fok_action] fok_reference(1) by (simp add: risk_evaluate_def)
  then obtain R e' where r: "match_order (\<lambda>n. 0) [] fok_action (demo_engine b) = Some (R, e')"
    "trades_in R = make_trades (\<lambda>n. 0) (me_clock_reads (demo_engine b)) (me_next_trade_id (demo_engine b))
      (act_order_id fok_action) (ref_fills fok_action two_asks)" "res_status R = PartiallyFilled"
    using match_rest_ok [OF rep, of "\<lambda>n. 0" fok_action] f s by (auto simp: matches_as_def)
  have "map tr_quantity (trades_in R) = [2]" using r(2) by (simp add: fok_reference)
  with b r show ?thesis unfolding fok_action_def
    by (intro exI [of _ b0] exI [of _ b] exI [of _ R] exI [of _ e']) simp
qed

end
