(* ===== verification/TC_Telemetry.thy ===== *)
theory TC_Telemetry
  imports Complex_Main TC_Prelude "HOL-Library.Log_Nat"
begin

text \<open>
  \<open>telemetry/histogram.hpp\<close>, \<open>latency_tracker.hpp\<close> and \<open>metrics_registry.hpp\<close>: latency histograms
  with one bucket per nanosecond, the timer that records into them, and the registry that holds
  them with the counters. Readings of the clock are arguments. Numbers of type double are reals,
  and the result of each double operation is rounded to binary64 by \<open>f64\<close>; infinities and NaN,
  which no call in the repository produces, are not modelled.
\<close>

section \<open>Double arithmetic\<close>

text \<open>The position of the leading bit of a positive number.\<close>

definition lead_exp :: "real \<Rightarrow> int" where
  "lead_exp x = (if x \<ge> 1 then int (floorlog 2 (nat \<lfloor>x\<rfloor>)) - 1 else - int (floorlog 2 (nat \<lceil>1 / x\<rceil> - 1)))"

definition half_even :: "real \<Rightarrow> int" where
  "half_even q = (let f = \<lfloor>q\<rfloor>; d = q - of_int f in
     if d > 1 / 2 \<or> (d = 1 / 2 \<and> odd f) then f + 1 else f)"

definition f64_pos :: "real \<Rightarrow> real" where
  "f64_pos x = (let e = max (lead_exp x - 52) (- 1074); u = (if e \<ge> 0 then 2 ^ nat e else 1 / 2 ^ nat (- e)) in
     of_int (half_even (x / u)) * u)"

definition f64 :: "real \<Rightarrow> real" where
  "f64 x = (if x = 0 then 0 else if x > 0 then f64_pos x else - f64_pos (- x))"

text \<open>The conversion to \<open>uint64_t\<close> truncates; outside its range the language defines no result.\<close>

definition f64_to_u64 :: "real \<Rightarrow> u64 option" where
  "f64_to_u64 x = (if - 1 < x \<and> x < 2 ^ 64 then Some (word_of_int (if x < 0 then 0 else \<lfloor>x\<rfloor>)) else None)"

section \<open>The histogram\<close>

record histogram =
  hi_buckets :: "u64 list"
  hi_overflow_count :: u64
  hi_count :: u64
  hi_sum_ns :: u64
  hi_max_ns :: u64
  hi_min_ns :: u64

definition hist_reset :: "histogram \<Rightarrow> histogram" where
  "hist_reset h = h\<lparr>hi_buckets := replicate (length (hi_buckets h)) 0, hi_overflow_count := 0, hi_count := 0,
     hi_sum_ns := 0, hi_max_ns := 0, hi_min_ns := - 1\<rparr>"

definition hist_new :: "nat \<Rightarrow> histogram" where
  "hist_new max_value_ns = hist_reset \<lparr>hi_buckets = replicate max_value_ns 0, hi_overflow_count = 0, hi_count = 0,
     hi_sum_ns = 0, hi_max_ns = 0, hi_min_ns = 0\<rparr>"

definition hist_record :: "u64 \<Rightarrow> histogram \<Rightarrow> histogram" where
  "hist_record value_ns h =
     (let h = (if unat value_ns < length (hi_buckets h)
            then h\<lparr>hi_buckets := (hi_buckets h)[unat value_ns := hi_buckets h ! unat value_ns + 1]\<rparr>
            else h\<lparr>hi_overflow_count := hi_overflow_count h + 1\<rparr>);
          h = h\<lparr>hi_count := hi_count h + 1\<rparr>;
          h = h\<lparr>hi_sum_ns := hi_sum_ns h + value_ns\<rparr>;
          h = (if value_ns > hi_max_ns h then h\<lparr>hi_max_ns := value_ns\<rparr> else h)
      in if value_ns < hi_min_ns h then h\<lparr>hi_min_ns := value_ns\<rparr> else h)"

definition hist_max :: "histogram \<Rightarrow> u64" where
  "hist_max h = (if hi_count h = 0 then 0 else hi_max_ns h)"

definition hist_min :: "histogram \<Rightarrow> u64" where
  "hist_min h = (if hi_count h = 0 then 0 else hi_min_ns h)"

definition hist_mean :: "histogram \<Rightarrow> u64" where
  "hist_mean h = (if hi_count h = 0 then 0 else hi_sum_ns h div hi_count h)"

text \<open>The conversion of a double to \<open>uint64_t\<close> truncates. C++ leaves it undefined for values outside the
  64 bits, where this definition wraps; it is only called with \<open>0 < p < 100\<close>, and for such a double the
  product stays below \<open>2 ^ 64\<close>.\<close>

definition target_count :: "real \<Rightarrow> u64 \<Rightarrow> u64" where
  "target_count p count = word_of_int \<lfloor>f64 (f64 (p / 100) * f64 (real (unat count)))\<rfloor>"

fun percentile_loop :: "u64 \<Rightarrow> nat \<Rightarrow> u64 \<Rightarrow> u64 list \<Rightarrow> u64 option" where
  "percentile_loop target i cumulative [] = None"
| "percentile_loop target i cumulative (b # bs) =
     (let cumulative = cumulative + b in
      if cumulative \<ge> target then Some (word_of_nat i) else percentile_loop target (Suc i) cumulative bs)"

definition percentile :: "real \<Rightarrow> histogram \<Rightarrow> u64" where
  "percentile p h =
     (if hi_count h = 0 then 0
      else if p \<le> 0 then hist_min h
      else if p \<ge> 100 then hist_max h
      else let target = target_count p (hi_count h);
               target = (if target = 0 then 1 else target)
           in case percentile_loop target 0 0 (hi_buckets h) of
                Some i \<Rightarrow> i
              | None \<Rightarrow> hist_max h)"

section \<open>The timer and the registry\<close>

text \<open>
  The cycle counter of the processor where it has one, the steady clock elsewhere: \<open>tsc\<close> and \<open>now\<close> are
  the two readings, \<open>x86\<close> the outcome of the conditional compilation.
\<close>

definition rdtsc :: "bool \<Rightarrow> u64 \<Rightarrow> u64 \<Rightarrow> u64" where
  "rdtsc x86 tsc now = (if x86 then tsc else now)"

record latency_tracker =
  lt_start_ns :: u64

definition tracker_new :: "u64 \<Rightarrow> latency_tracker" where
  "tracker_new now = \<lparr>lt_start_ns = now\<rparr>"

definition tracker_drop :: "u64 \<Rightarrow> latency_tracker \<Rightarrow> histogram \<Rightarrow> histogram" where
  "tracker_drop now t h = (let end_ns = now in hist_record (end_ns - lt_start_ns t) h)"

record metrics_registry =
  mr_parser_latency :: histogram
  mr_matcher_latency :: histogram
  mr_risk_latency :: histogram
  mr_replay_latency :: histogram
  mr_end_to_end_latency :: histogram
  mr_messages_processed :: u64
  mr_orders_processed :: u64
  mr_trades_generated :: u64
  mr_risk_rejects :: u64
  mr_ioc_cancels :: u64
  mr_fok_rejects :: u64
  mr_avl_rotations :: u64

definition registry_new :: metrics_registry where
  "registry_new = \<lparr>mr_parser_latency = hist_new 10000, mr_matcher_latency = hist_new 10000,
     mr_risk_latency = hist_new 10000, mr_replay_latency = hist_new 50000,
     mr_end_to_end_latency = hist_new 50000, mr_messages_processed = 0, mr_orders_processed = 0,
     mr_trades_generated = 0, mr_risk_rejects = 0, mr_ioc_cancels = 0, mr_fok_rejects = 0, mr_avl_rotations = 0\<rparr>"

definition registry_reset :: "metrics_registry \<Rightarrow> metrics_registry" where
  "registry_reset r = r\<lparr>mr_parser_latency := hist_reset (mr_parser_latency r),
     mr_matcher_latency := hist_reset (mr_matcher_latency r), mr_risk_latency := hist_reset (mr_risk_latency r),
     mr_replay_latency := hist_reset (mr_replay_latency r),
     mr_end_to_end_latency := hist_reset (mr_end_to_end_latency r), mr_messages_processed := 0,
     mr_orders_processed := 0, mr_trades_generated := 0, mr_risk_rejects := 0, mr_ioc_cancels := 0,
     mr_fok_rejects := 0, mr_avl_rotations := 0\<rparr>"

section \<open>What a histogram knows of the recorded values\<close>

text \<open>How many of the values satisfy a condition, as a 64-bit counter.\<close>

definition tally :: "(u64 \<Rightarrow> bool) \<Rightarrow> u64 list \<Rightarrow> u64" where
  "tally P vs = word_of_nat (length (filter P vs))"

definition hist_ok :: "nat \<Rightarrow> u64 list \<Rightarrow> histogram \<Rightarrow> bool" where
  "hist_ok n vs h \<longleftrightarrow> hi_buckets h = map (\<lambda>i. tally (\<lambda>v. unat v = i) vs) [0..<n] \<and>
     hi_overflow_count h = tally (\<lambda>v. n \<le> unat v) vs \<and> hi_count h = word_of_nat (length vs) \<and>
     hi_sum_ns h = sum_list vs \<and> hi_max_ns h = fold max vs 0 \<and> hi_min_ns h = fold min vs (- 1)"

lemma tally_simps [simp]:
  "tally P [] = 0" "tally P (vs @ [v]) = (if P v then tally P vs + 1 else tally P vs)"
  by (simp_all add: tally_def)

lemma hist_ok_new: "hist_ok n [] (hist_new n)"
  by (simp add: hist_ok_def hist_new_def hist_reset_def map_replicate_const)

lemma hist_ok_record:
  assumes "hist_ok n vs h"
  shows "hist_ok n (vs @ [v]) (hist_record v h)"
proof -
  have l: "length (hi_buckets h) = n" using assms by (simp add: hist_ok_def)
  have b: "map (\<lambda>i. tally (\<lambda>v. unat v = i) (vs @ [v])) [0..<n] =
      (if unat v < n then (hi_buckets h)[unat v := hi_buckets h ! unat v + 1] else hi_buckets h)"
    using assms by (intro nth_equalityI) (auto simp: hist_ok_def nth_list_update)
  have m: "max v (fold max vs 0) = (if v > fold max vs 0 then v else fold max vs 0)"
    "min v (fold min vs (- 1)) = (if v < fold min vs (- 1) then v else fold min vs (- 1))"
    by (auto simp: max_def min_def)
  show ?thesis
    using assms b m by (auto simp: hist_ok_def hist_record_def Let_def l not_less add.commute)
qed

lemma hist_ok_records: "hist_ok n vs h \<Longrightarrow> hist_ok n (vs @ ws) (fold hist_record ws h)"
proof (induction ws arbitrary: vs h)
  case (Cons w ws)
  have "hist_ok n ((vs @ [w]) @ ws) (fold hist_record ws (hist_record w h))"
    by (rule Cons.IH [OF hist_ok_record [OF Cons.prems]])
  then show ?case by simp
qed simp

lemma recorded: "hist_ok n vs (fold hist_record vs (hist_new n))"
  using hist_ok_records [OF hist_ok_new, of n vs] by simp

lemma unat_tally: "length vs < 2 ^ 64 \<Longrightarrow> unat (tally P vs) = length (filter P vs)"
  using le_less_trans [OF length_filter_le [of P vs]] by (simp add: tally_def)

lemma fold_max_u64: "vs \<noteq> [] \<Longrightarrow> fold max vs (0 :: u64) = Max (set vs)"
  using Max.set_eq_fold [of "0 :: u64" vs] by (simp add: max_def)

lemma fold_min_u64: "vs \<noteq> [] \<Longrightarrow> fold min vs (- 1 :: u64) = Min (set vs)"
proof -
  assume "vs \<noteq> []"
  then have "Min (set (- 1 # vs)) = min (- 1) (Min (set vs))" by simp
  also have "\<dots> = Min (set vs)" by (rule min_absorb2) (rule word_order.extremum)
  finally show ?thesis using Min.set_eq_fold [of "- 1 :: u64" vs] by simp
qed

lemma buckets_total:
  "(\<Sum>i < n. length (filter (\<lambda>v. unat v = i) vs)) + length (filter (\<lambda>v. n \<le> unat v) vs) = length (vs :: u64 list)"
proof -
  have "(\<Sum>i < n. length (filter (\<lambda>v. unat v = i) vs)) = length (filter (\<lambda>v. unat v < n) vs)"
  proof (induction vs)
    case (Cons v vs)
    have "(\<Sum>i < n. length (filter (\<lambda>w. unat w = i) (v # vs))) =
        (\<Sum>i < n. (if i = unat v then 1 else 0) + length (filter (\<lambda>w. unat w = i) vs))"
      by (rule sum.cong) auto
    then show ?case using Cons by (simp add: sum.distrib sum.delta)
  qed simp
  moreover have "filter (\<lambda>v. n \<le> unat v) vs = filter (\<lambda>v. \<not> unat v < n) vs" by (simp add: not_less)
  ultimately show ?thesis by (simp add: sum_length_filter_compl)
qed

text \<open>C38: A histogram accounts for every value. After recording any values, fewer than \<open>2 ^ 64\<close>, into
  a new histogram, the count is their number, each value is counted in the bucket of its nanosecond
  or in the overflow bucket, the buckets add up to the count, and maximum, minimum and mean are
  those of the values, with zero for none; the sum, and with it the mean, is taken modulo \<open>2 ^ 64\<close>.\<close>

theorem histogram_exact:
  assumes "length vs < 2 ^ 64"
  shows "let h = fold hist_record vs (hist_new n) in
    unat (hi_count h) = length vs \<and>
    map unat (hi_buckets h) = map (\<lambda>i. length (filter (\<lambda>v. unat v = i) vs)) [0..<n] \<and>
    sum_list (map unat (hi_buckets h)) + unat (hi_overflow_count h) = unat (hi_count h) \<and>
    hist_max h = (if vs = [] then 0 else Max (set vs)) \<and> hist_min h = (if vs = [] then 0 else Min (set vs)) \<and>
    hist_mean h = (if vs = [] then 0 else sum_list vs div word_of_nat (length vs))"
proof -
  define h where "h = fold hist_record vs (hist_new n)"
  have ok: "hist_ok n vs h" unfolding h_def by (rule recorded)
  have c: "unat (hi_count h) = length vs" using ok assms by (simp add: hist_ok_def)
  then have z: "hi_count h = 0 \<longleftrightarrow> vs = []" by (metis length_0_conv unat_0 unat_inj_iff)
  have b: "map unat (hi_buckets h) = map (\<lambda>i. length (filter (\<lambda>v. unat v = i) vs)) [0..<n]"
    using ok unat_tally [OF assms] by (simp add: hist_ok_def)
  then have "sum_list (map unat (hi_buckets h)) = (\<Sum>i < n. length (filter (\<lambda>v. unat v = i) vs))"
    by (simp add: sum_list_sum_nth atLeast0LessThan)
  then have "sum_list (map unat (hi_buckets h)) + unat (hi_overflow_count h) = unat (hi_count h)"
    using buckets_total [where n = n and vs = vs] ok c unat_tally [OF assms] by (simp add: hist_ok_def)
  moreover have "hist_max h = (if vs = [] then 0 else Max (set vs))" "hist_min h = (if vs = [] then 0 else Min (set vs))"
    using z ok fold_max_u64 fold_min_u64 by (auto simp: hist_max_def hist_min_def hist_ok_def)
  moreover have "hist_mean h = (if vs = [] then 0 else sum_list vs div word_of_nat (length vs))"
    using z ok by (auto simp: hist_mean_def hist_ok_def)
  ultimately show ?thesis using b c unfolding h_def [symmetric] Let_def by blast
qed

theorem histogram_exact_witness:
  "hist_mean (fold hist_record [3, 9, 9, 700] (hist_new 10)) = 180 \<and> hist_max (fold hist_record [3, 9, 9, 700] (hist_new 10)) = 700"
  using histogram_exact [of "[3, 9, 9, 700]" 10] by (simp add: Let_def)

section \<open>Percentiles\<close>

definition up_to :: "u64 list \<Rightarrow> nat \<Rightarrow> nat" where
  "up_to vs v = length (filter (\<lambda>w. unat w \<le> v) vs)"

text \<open>The least value that at least \<open>t\<close> of the values do not exceed.\<close>

definition rank_value :: "u64 list \<Rightarrow> nat \<Rightarrow> nat \<Rightarrow> bool" where
  "rank_value vs t v \<longleftrightarrow> t \<le> up_to vs v \<and> (\<forall>u < v. up_to vs u < t)"

lemma percentile_loop_ok:
  assumes "length vs < 2 ^ 64" "i + length bs = n" "bs = map (\<lambda>i. tally (\<lambda>v. unat v = i) vs) [i..<n]"
    "\<forall>u < i. up_to vs u < unat t"
  shows "case percentile_loop t i (tally (\<lambda>v. unat v < i) vs) bs of
    None \<Rightarrow> \<forall>u < n. up_to vs u < unat t
  | Some r \<Rightarrow> \<exists>v < n. r = word_of_nat v \<and> rank_value vs (unat t) v"
  using assms(2-)
proof (induction bs arbitrary: i)
  case Nil
  then show ?case by simp
next
  case (Cons b bs)
  have "i < n" using Cons.prems(1) by simp
  then have b: "b = tally (\<lambda>v. unat v = i) vs" "bs = map (\<lambda>i. tally (\<lambda>v. unat v = i) vs) [Suc i..<n]" "i < n"
    using Cons.prems(2) by (simp_all add: upt_conv_Cons)
  have "length (filter (\<lambda>v. unat v < i) vs) + length (filter (\<lambda>v. unat v = i) vs) = length (filter (\<lambda>v. unat v < Suc i) vs)"
    by (induction vs) auto
  then have step: "tally (\<lambda>v. unat v < i) vs + b = tally (\<lambda>v. unat v < Suc i) vs"
    unfolding b(1) tally_def of_nat_add [symmetric] by simp
  have u: "unat (tally (\<lambda>v. unat v < Suc i) vs) = up_to vs i"
    unfolding unat_tally [OF assms(1)] up_to_def by (simp add: less_Suc_eq_le)
  show ?case
  proof (cases "t \<le> tally (\<lambda>v. unat v < Suc i) vs")
    case True
    then have "rank_value vs (unat t) i" using Cons.prems(3) u by (simp add: rank_value_def word_le_nat_alt)
    then show ?thesis using True b(3) by (auto simp: step Let_def)
  next
    case False
    then have "up_to vs i < unat t" using u by (simp add: word_le_nat_alt)
    then have "\<forall>u < Suc i. up_to vs u < unat t" using Cons.prems(3) by (simp add: less_Suc_eq)
    from Cons.IH [OF _ b(2) this] Cons.prems(1) False show ?thesis by (simp add: step Let_def)
  qed
qed

text \<open>C39: Percentiles. With recorded values, fewer than \<open>2 ^ 64\<close>, the percentile of \<open>p\<close> strictly
  between 0 and 100 is the least tracked value that at least the target number of values do not
  exceed, and the maximum when that value is beyond the tracked range. The target is \<open>p\<close> percent
  of the count, computed in doubles and truncated, but at least one.\<close>

theorem percentile_correct:
  assumes "length vs < 2 ^ 64" "vs \<noteq> []" "0 < p" "p < 100"
  shows "let r = percentile p (fold hist_record vs (hist_new n)); t = max 1 (unat (target_count p (word_of_nat (length vs)))) in
    (\<exists>v < n. r = word_of_nat v \<and> rank_value vs t v) \<or> ((\<forall>v < n. up_to vs v < t) \<and> r = Max (set vs))"
proof -
  define h where "h = fold hist_record vs (hist_new n)"
  have ok: "hist_ok n vs h" unfolding h_def by (rule recorded)
  then have c: "hi_count h = word_of_nat (length vs)" by (simp add: hist_ok_def)
  have "unat (hi_count h) = length vs" using c assms(1) by simp
  then have ne: "hi_count h \<noteq> 0" using assms(2) by (metis length_0_conv unat_0)
  define t where "t = (if target_count p (hi_count h) = 0 then 1 else target_count p (hi_count h))"
  have "unat t = max 1 (unat (target_count p (hi_count h)))" by (auto simp: t_def max_def Suc_le_eq unat_gt_0)
  moreover have m: "hist_max h = Max (set vs)" using ok ne fold_max_u64 [OF assms(2)] by (simp add: hist_max_def hist_ok_def)
  moreover have "percentile p h = (case percentile_loop t 0 0 (hi_buckets h) of Some i \<Rightarrow> i | None \<Rightarrow> hist_max h)"
    using ne assms(3,4) by (simp add: percentile_def t_def Let_def)
  moreover have "case percentile_loop t 0 0 (hi_buckets h) of None \<Rightarrow> \<forall>u < n. up_to vs u < unat t
      | Some r \<Rightarrow> \<exists>v < n. r = word_of_nat v \<and> rank_value vs (unat t) v"
    using percentile_loop_ok [OF assms(1), of 0 "hi_buckets h" n t] ok by (simp add: hist_ok_def tally_def)
  ultimately show ?thesis unfolding h_def [symmetric] Let_def c [symmetric] by (auto split: option.splits)
qed

theorem percentile_correct_witness:
  "target_count 50 4 = 2 \<and> (\<exists>v < 100. percentile 50 (fold hist_record [40, 10, 30, 20] (hist_new 100)) = word_of_nat v \<and>
     rank_value [40, 10, 30, 20] 2 v)"
proof -
  have t: "target_count 50 4 = 2" by code_simp
  have "up_to [40, 10, 30, 20] 50 = 4" by (simp add: up_to_def)
  then have "\<not> (\<forall>v < 100. up_to [40, 10, 30, 20] v < 2)" by (intro notI) (drule spec [of _ 50], simp)
  then show ?thesis using percentile_correct [of "[40, 10, 30, 20]" 50 100] t
    by (simp add: Let_def flip: numeral_2_eq_2) blast
qed

end
