(* ===== verification/TC_Replay.thy ===== *)
theory TC_Replay
  imports TC_Match_Safety TC_Telemetry
begin

text \<open>
  \<open>replay/replay_clock.hpp\<close> and \<open>replay_engine.hpp\<close>: the engine that feeds recorded messages to
  the matching engine. It calls \<open>ITCHParser::parse\<close> with a payload alone and compares the result
  with \<open>UpdateType::Unknown\<close>; neither exists with that type, so the parser is the parameter
  \<open>parse\<close> and the type of ignored messages the parameter \<open>unknown\<close>. Every reading of the steady clock
  is taken from the one sequence the matching engine counts.
\<close>

section \<open>The clock\<close>

datatype playback_mode = RealTime | Accelerated | MaxThroughput | SingleStep

record replay_clock =
  ck_mode :: playback_mode
  ck_factor :: real
  ck_first_message_ts :: u64
  ck_start_time_ns :: u64

definition clock_new :: "playback_mode \<Rightarrow> real \<Rightarrow> replay_clock" where
  "clock_new mode acceleration_factor =
     \<lparr>ck_mode = mode, ck_factor = acceleration_factor, ck_first_message_ts = 0, ck_start_time_ns = 0\<rparr>"

text \<open>The spin on the clock, which ends when the clock reaches the target.\<close>

partial_function (option) spin_until :: "(nat \<Rightarrow> u64) \<Rightarrow> u64 \<Rightarrow> matching_engine \<Rightarrow> matching_engine option" where
  "spin_until clock target e =
     (let (now, e) = get_timestamp clock e in
      if now < target then spin_until clock target e else Some e)"

definition wait_until :: "(nat \<Rightarrow> u64) \<Rightarrow> u64 \<Rightarrow> replay_clock \<Rightarrow> matching_engine \<Rightarrow>
    (replay_clock \<times> matching_engine) option" where
  "wait_until clock message_ts c e =
     (if ck_mode c = MaxThroughput \<or> ck_mode c = SingleStep then Some (c, e)
      else if ck_first_message_ts c = 0 then
        (let (now, e) = get_timestamp clock e in
         Some (c\<lparr>ck_first_message_ts := message_ts, ck_start_time_ns := now\<rparr>, e))
      else if message_ts \<le> ck_first_message_ts c then Some (c, e)
      else do {
        let elapsed = message_ts - ck_first_message_ts c;
        elapsed \<leftarrow> (if ck_mode c = Accelerated then
            (if ck_factor c = 0 then None else f64_to_u64 (f64 (f64 (real (unat elapsed)) / ck_factor c)))
          else Some elapsed);
        let target = ck_start_time_ns c + elapsed;
        e \<leftarrow> spin_until clock target e;
        Some (c, e)
      })"

section \<open>The source\<close>

text \<open>The abstract class \<open>DataSource\<close>: the next payload, the empty one at the end, from what is pending.\<close>

locale data_source =
  fixes next_of :: "'s \<Rightarrow> u8 list \<times> 's"
    and pending :: "'s \<Rightarrow> u8 list list"
  assumes next_end: "pending s = [] \<Longrightarrow> next_of s = ([], s)"
    and next_payload: "pending s = p # ps \<Longrightarrow> \<exists>s'. next_of s = (p, s') \<and> pending s' = ps"

record memory_data_source =
  ms_payloads :: "u8 list list"
  ms_idx :: nat

definition next_payload :: "memory_data_source \<Rightarrow> u8 list \<times> memory_data_source" where
  "next_payload s = (if ms_idx s \<ge> length (ms_payloads s) then ([], s)
     else (ms_payloads s ! ms_idx s, s\<lparr>ms_idx := ms_idx s + 1\<rparr>))"

definition unread :: "memory_data_source \<Rightarrow> u8 list list" where
  "unread s = drop (ms_idx s) (ms_payloads s)"

interpretation memory: data_source next_payload unread
proof
  fix s p ps
  show "unread s = [] \<Longrightarrow> next_payload s = ([], s)" by (simp add: unread_def next_payload_def)
  show "unread s = p # ps \<Longrightarrow> \<exists>s'. next_payload s = (p, s') \<and> unread s' = ps"
    by (cases "ms_idx s < length (ms_payloads s)")
      (auto simp: unread_def next_payload_def Cons_nth_drop_Suc [symmetric])
qed

section \<open>The engine\<close>

record 's replay_engine =
  re_source :: 's
  re_matcher :: matching_engine
  re_registry :: "metrics_registry option"
  re_clock :: replay_clock
  re_messages_processed :: u64

definition replay_new :: "'s \<Rightarrow> matching_engine \<Rightarrow> metrics_registry option \<Rightarrow> playback_mode \<Rightarrow> real \<Rightarrow>
    's replay_engine" where
  "replay_new source matcher registry mode acceleration_factor =
     \<lparr>re_source = source, re_matcher = matcher, re_registry = registry,
      re_clock = clock_new mode acceleration_factor, re_messages_processed = 0\<rparr>"

text \<open>A reading of the clock, and an update of the registry when there is one.\<close>

definition get_time_ns :: "(nat \<Rightarrow> u64) \<Rightarrow> 's replay_engine \<Rightarrow> u64 \<times> 's replay_engine" where
  "get_time_ns clock r = (let (now, e) = get_timestamp clock (re_matcher r) in (now, r\<lparr>re_matcher := e\<rparr>))"

definition on_registry :: "(metrics_registry \<Rightarrow> metrics_registry) \<Rightarrow> 's replay_engine \<Rightarrow> 's replay_engine" where
  "on_registry f r = r\<lparr>re_registry := map_option f (re_registry r)\<rparr>"

text \<open>\<open>if (registry_) latency.record(get_time_ns() - start)\<close>: the clock is read only with a registry.\<close>

definition record_latency :: "(nat \<Rightarrow> u64) \<Rightarrow> ((histogram \<Rightarrow> histogram) \<Rightarrow> metrics_registry \<Rightarrow> metrics_registry) \<Rightarrow> u64 \<Rightarrow>
    's replay_engine \<Rightarrow> 's replay_engine" where
  "record_latency clock upd start r =
     (if re_registry r = None then r
      else let (now, r) = get_time_ns clock r in on_registry (upd (hist_record (now - start))) r)"

definition limit_action :: "book_update \<Rightarrow> order_action" where
  "limit_action u = \<lparr>act_order_id = upd_order_id u, act_client_id = 0, act_price = upd_price u, act_qty = upd_qty u,
     act_side = upd_side u, act_type = Limit\<rparr>"

definition count_result :: "execution_result \<Rightarrow> metrics_registry \<Rightarrow> metrics_registry" where
  "count_result result m =
     (let m = m\<lparr>mr_orders_processed := mr_orders_processed m + 1\<rparr>;
          m = m\<lparr>mr_trades_generated := mr_trades_generated m + word_of_nat (sv_size (res_trades result))\<rparr>
      in if res_status result = RejectedRisk then m\<lparr>mr_risk_rejects := mr_risk_rejects m + 1\<rparr> else m)"

text \<open>Steps 3 and 4 of the loop: a new order goes to the matcher, anything else to its book.\<close>

definition apply_update :: "(nat \<Rightarrow> u64) \<Rightarrow> risk_rule list \<Rightarrow> update_type \<Rightarrow> book_update \<Rightarrow> 's replay_engine \<Rightarrow>
    's replay_engine option" where
  "apply_update clock rules rt u r =
     (if upd_type u = AddOrder then do {
        let (start_match, r) = get_time_ns clock r;
        (result, e) \<leftarrow> match_order clock rules (limit_action u) (re_matcher r);
        let r = record_latency clock (\<lambda>f m. m\<lparr>mr_matcher_latency := f (mr_matcher_latency m)\<rparr>) start_match (r\<lparr>re_matcher := e\<rparr>);
        Some (on_registry (count_result result) r)
      } else do {
        b \<leftarrow> dispatch rt u (me_book (re_matcher r));
        Some (r\<lparr>re_matcher := (re_matcher r)\<lparr>me_book := b\<rparr>\<rparr>)
      })"

text \<open>The body of the loop of \<open>run\<close> on a payload that is not empty.\<close>

definition replay_one :: "(nat \<Rightarrow> u64) \<Rightarrow> risk_rule list \<Rightarrow> update_type \<Rightarrow> update_type \<Rightarrow> (u8 list \<Rightarrow> book_update) \<Rightarrow>
    u8 list \<Rightarrow> 's replay_engine \<Rightarrow> 's replay_engine option" where
  "replay_one clock rules rt unknown parse payload r = (
     let (start_e2e, r) = get_time_ns clock r;
         (start_parse, r) = get_time_ns clock r;
         update = parse payload;
         r = record_latency clock (\<lambda>f m. m\<lparr>mr_parser_latency := f (mr_parser_latency m)\<rparr>) start_parse r
     in if upd_type update = unknown then Some r
        else do {
          (c, e) \<leftarrow> wait_until clock (upd_timestamp_ns update) (re_clock r) (re_matcher r);
          r \<leftarrow> apply_update clock rules rt update (r\<lparr>re_clock := c, re_matcher := e\<rparr>);
          let r = on_registry (\<lambda>m. m\<lparr>mr_messages_processed := mr_messages_processed m + 1\<rparr>) r;
          let r = record_latency clock (\<lambda>f m. m\<lparr>mr_end_to_end_latency := f (mr_end_to_end_latency m)\<rparr>) start_e2e r;
          Some (r\<lparr>re_messages_processed := re_messages_processed r + 1\<rparr>)
        })"

partial_function (option) replay_run :: "('s \<Rightarrow> u8 list \<times> 's) \<Rightarrow> (nat \<Rightarrow> u64) \<Rightarrow> risk_rule list \<Rightarrow> update_type \<Rightarrow> update_type \<Rightarrow>
    (u8 list \<Rightarrow> book_update) \<Rightarrow> u64 \<Rightarrow> 's replay_engine \<Rightarrow> 's replay_engine option" where
  "replay_run next_of clock rules rt unknown parse max_messages r =
     (if re_messages_processed r < max_messages then
        (let (payload, s) = next_of (re_source r); r = r\<lparr>re_source := s\<rparr> in
         if payload = [] then Some r
         else do {
           r \<leftarrow> replay_one clock rules rt unknown parse payload r;
           replay_run next_of clock rules rt unknown parse max_messages r
         })
      else Some r)"

text \<open>\<open>step\<close>: one message, without timing or telemetry; the result says whether there was one.\<close>

definition replay_step :: "('s \<Rightarrow> u8 list \<times> 's) \<Rightarrow> (nat \<Rightarrow> u64) \<Rightarrow> risk_rule list \<Rightarrow> update_type \<Rightarrow> update_type \<Rightarrow> (u8 list \<Rightarrow> book_update) \<Rightarrow>
    's replay_engine \<Rightarrow> (bool \<times> 's replay_engine) option" where
  "replay_step next_of clock rules rt unknown parse r = (
     let r = (if re_messages_processed r = 0 then r\<lparr>re_clock := clock_new SingleStep 1\<rparr> else r);
         (payload, s) = next_of (re_source r);
         r = r\<lparr>re_source := s\<rparr>
     in if payload = [] then Some (False, r)
        else do {
          let update = parse payload;
          r \<leftarrow> (if upd_type update \<noteq> unknown then
              (if upd_type update = AddOrder then do {
                 (_, e) \<leftarrow> match_order clock rules (limit_action update) (re_matcher r);
                 Some (r\<lparr>re_matcher := e\<rparr>)
               } else do {
                 b \<leftarrow> dispatch rt update (me_book (re_matcher r));
                 Some (r\<lparr>re_matcher := (re_matcher r)\<lparr>me_book := b\<rparr>\<rparr>)
               })
            else Some r);
          Some (True, r\<lparr>re_messages_processed := re_messages_processed r + 1\<rparr>)
        })"

section \<open>What telemetry and timing leave alone\<close>

definition same_book :: "'s replay_engine \<Rightarrow> 's replay_engine \<Rightarrow> bool" where
  "same_book r r' \<longleftrightarrow> me_book (re_matcher r') = me_book (re_matcher r) \<and> re_source r' = re_source r \<and>
     re_messages_processed r' = re_messages_processed r"

lemma get_time_ns_same: "get_time_ns clock r = (now, r') \<Longrightarrow> same_book r r'"
  by (auto simp: get_time_ns_def get_timestamp_def same_book_def)

lemma on_registry_same: "same_book r (on_registry f r)"
  by (simp add: on_registry_def same_book_def)

lemma same_book_trans: "same_book r r' \<Longrightarrow> same_book r' r'' \<Longrightarrow> same_book r r''"
  by (simp add: same_book_def)

lemma record_latency_same: "same_book r (record_latency clock upd start r)"
proof (cases "get_time_ns clock r")
  case (Pair now r')
  then show ?thesis
    using same_book_trans [OF get_time_ns_same [OF Pair] on_registry_same]
    by (simp add: record_latency_def) (simp add: same_book_def)
qed

lemma spin_until_book: "spin_until clock target e = Some e' \<Longrightarrow> me_book e' = me_book e"
proof (rule spin_until.raw_induct [where P = "\<lambda>clock target e e'. me_book e' = me_book e"], goal_cases)
  case (1 f clock target e e')
  then show ?case by (cases "clock (me_clock_reads e) < target") (auto simp: get_timestamp_def)
qed

lemma wait_until_book: "wait_until clock ts c e = Some (c', e') \<Longrightarrow> me_book e' = me_book e"
  by (auto simp: wait_until_def get_timestamp_def bind_Some_iff Let_def dest: spin_until_book split: if_splits)

section \<open>The book along a replay\<close>

text \<open>The book stays a representation, of an uncrossed book if only orders are added.\<close>

definition book_kept :: "bool \<Rightarrow> order_book \<Rightarrow> order_book \<Rightarrow> bool" where
  "book_kept adds b b' \<longleftrightarrow> (\<forall>B. book_rep b B \<longrightarrow> (\<exists>B'. book_rep b' B' \<and> limits_of b' = limits_of b \<and>
     (adds \<longrightarrow> uncrossed B \<longrightarrow> uncrossed B')))"

lemma book_kept_refl: "book_kept adds b b"
  by (auto simp: book_kept_def)

lemma book_kept_trans: "book_kept adds b b' \<Longrightarrow> book_kept adds b' b'' \<Longrightarrow> book_kept adds b b''"
  unfolding book_kept_def by metis

text \<open>What one message does to the book: a new order is matched, anything else dispatched.\<close>

definition update_outcome :: "(nat \<Rightarrow> u64) \<Rightarrow> risk_rule list \<Rightarrow> update_type \<Rightarrow> book_update \<Rightarrow> order_book \<Rightarrow> order_book \<Rightarrow> bool" where
  "update_outcome clock rules rt u b b' \<longleftrightarrow> (if upd_type u = AddOrder
     then \<exists>e result e'. me_book e = b \<and> match_order clock rules (limit_action u) e = Some (result, e') \<and> me_book e' = b'
     else dispatch rt u b = Some b')"

lemma apply_update_outcome:
  assumes run: "apply_update clock rules rt u r = Some r'"
  shows "update_outcome clock rules rt u (me_book (re_matcher r)) (me_book (re_matcher r')) \<and>
    re_source r' = re_source r \<and> re_messages_processed r' = re_messages_processed r"
proof (cases "upd_type u = AddOrder")
  case True
  obtain start r1 where r1: "get_time_ns clock r = (start, r1)" by (cases "get_time_ns clock r")
  obtain result e where e: "match_order clock rules (limit_action u) (re_matcher r1) = Some (result, e)"
    and r': "r' = on_registry (count_result result) (record_latency clock
      (\<lambda>f m. m\<lparr>mr_matcher_latency := f (mr_matcher_latency m)\<rparr>) start (r1\<lparr>re_matcher := e\<rparr>))"
    using run True r1 by (auto simp: apply_update_def bind_Some_iff)
  have "same_book (r1\<lparr>re_matcher := e\<rparr>) r'"
    unfolding r' by (rule same_book_trans [OF record_latency_same on_registry_same])
  then show ?thesis using e True get_time_ns_same [OF r1]
    by (auto simp: same_book_def update_outcome_def intro!: exI [of _ "re_matcher r1"])
next
  case False
  then show ?thesis using run by (auto simp: apply_update_def bind_Some_iff update_outcome_def)
qed

text \<open>What one turn of the loop does, when the message is not ignored.\<close>

lemma replay_one_outcome:
  assumes run: "replay_one clock rules rt unknown parse p r = Some r'"
  shows "re_source r' = re_source r \<and> (if upd_type (parse p) = unknown
    then me_book (re_matcher r') = me_book (re_matcher r) \<and> re_messages_processed r' = re_messages_processed r
    else update_outcome clock rules rt (parse p) (me_book (re_matcher r)) (me_book (re_matcher r')) \<and>
      re_messages_processed r' = re_messages_processed r + 1)"
proof -
  obtain t1 r1 where r1: "get_time_ns clock r = (t1, r1)" by (cases "get_time_ns clock r")
  obtain t2 r2 where r2: "get_time_ns clock r1 = (t2, r2)" by (cases "get_time_ns clock r1")
  define r3 where "r3 = record_latency clock (\<lambda>f m. m\<lparr>mr_parser_latency := f (mr_parser_latency m)\<rparr>) t2 r2"
  have "same_book r r3" unfolding r3_def
    by (rule same_book_trans [OF get_time_ns_same [OF r1] same_book_trans [OF get_time_ns_same [OF r2] record_latency_same]])
  note s = this [unfolded same_book_def]
  show ?thesis
  proof (cases "upd_type (parse p) = unknown")
    case True
    then have "r' = r3" using run r1 r2 by (simp add: replay_one_def r3_def)
    then show ?thesis using s True by simp
  next
    case False
    let ?f = "\<lambda>r. record_latency clock (\<lambda>f m. m\<lparr>mr_end_to_end_latency := f (mr_end_to_end_latency m)\<rparr>) t1
        (on_registry (\<lambda>m. m\<lparr>mr_messages_processed := mr_messages_processed m + 1\<rparr>) r)"
    obtain c e r4 where w: "wait_until clock (upd_timestamp_ns (parse p)) (re_clock r3) (re_matcher r3) = Some (c, e)"
      and u: "apply_update clock rules rt (parse p) (r3\<lparr>re_clock := c, re_matcher := e\<rparr>) = Some r4"
      and r': "r' = (?f r4)\<lparr>re_messages_processed := re_messages_processed (?f r4) + 1\<rparr>"
      using run False r1 r2 by (auto simp: replay_one_def r3_def [symmetric] bind_Some_iff Let_def)
    have "same_book r4 (?f r4)" by (rule same_book_trans [OF on_registry_same record_latency_same])
    then show ?thesis
      using apply_update_outcome [OF u] wait_until_book [OF w] s False by (simp add: same_book_def r')
  qed
qed

lemma update_outcome_kept:
  assumes out: "update_outcome clock rules rt u b b'" and rt: "fresh_type rt" and a: "adds \<longrightarrow> upd_type u = AddOrder"
  shows "book_kept adds b b'"
proof (cases "upd_type u = AddOrder")
  case True
  then obtain e result e' where e: "me_book e = b" "match_order clock rules (limit_action u) e = Some (result, e')" "me_book e' = b'"
    using out by (auto simp: update_outcome_def)
  show ?thesis unfolding book_kept_def using match_invariant [OF _ e(2)] e(1,3) by blast
next
  case False
  then have d: "dispatch rt u b = Some b'" using out by (simp add: update_outcome_def)
  have "\<exists>B'. book_rep b' B' \<and> limits_of b' = limits_of b" if "book_rep b B" for B
    using dispatch_implements [OF that rt, of u] d by (auto simp: implements_def)
  then show ?thesis using a False unfolding book_kept_def by blast
qed

lemma replay_one_kept:
  assumes run: "replay_one clock rules rt unknown parse p r = Some r'" and rt: "fresh_type rt"
    and a: "adds \<longrightarrow> upd_type (parse p) \<in> {AddOrder, unknown}"
  shows "book_kept adds (me_book (re_matcher r)) (me_book (re_matcher r'))"
proof (cases "upd_type (parse p) = unknown")
  case True
  then show ?thesis using replay_one_outcome [OF run] book_kept_refl by simp
next
  case False
  then have "update_outcome clock rules rt (parse p) (me_book (re_matcher r)) (me_book (re_matcher r'))"
    using replay_one_outcome [OF run] by simp
  then show ?thesis by (rule update_outcome_kept [OF _ rt]) (use a False in blast)
qed

lemma replay_run_kept:
  assumes "replay_run next_of clock rules rt unknown parse n r = Some r'" "fresh_type rt"
    "adds \<longrightarrow> (\<forall>p. upd_type (parse p) \<in> {AddOrder, unknown})"
  shows "book_kept adds (me_book (re_matcher r)) (me_book (re_matcher r'))"
proof -
  let ?P = "\<lambda>next_of clock rules rt unknown parse n r r'. fresh_type rt \<longrightarrow>
    (adds \<longrightarrow> (\<forall>p. upd_type (parse p) \<in> {AddOrder, unknown})) \<longrightarrow>
    book_kept adds (me_book (re_matcher r)) (me_book (re_matcher r'))"
  have "?P next_of clock rules rt unknown parse n r r'"
  proof (rule replay_run.raw_induct [where P = ?P, OF _ assms(1)], intro impI, goal_cases)
    case (1 f next_of clock rules rt unknown parse n r r')
    obtain p s where ps: "next_of (re_source r) = (p, s)" by (cases "next_of (re_source r)")
    show ?case
    proof (cases "re_messages_processed r < n \<and> p \<noteq> []")
      case True
      then obtain r1 where r1: "replay_one clock rules rt unknown parse p (r\<lparr>re_source := s\<rparr>) = Some r1"
        "f next_of clock rules rt unknown parse n r1 = Some r'" using 1(2) ps by (auto simp: bind_Some_iff Let_def)
      have "book_kept adds (me_book (re_matcher r)) (me_book (re_matcher r1))"
        using replay_one_kept [OF r1(1), of adds] 1(3,4) by simp
      moreover have "book_kept adds (me_book (re_matcher r1)) (me_book (re_matcher r'))"
        using 1(1) [OF r1(2)] 1(3,4) by blast
      ultimately show ?thesis by (rule book_kept_trans)
    next
      case False
      then have "me_book (re_matcher r') = me_book (re_matcher r)" using 1(2) ps by (auto simp: Let_def split: if_splits)
      then show ?thesis by (simp add: book_kept_refl)
    qed
  qed
  with assms(2,3) show ?thesis by blast
qed

section \<open>The loop ends\<close>

text \<open>The loop over what a source has pending, as a recursion on that list.\<close>

fun replay_payloads :: "('s \<Rightarrow> u8 list \<times> 's) \<Rightarrow> (u8 list \<Rightarrow> 's replay_engine \<Rightarrow> 's replay_engine option) \<Rightarrow> u64 \<Rightarrow>
    u8 list list \<Rightarrow> 's replay_engine \<Rightarrow> 's replay_engine option" where
  "replay_payloads next_of one n [] r = Some r"
| "replay_payloads next_of one n (p # ps) r =
     (if re_messages_processed r < n then
        (let r = r\<lparr>re_source := snd (next_of (re_source r))\<rparr> in
         if p = [] then Some r
         else do {
           r \<leftarrow> one p r;
           replay_payloads next_of one n ps r
         })
      else Some r)"

context data_source
begin

lemma replay_run_pending:
  "pending (re_source r) = ps \<Longrightarrow> replay_run next_of clock rules rt unknown parse n r =
     replay_payloads next_of (replay_one clock rules rt unknown parse) n ps r"
proof (induction ps arbitrary: r)
  case Nil
  then show ?case by (subst replay_run.simps) (simp add: next_end)
next
  case (Cons p ps)
  obtain s where s: "next_of (re_source r) = (p, s)" "pending s = ps" using next_payload [OF Cons.prems] by blast
  let ?r = "r\<lparr>re_source := s\<rparr>"
  have "replay_run next_of clock rules rt unknown parse n r1 =
      replay_payloads next_of (replay_one clock rules rt unknown parse) n ps r1"
    if "replay_one clock rules rt unknown parse p ?r = Some r1" for r1
    using replay_one_outcome [OF that] s(2) by (intro Cons.IH) simp
  then show ?case
    by (subst replay_run.simps) (cases "replay_one clock rules rt unknown parse p ?r"; simp add: s(1) Let_def)
qed

end

section \<open>A replay of one message\<close>

definition demo_sell :: book_update where
  "demo_sell = (demo_bid 8 90 3)\<lparr>upd_side := 1\<rparr>"

definition demo_replay :: "playback_mode \<Rightarrow> matching_engine \<Rightarrow> memory_data_source replay_engine" where
  "demo_replay mode e = replay_new \<lparr>ms_payloads = [[65]], ms_idx = 0\<rparr> e None mode 1"

lemma demo_match:
  assumes "book_rep (me_book e) demo_abs"
  shows "\<exists>R e'. match_order clock [] (limit_action demo_sell) e = Some (R, e')"
proof -
  have a: "limit_action demo_sell = demo_action 8 1 Limit 90 3"
    by (simp add: limit_action_def demo_sell_def demo_bid_def book_update_init_def demo_action_def)
  have ok: "risk_ok (risk_evaluate [] (demo_action 8 1 Limit 90 3))" by (simp add: risk_evaluate_def)
  have "match_order clock [] (demo_action 8 1 Limit 90 3) e = match_rest_of clock (demo_action 8 1 Limit 90 3) e"
    using match_order_eq [OF assms] ok demo_fits(2) by simp
  then show ?thesis
    using match_rest_ok [OF assms, of clock "demo_action 8 1 Limit 90 3"] demo_fits(1) by (auto simp: matches_as_def a)
qed

lemma demo_replay_runs:
  assumes "book_rep b demo_abs"
  shows "\<exists>r'. replay_run next_payload clock [] 9 0 (\<lambda>p. demo_sell) 10 (demo_replay mode (demo_engine b)) = Some r'"
proof -
  let ?r = "demo_replay mode (demo_engine b)"
  have l: "unread (re_source ?r) = [[65]]" by (simp add: demo_replay_def replay_new_def unread_def)
  let ?e = "(demo_engine b)\<lparr>me_clock_reads := if mode \<in> {RealTime, Accelerated} then 4 else 3\<rparr>"
  have "book_rep (me_book ?e) demo_abs" using assms by (simp add: demo_engine_def)
  from demo_match [OF this] obtain R e' where m: "match_order clock [] (limit_action demo_sell) ?e = Some (R, e')" by blast
  have t: "upd_type demo_sell = AddOrder" "AddOrder \<noteq> 0" by (simp_all add: demo_sell_def demo_bid_def AddOrder_def)
  show ?thesis
    unfolding memory.replay_run_pending [OF l]
    using m t by (cases mode) (simp_all add: demo_replay_def replay_new_def clock_new_def replay_one_def apply_update_def
      get_time_ns_def get_timestamp_def record_latency_def wait_until_def on_registry_def demo_engine_def Let_def
      eval_nat_numeral)
qed

section \<open>What replays guarantee\<close>

text \<open>C9: Replays keep the book sound. Whatever is replayed, under any parser, clock, risk rules and
  playback mode, with or without telemetry: if the replay returns, the book represents an abstract
  book of the same limits, and if the parser yields only new orders and ignored messages, as the
  ITCH parser does, then a book that was not crossed is not crossed.\<close>

theorem replay_keeps_book:
  assumes "book_rep (me_book (re_matcher r)) B" "fresh_type rt"
    "replay_run next_of clock rules rt unknown parse max_messages r = Some r'"
  shows "\<exists>B'. book_rep (me_book (re_matcher r')) B' \<and>
    limits_of (me_book (re_matcher r')) = limits_of (me_book (re_matcher r)) \<and>
    ((\<forall>p. upd_type (parse p) \<in> {AddOrder, unknown}) \<longrightarrow> uncrossed B \<longrightarrow> uncrossed B')"
proof (cases "\<forall>p. upd_type (parse p) \<in> {AddOrder, unknown}")
  case True
  from replay_run_kept [OF assms(3,2), of True] True assms(1) show ?thesis unfolding book_kept_def by blast
next
  case False
  from replay_run_kept [OF assms(3,2), of False] False assms(1) show ?thesis unfolding book_kept_def by blast
qed

theorem replay_keeps_book_witness:
  "\<exists>b r' B'. replay_run next_payload (\<lambda>n. 0) [] 9 0 (\<lambda>p. demo_sell) 10 (demo_replay MaxThroughput (demo_engine b)) = Some r' \<and>
    book_rep (me_book (re_matcher r')) B' \<and> uncrossed B'"
proof -
  obtain b where b: "book_rep b demo_abs" using demo_book by blast
  obtain r' where r': "replay_run next_payload (\<lambda>n. 0) [] 9 0 (\<lambda>p. demo_sell) 10 (demo_replay MaxThroughput (demo_engine b)) = Some r'"
    using demo_replay_runs [OF b] by blast
  have "book_rep (me_book (re_matcher (demo_replay MaxThroughput (demo_engine b)))) demo_abs"
    using b by (simp add: demo_replay_def replay_new_def demo_engine_def)
  moreover have "fresh_type 9" by (simp add: fresh_type_def update_type_defs)
  moreover have "uncrossed demo_abs" by (simp add: uncrossed_def demo_abs_def a_add_apply empty_book_def)
  moreover have "upd_type demo_sell = AddOrder" by (simp add: demo_sell_def demo_bid_def)
  ultimately obtain B' where "book_rep (me_book (re_matcher r')) B'" "uncrossed B'"
    using replay_keeps_book [OF _ _ r', of demo_abs] by auto
  with r' show ?thesis by blast
qed

text \<open>C40: Replays end. For every source in memory, clock and limit, running the replay is a recursion
  over the payloads the source has left, taking one per turn and stopping at the first that is empty
  or when the limit is reached: the loop itself never diverges, and a run has no result only when
  the handling of one of these messages has none.\<close>

theorem replay_run_ends:
  "replay_run next_payload clock rules rt unknown parse max_messages r =
   replay_payloads next_payload (replay_one clock rules rt unknown parse) max_messages (unread (re_source r)) r"
  by (rule memory.replay_run_pending [OF refl])

end
