(* ===== verification/TC_Endian.thy ===== *)
theory TC_Endian
  imports TC_Prelude
begin

text \<open>
  \<open>common/endian.hpp\<close>: byte order conversion, and the copy of a field out of a byte buffer
  (\<open>std::memcpy\<close> into an integer) the parser and the packet decoder build on it. The byte order of
  the host, a compile-time constant of the code, is the parameter \<open>big\<close>; \<open>memcpy\<close> is the layout
  of the language on such a host.
\<close>

unbundle bit_operations_syntax

section \<open>Swapping bytes\<close>

definition bswap16 :: "u16 \<Rightarrow> u16" where
  "bswap16 x = push_bit 8 x OR drop_bit 8 x"

definition bswap32 :: "u32 \<Rightarrow> u32" where
  "bswap32 x = push_bit 24 x OR (push_bit 8 x AND 0x00FF0000) OR (drop_bit 8 x AND 0x0000FF00) OR drop_bit 24 x"

definition bswap64 :: "u64 \<Rightarrow> u64" where
  "bswap64 x = push_bit 32 (ucast (bswap32 (ucast x))) OR ucast (bswap32 (ucast (drop_bit 32 x)))"

definition net_to_host16 :: "bool \<Rightarrow> u16 \<Rightarrow> u16" where
  "net_to_host16 big x = (if \<not> big then bswap16 x else x)"

definition net_to_host32 :: "bool \<Rightarrow> u32 \<Rightarrow> u32" where
  "net_to_host32 big x = (if \<not> big then bswap32 x else x)"

definition net_to_host64 :: "bool \<Rightarrow> u64 \<Rightarrow> u64" where
  "net_to_host64 big x = (if \<not> big then bswap64 x else x)"

definition host_to_net16 :: "bool \<Rightarrow> u16 \<Rightarrow> u16" where
  "host_to_net16 big x = net_to_host16 big x"

definition host_to_net32 :: "bool \<Rightarrow> u32 \<Rightarrow> u32" where
  "host_to_net32 big x = net_to_host32 big x"

definition host_to_net64 :: "bool \<Rightarrow> u64 \<Rightarrow> u64" where
  "host_to_net64 big x = net_to_host64 big x"

section \<open>Copying bytes\<close>

text \<open>The integer whose representation in memory is a list of bytes.\<close>

fun le_word :: "u8 list \<Rightarrow> 'a::len word" where
  "le_word [] = 0"
| "le_word (b # bs) = ucast b OR push_bit 8 (le_word bs)"

definition be_word :: "u8 list \<Rightarrow> 'a::len word" where
  "be_word bs = le_word (rev bs)"

definition mem_word :: "bool \<Rightarrow> u8 list \<Rightarrow> 'a::len word" where
  "mem_word big bs = (if big then be_word bs else le_word bs)"

text \<open>Reading \<open>n\<close> bytes of a buffer; \<open>None\<close> when they are not all inside.\<close>

definition read_bytes :: "u8 list \<Rightarrow> nat \<Rightarrow> nat \<Rightarrow> u8 list option" where
  "read_bytes p off n = (if off + n \<le> length p then Some (take n (drop off p)) else None)"

section \<open>Bits of the conversions\<close>

lemma bit_le_word:
  "bit (le_word bs :: 'a::len word) n \<longleftrightarrow> n < LENGTH('a) \<and> n div 8 < length bs \<and> bit (bs ! (n div 8)) (n mod 8)"
proof (induction bs arbitrary: n)
  case (Cons b bs)
  have small: "bit b n \<Longrightarrow> n < 8" using bit_imp_le_length [of b n] by simp
  show ?case
  proof (cases "n < 8")
    case True
    then show ?thesis by (auto simp: bit_simps)
  next
    case False
    then obtain m where "n = m + 8" by (metis add.commute le_Suc_ex not_less)
    then have "n div 8 = Suc ((n - 8) div 8)" "(n - 8) mod 8 = n mod 8" by simp_all
    then show ?thesis using False small by (auto simp: bit_simps Cons.IH)
  qed
qed simp

lemma bit_be_word:
  "bit (be_word bs :: 'a::len word) n \<longleftrightarrow>
     n < LENGTH('a) \<and> n div 8 < length bs \<and> bit (bs ! (length bs - Suc (n div 8))) (n mod 8)"
  by (auto simp: be_word_def bit_le_word rev_nth)

text \<open>Bit \<open>n\<close> of a swapped word is bit \<open>n mod 8\<close> of the mirrored byte.\<close>

lemma byte_split:
  obtains r where "(n :: nat) = 8 * (n div 8) + r" "r < 8" "n mod 8 = r"
  by (metis mod_less_divisor mult_div_mod_eq zero_less_numeral)

lemma bit_bswap16: "bit (bswap16 x) n \<longleftrightarrow> n < 16 \<and> bit x (8 * (1 - n div 8) + n mod 8)"
proof (cases "n < 16")
  case True
  obtain r where r: "n = 8 * (n div 8) + r" "r < 8" "n mod 8 = r" by (rule byte_split)
  have "n div 8 < 2" using True by presburger
  then consider "n div 8 = 0" | "n div 8 = 1" by linarith
  then show ?thesis
    by cases (use r in \<open>auto simp: bswap16_def bit_simps add.commute dest: bit_imp_le_length\<close>)
qed (auto dest: bit_imp_le_length)

lemma bswap32_masks: "(0x00FF0000 :: u32) = push_bit 16 (mask 8)" "(0x0000FF00 :: u32) = push_bit 8 (mask 8)"
  by (simp_all add: mask_eq_exp_minus_1 push_bit_eq_mult)

lemma bit_bswap32: "bit (bswap32 x) n \<longleftrightarrow> n < 32 \<and> bit x (8 * (3 - n div 8) + n mod 8)"
proof (cases "n < 32")
  case True
  obtain r where r: "n = 8 * (n div 8) + r" "r < 8" "n mod 8 = r" by (rule byte_split)
  have "n div 8 < 4" using True by presburger
  then consider "n div 8 = 0" | "n div 8 = 1" | "n div 8 = 2" | "n div 8 = 3" by linarith
  then show ?thesis
    by cases (use r in \<open>auto simp: bswap32_def bswap32_masks bit_simps add.commute dest: bit_imp_le_length\<close>)
qed (auto dest: bit_imp_le_length)

lemma bit_bswap64: "bit (bswap64 x) n \<longleftrightarrow> n < 64 \<and> bit x (8 * (7 - n div 8) + n mod 8)"
proof (cases "n < 64")
  case True
  then have n64: "n - 32 < 32" by linarith
  obtain r where r: "n = 8 * (n div 8) + r" "r < 8" "n mod 8 = r" by (rule byte_split)
  show ?thesis
  proof (cases "n < 32")
    case True
    then have q: "n div 8 < 4" by presburger
    then have e: "8 * (3 - n div 8) + n mod 8 < 32" "8 * (7 - n div 8) + n mod 8 = 8 * (3 - n div 8) + n mod 8 + 32"
      using r by linarith+
    show ?thesis unfolding e(2) using True e(1) by (simp add: bswap64_def bit_simps bit_bswap32 add.commute)
  next
    case False
    then obtain m where m: "n = m + 32" by (metis add.commute le_Suc_ex not_less)
    then have "m div 8 < 4" using True by simp
    moreover have "n div 8 = 4 + m div 8" "(n - 32) mod 8 = n mod 8" "n mod 8 = m mod 8" "n - 32 = m"
      using div_mult_self1 [of 8 m 4] mod_mult_self1 [of m 4 8] by (simp_all add: m)
    ultimately have q: "n div 8 = 4 + (n - 32) div 8" "(n - 32) mod 8 = n mod 8" "(n - 32) div 8 < 4" by simp_all
    have "7 - n div 8 = 3 - (n - 32) div 8" using q by simp
    then have e: "8 * (3 - (n - 32) div 8) + n mod 8 < 32" "8 * (7 - n div 8) + n mod 8 = 8 * (3 - (n - 32) div 8) + n mod 8"
      using r(2,3) by linarith+
    have "\<not> bit (ucast (bswap32 (ucast (drop_bit 32 x))) :: u64) n" using False
      by (auto simp: bit_simps bit_bswap32)
    then show ?thesis unfolding e(2) using True False e(1) q n64 by (simp add: bswap64_def bit_simps bit_bswap32)
  qed
qed (auto dest: bit_imp_le_length)


section \<open>The conversions\<close>

lemma bswap_bswap: "bswap16 (bswap16 x) = x" "bswap32 (bswap32 y) = y" "bswap64 (bswap64 z) = z"
proof -
  have *: "8 * (w - (8 * (w - q) + r) div 8) + (8 * (w - q) + r) mod 8 = 8 * q + r" "8 * (w - q) + r < 8 * Suc w"
    if "q \<le> w" "r < 8" for w q r :: nat
    using that by auto
  have n: "n div 8 \<le> w" if "n < 8 * Suc w" for n w :: nat
    using that by (simp add: div_less_iff_less_mult mult.commute flip: less_Suc_eq_le)
  show "bswap16 (bswap16 x) = x"
    by (rule bit_word_eqI) (use *[of _ 1] n[of _ 1] in \<open>simp add: bit_bswap16\<close>)
  show "bswap32 (bswap32 y) = y"
    by (rule bit_word_eqI) (use *[of _ 3] n[of _ 3] in \<open>simp add: bit_bswap32\<close>)
  show "bswap64 (bswap64 z) = z"
    by (rule bit_word_eqI) (use *[of _ 7] n[of _ 7] in \<open>simp add: bit_bswap64\<close>)
qed

lemma bswap_le_word:
  "length bs = 2 \<Longrightarrow> bswap16 (le_word bs) = be_word bs"
  "length bs = 4 \<Longrightarrow> bswap32 (le_word bs) = be_word bs"
  "length bs = 8 \<Longrightarrow> bswap64 (le_word bs) = be_word bs"
proof -
  have *: "(8 * (w - q) + n mod 8) div 8 = w - q" "(8 * (w - q) + n mod 8) mod 8 = n mod 8" for w q n :: nat
    by simp_all
  show "length bs = 2 \<Longrightarrow> bswap16 (le_word bs) = be_word bs"
    by (rule bit_word_eqI) (auto simp: bit_bswap16 bit_le_word bit_be_word *)
  show "length bs = 4 \<Longrightarrow> bswap32 (le_word bs) = be_word bs"
    by (rule bit_word_eqI) (auto simp: bit_bswap32 bit_le_word bit_be_word *)
  show "length bs = 8 \<Longrightarrow> bswap64 (le_word bs) = be_word bs"
    by (rule bit_word_eqI) (auto simp: bit_bswap64 bit_le_word bit_be_word *)
qed

text \<open>Copying a field and converting it reads it big-endian, on a host of either byte order.\<close>

lemma net_to_host_mem:
  "length bs = 2 \<Longrightarrow> net_to_host16 big (mem_word big bs) = be_word bs"
  "length bs = 4 \<Longrightarrow> net_to_host32 big (mem_word big bs) = be_word bs"
  "length bs = 8 \<Longrightarrow> net_to_host64 big (mem_word big bs) = be_word bs"
  by (simp_all add: net_to_host16_def net_to_host32_def net_to_host64_def mem_word_def bswap_le_word)

text \<open>The bytes of a word, most significant first.\<close>

definition be_bytes :: "nat \<Rightarrow> 'a::len word \<Rightarrow> u8 list" where
  "be_bytes n x = map (\<lambda>i. ucast (drop_bit (8 * (n - Suc i)) x)) [0..<n]"

lemma length_be_bytes [simp]: "length (be_bytes n x) = n"
  by (simp add: be_bytes_def)

lemma be_word_be_bytes: "LENGTH('a) \<le> 8 * n \<Longrightarrow> be_word (be_bytes n (x :: 'a::len word)) = x"
proof (rule bit_word_eqI)
  fix i assume *: "LENGTH('a) \<le> 8 * n" "i < LENGTH('a)"
  then have "i div 8 < n" by linarith
  moreover from this have "8 * (n - Suc (n - Suc (i div 8))) + i mod 8 = i" by simp
  ultimately show "bit (be_word (be_bytes n x) :: 'a word) i = bit x i"
    using * by (simp add: bit_be_word be_bytes_def bit_simps)
qed

end
