(* ===== verification/TC_Book_Digest.thy ===== *)
theory TC_Book_Digest
  imports TC_Match_Line TC_Endian
begin

text \<open>
  \<open>orderbook/book_digest.hpp\<close>: the FNV-1a digest of a book, computed by walking both trees in
  price priority and the queue of each level. The bytes of a word are read through a pointer, so
  the byte order of the host is the parameter \<open>big\<close>. The lemmas show that the digest is a function
  of the abstract book alone: of the prices, ids and quantities in priority order.
\<close>

section \<open>The digest\<close>

definition kFnvOffsetBasis :: u64 where
  "kFnvOffsetBasis = 14695981039346656037"

definition kFnvPrime :: u64 where
  "kFnvPrime = 1099511628211"

text \<open>The bytes of a word in memory, by increasing address.\<close>

definition mem_bytes :: "bool \<Rightarrow> nat \<Rightarrow> 'a::len word \<Rightarrow> u8 list" where
  "mem_bytes big n x = (if big then be_bytes n x else rev (be_bytes n x))"

definition hash_combine :: "bool \<Rightarrow> u64 \<Rightarrow> u64 \<Rightarrow> u64" where
  "hash_combine big hash val =
     (let p = mem_bytes big 8 val in fold (\<lambda>i hash. (hash XOR ucast (p ! i)) * kFnvPrime) [0..<8] hash)"

text \<open>The loop over the queue of a level.\<close>

partial_function (option) hash_orders :: "bool \<Rightarrow> order_pool \<Rightarrow> u64 \<Rightarrow> u32 \<Rightarrow> u64 option" where
  "hash_orders big orders hash cur = (if cur \<noteq> kInvalidPoolIndex then do {
       ord \<leftarrow> pool_at orders cur;
       let hash = hash_combine big hash (ord_id ord);
       let hash = hash_combine big hash (ucast (ord_remaining_qty ord));
       hash_orders big orders hash (ord_next_in_level ord)
     } else Some hash)"

definition hash_level :: "bool \<Rightarrow> u64 \<Rightarrow> price_level \<Rightarrow> order_pool \<Rightarrow> u64 option" where
  "hash_level big hash lvl orders = do {
     let hash = hash_combine big hash (ucast (pl_price lvl));
     let hash = hash_combine big hash (ucast (pl_side lvl));
     let hash = hash_combine big hash (ucast (pl_total_qty lvl));
     hash_orders big orders hash (pl_head_order_idx lvl)
   }"

partial_function (option) traverse_bids :: "bool \<Rightarrow> u64 \<Rightarrow> u32 \<Rightarrow> level_pool \<Rightarrow> order_pool \<Rightarrow> u64 option" where
  "traverse_bids big hash node_idx levels orders =
     (if node_idx = kInvalidPoolIndex then Some hash
      else do {
        lvl \<leftarrow> pool_at levels node_idx;
        hash \<leftarrow> traverse_bids big hash (nd_right (pl_node lvl)) levels orders;
        hash \<leftarrow> hash_level big hash lvl orders;
        traverse_bids big hash (nd_left (pl_node lvl)) levels orders
      })"

partial_function (option) traverse_asks :: "bool \<Rightarrow> u64 \<Rightarrow> u32 \<Rightarrow> level_pool \<Rightarrow> order_pool \<Rightarrow> u64 option" where
  "traverse_asks big hash node_idx levels orders =
     (if node_idx = kInvalidPoolIndex then Some hash
      else do {
        lvl \<leftarrow> pool_at levels node_idx;
        hash \<leftarrow> traverse_asks big hash (nd_left (pl_node lvl)) levels orders;
        hash \<leftarrow> hash_level big hash lvl orders;
        traverse_asks big hash (nd_right (pl_node lvl)) levels orders
      })"

definition hash_side :: "bool \<Rightarrow> u64 \<Rightarrow> book_side \<Rightarrow> level_pool \<Rightarrow> order_pool \<Rightarrow> u64 option" where
  "hash_side big hash side levels orders =
     (let root = avl_root side in
      if root = kInvalidPoolIndex then Some hash
      else if bs_side side = 0 then traverse_bids big hash root levels orders
      else traverse_asks big hash root levels orders)"

definition compute_digest :: "bool \<Rightarrow> order_book \<Rightarrow> u64 option" where
  "compute_digest big b = do {
     let hash = kFnvOffsetBasis;
     hash \<leftarrow> hash_side big hash (ob_bids b) (ob_levels b) (ob_orders b);
     hash \<leftarrow> hash_side big hash (ob_asks b) (ob_levels b) (ob_orders b);
     Some hash
   }"

section \<open>The reference\<close>

text \<open>The words the digest mixes, in order, and mixing a list of words.\<close>

definition mix :: "bool \<Rightarrow> u64 list \<Rightarrow> u64 \<Rightarrow> u64" where
  "mix big ws h = fold (\<lambda>w h. hash_combine big h w) ws h"

lemma mix_simps [simp]: "mix big [] h = h" "mix big (w # ws) h = mix big ws (hash_combine big h w)"
  "mix big (us @ ws) h = mix big ws (mix big us h)"
  by (simp_all add: mix_def)

definition order_words :: "resting \<Rightarrow> u64 list" where
  "order_words r = [rs_id r, ucast (rs_qty r)]"

definition price_words :: "bool \<Rightarrow> abs_book \<Rightarrow> u32 \<Rightarrow> u64 list" where
  "price_words s B p = [ucast p, if s then 0 else 1, ucast (queue_qty (B s p))] @ concat (map order_words (B s p))"

definition side_words :: "bool \<Rightarrow> abs_book \<Rightarrow> u64 list" where
  "side_words s B = concat (map (price_words s B) (price_order s {p. B s p \<noteq> []}))"

definition digest_of :: "bool \<Rightarrow> abs_book \<Rightarrow> u64" where
  "digest_of big B = mix big (side_words True B @ side_words False B) kFnvOffsetBasis"

section \<open>The walk\<close>

lemma hash_orders_ok:
  assumes "chain (pool_at orders) i xs"
  shows "hash_orders big orders h i = Some (mix big (concat (map (\<lambda>x. order_words (resting_of (pool_at orders) x)) xs)) h)"
  using assms
proof (induction xs arbitrary: i h)
  case Nil
  then show ?case by (subst hash_orders.simps) simp
next
  case (Cons x xs)
  then obtain r where r: "i = x" "x \<noteq> kInvalidPoolIndex" "pool_at orders x = Some r"
    "chain (pool_at orders) (ord_next_in_level r) xs" by auto
  then have "order_words (resting_of (pool_at orders) x) = [ord_id r, ucast (ord_remaining_qty r)]"
    by (simp add: order_words_def resting_of_def)
  then show ?case using r Cons.IH [OF r(4)] by (subst hash_orders.simps) (simp add: Let_def)
qed

text \<open>A level that represents a price of the abstract book mixes the words of that price.\<close>

definition shows_price :: "bool \<Rightarrow> abs_book \<Rightarrow> order_pool \<Rightarrow> price_level \<Rightarrow> bool" where
  "shows_price s B orders l \<longleftrightarrow> pl_side l = (if s then 0 else 1) \<and> pl_total_qty l = queue_qty (B s (pl_price l)) \<and>
     (\<exists>xs. chain (pool_at orders) (pl_head_order_idx l) xs \<and> B s (pl_price l) = map (resting_of (pool_at orders)) xs)"

lemma hash_level_ok:
  assumes "shows_price s B orders l"
  shows "hash_level big h l orders = Some (mix big (price_words s B (pl_price l)) h)"
proof -
  obtain xs where xs: "chain (pool_at orders) (pl_head_order_idx l) xs" "B s (pl_price l) = map (resting_of (pool_at orders)) xs"
    using assms by (auto simp: shows_price_def)
  have "(ucast (pl_side l) :: u64) = (if s then 0 else 1)" "pl_total_qty l = queue_qty (B s (pl_price l))"
    using assms by (simp_all add: shows_price_def)
  moreover have "concat (map order_words (B s (pl_price l))) =
      concat (map (\<lambda>x. order_words (resting_of (pool_at orders) x)) xs)" by (simp add: xs(2) comp_def)
  ultimately show ?thesis using hash_orders_ok [OF xs(1)] by (simp add: hash_level_def price_words_def Let_def)
qed

definition walk_words :: "bool \<Rightarrow> abs_book \<Rightarrow> level_pool \<Rightarrow> u32 list \<Rightarrow> u64 list" where
  "walk_words s B levels js = concat (map (\<lambda>j. price_words s B (price_of levels j)) js)"

lemma walk_words_simps [simp]:
  "walk_words s B levels [] = []"
  "walk_words s B levels (js @ ks) = walk_words s B levels js @ walk_words s B levels ks"
  "walk_words s B levels (j # js) = price_words s B (price_of levels j) @ walk_words s B levels js"
  by (simp_all add: walk_words_def)

lemma traverse_ok:
  assumes "tree_at (pool_at levels) par i t"
    and "\<forall>j \<in> set_tree t. \<forall>l. pool_at levels j = Some l \<longrightarrow> shows_price s B orders l"
  shows "traverse_bids big h i levels orders = Some (mix big (walk_words s B levels (rev (inorder t))) h)"
    "traverse_asks big h i levels orders = Some (mix big (walk_words s B levels (inorder t)) h)"
proof -
  have "traverse_bids big h i levels orders = Some (mix big (walk_words s B levels (rev (inorder t))) h) \<and>
    traverse_asks big h i levels orders = Some (mix big (walk_words s B levels (inorder t)) h)"
    using assms
  proof (induction t arbitrary: par i h)
    case Leaf
    then show ?case by (subst traverse_bids.simps, subst traverse_asks.simps) simp
  next
    case (Node l x r)
    then obtain lv where lv: "i = x" "x \<noteq> kInvalidPoolIndex" "pool_at levels x = Some lv"
      "tree_at (pool_at levels) x (nd_left (pl_node lv)) l" "tree_at (pool_at levels) x (nd_right (pl_node lv)) r"
      by auto
    have p: "price_of levels x = pl_price lv" using lv(3) by simp
    have hl: "hash_level big h lv orders = Some (mix big (price_words s B (pl_price lv)) h)" for h
      by (rule hash_level_ok) (use Node.prems(2) lv(3) in simp)
    have IHl: "traverse_bids big h (nd_left (pl_node lv)) levels orders = Some (mix big (walk_words s B levels (rev (inorder l))) h)"
      "traverse_asks big h (nd_left (pl_node lv)) levels orders = Some (mix big (walk_words s B levels (inorder l)) h)" for h
      using Node.IH(1) [OF lv(4)] Node.prems(2) by (simp_all add: ball_Un)
    have IHr: "traverse_bids big h (nd_right (pl_node lv)) levels orders = Some (mix big (walk_words s B levels (rev (inorder r))) h)"
      "traverse_asks big h (nd_right (pl_node lv)) levels orders = Some (mix big (walk_words s B levels (inorder r)) h)" for h
      using Node.IH(2) [OF lv(5)] Node.prems(2) by (simp_all add: ball_Un)
    show ?case
      using lv(1-3) IHl IHr by (subst traverse_bids.simps, subst traverse_asks.simps) (simp add: hl p)
  qed
  then show "traverse_bids big h i levels orders = Some (mix big (walk_words s B levels (rev (inorder t))) h)"
    "traverse_asks big h i levels orders = Some (mix big (walk_words s B levels (inorder t)) h)" by simp_all
qed

section \<open>The digest of a represented book\<close>

lemma level_shows_price:
  assumes inv: "book_inv b T Q" and j: "j \<in> set_tree (T s)" and l: "lvls b j = Some l"
  shows "shows_price s (abs_of b T Q) (ob_orders b) l"
proof -
  have c: "trees_ok b T" "queues_ok b Q" "totals_ok b Q" using inv by (auto simp: book_inv_def book_core_def)
  have "map_option pl_side (lvls b j) = Some (bs_side (sides b s))"
    using trees_okD(1) [OF c(1), of s] j by (simp add: side_rep_def)
  then have tag: "pl_side l = (if s then 0 else 1)" using l trees_okD(2) [OF c(1), of s] by simp
  have q: "abs_of b T Q s (pl_price l) = map (resting_of (ords b)) (Q j)"
    using abs_of_level [OF c(1) l, of Q] tag by (cases s) simp_all
  have "\<exists>r. ords b x = Some r" if "x \<in> set (Q j)" for x using queue_at(2) [OF c(2) l] that by auto
  then have "map (remaining (ords b)) (Q j) = map rs_qty (map (resting_of (ords b)) (Q j))"
    by (fastforce simp: resting_of_def)
  then have "pl_total_qty l = queue_qty (abs_of b T Q s (pl_price l))"
    using c(3) l by (simp only: totals_ok_def queue_qty_def q)
  moreover have "chain (ords b) (pl_head_order_idx l) (Q j)" using queue_at(1) [OF c(2) l] by (simp add: queue_ok_def)
  ultimately show ?thesis using tag q by (auto simp: shows_price_def)
qed

lemma sorted_by_map: "sorted_by f xs \<Longrightarrow> sorted (map f xs) \<and> distinct (map f xs)"
  by (induction xs) (auto intro: order.strict_implies_order)

lemma side_price_order:
  assumes inv: "book_inv b T Q"
  shows "map (price_of (ob_levels b)) (if s then rev (inorder (T s)) else inorder (T s)) =
    price_order s {p. abs_of b T Q s p \<noteq> []}"
proof -
  have c: "trees_ok b T" using inv by (auto simp: book_inv_def book_core_def)
  let ?ps = "map (price_of (ob_levels b)) (inorder (T s))"
  have "set ?ps = {p. abs_of b T Q s p \<noteq> []}" using level_iff_queue [OF inv, of _ s] by auto
  moreover have "sorted ?ps" "distinct ?ps" using sorted_by_map [OF side_rep_sorted [OF trees_okD(1) [OF c, of s]]] by simp_all
  ultimately have "sorted_list_of_set {p. abs_of b T Q s p \<noteq> []} = ?ps"
    by (metis sorted_list_of_set.idem_if_sorted_distinct)
  then show ?thesis by (cases s) (simp_all add: price_order_def rev_map)
qed

lemma hash_side_ok:
  assumes inv: "book_inv b T Q"
  shows "hash_side big h (sides b s) (ob_levels b) (ob_orders b) = Some (mix big (side_words s (abs_of b T Q)) h)"
proof -
  have c: "trees_ok b T" using inv by (auto simp: book_inv_def book_core_def)
  note rep = trees_okD(1) [OF c, of s]
  have "\<forall>j \<in> set_tree (T s). \<forall>l. lvls b j = Some l \<longrightarrow> shows_price s (abs_of b T Q) (ob_orders b) l"
    using level_shows_price [OF inv] by blast
  note walk = traverse_ok [where big = big and h = h, OF side_rep_tree [OF rep] this]
  let ?js = "if s then rev (inorder (T s)) else inorder (T s)"
  have "walk_words s (abs_of b T Q) (ob_levels b) ?js =
      concat (map (price_words s (abs_of b T Q)) (map (price_of (ob_levels b)) ?js))"
    by (simp add: walk_words_def comp_def)
  then have w: "side_words s (abs_of b T Q) = walk_words s (abs_of b T Q) (ob_levels b) ?js"
    unfolding side_price_order [OF inv] by (simp add: side_words_def)
  have e: "avl_root (sides b s) = kInvalidPoolIndex \<Longrightarrow> T s = Leaf"
    using tree_at_Leaf_iff [OF side_rep_tree [OF rep]] by simp
  show ?thesis using walk e trees_okD(2) [OF c, of s] unfolding w by (cases s) (auto simp: hash_side_def Let_def)
qed

lemma compute_digest_ok:
  assumes "book_rep b B"
  shows "compute_digest big b = Some (digest_of big B)"
proof -
  obtain T Q where inv: "book_inv b T Q" and B: "B = abs_of b T Q" using assms by (auto simp: book_rep_def)
  have s: "sides b True = ob_bids b" "sides b False = ob_asks b" by (simp_all add: sides_def)
  show ?thesis
    using hash_side_ok [OF inv, of big _ True] hash_side_ok [OF inv, of big _ False]
    by (simp add: compute_digest_def digest_of_def B s)
qed

text \<open>C32: The digest of a book. It is always computed, never fails, and depends on the abstract
  book alone: FNV-1a over price, side, total, and then id and quantity of each order in time
  priority, for the bids from high to low and then the asks from low to high. So two books that
  hold the same orders have the same digest, however their pools, trees and tables are laid out.\<close>

theorem digest_correct:
  assumes "book_rep b B"
  shows "compute_digest big b = Some (digest_of big B)"
  by (rule compute_digest_ok [OF assms])

theorem digest_correct_witness:
  "\<exists>b. book_rep b demo_abs \<and> compute_digest False b = Some 2004329672631241510"
proof -
  obtain b where b: "book_rep b demo_abs" using demo_book by blast
  have "{p. demo_abs True p \<noteq> []} = {100}" "{p. demo_abs False p \<noteq> []} = {}"
    by (auto simp: demo_abs_def a_add_apply empty_book_def)
  moreover have "demo_abs True 100 = [\<lparr>rs_id = 7, rs_qty = 5, rs_time = 0\<rparr>]"
    by (simp add: demo_abs_def a_add_apply empty_book_def)
  ultimately have "side_words True demo_abs @ side_words False demo_abs = [100, 0, 5, 7, 5]"
    by (simp add: side_words_def price_words_def order_words_def price_order_def queue_qty_def)
  moreover have "mix False [100, 0, 5, 7, 5] kFnvOffsetBasis = 2004329672631241510" by code_simp
  ultimately show ?thesis using digest_correct [OF b, of False] b by (auto simp: digest_of_def)
qed

end
