(* ===== verification/TC_Replay_Digest.thy ===== *)
theory TC_Replay_Digest
  imports TC_Replay TC_Book_Digest
begin

text \<open>
  Replays are deterministic: the timestamps of resting orders are the only place where the clock
  reaches the book, no operation looks at them, and the digest does not hash them. \<open>untimed\<close> erases
  them from an abstract book; every abstract operation commutes with it.
\<close>

section \<open>Books without timestamps\<close>

definition untime :: "resting \<Rightarrow> resting" where
  "untime r = r\<lparr>rs_time := 0\<rparr>"

definition untimed :: "abs_book \<Rightarrow> abs_book" where
  "untimed B = (\<lambda>s p. map untime (B s p))"

lemma untime_simps [simp]: "rs_id (untime r) = rs_id r" "rs_qty (untime r) = rs_qty r"
  by (simp_all add: untime_def)

lemma untimed_apply [simp]: "untimed B s p = map untime (B s p)"
  by (simp add: untimed_def)

lemma untimed_add: "untimed (a_add s p r B) = a_add s p (untime r) (untimed B)"
  by (simp add: fun_eq_iff a_add_apply)

lemma untimed_delete: "untimed (a_delete k B) = a_delete k (untimed B)"
  by (simp add: fun_eq_iff a_delete_def filter_map comp_def)

lemma untimed_reduce: "untimed (a_reduce k q B) = a_reduce k q (untimed B)"
proof -
  have "map untime (filter (\<lambda>r. rs_qty r \<noteq> 0) (map (\<lambda>r. if rs_id r = k then r\<lparr>rs_qty := rs_qty r - q\<rparr> else r) xs)) =
    filter (\<lambda>r. rs_qty r \<noteq> 0) (map (\<lambda>r. if rs_id r = k then r\<lparr>rs_qty := rs_qty r - q\<rparr> else r) (map untime xs))" for xs
    by (induction xs) (auto simp: untime_def)
  then show ?thesis by (simp add: fun_eq_iff a_reduce_def)
qed

lemma untimed_fills: "untimed (apply_fills fs B) = apply_fills fs (untimed B)"
  by (induction fs arbitrary: B) (auto simp: apply_fills_def untimed_reduce)

lemma ids_untimed [simp]: "ids (untimed B) = ids B"
  by (simp add: ids_def image_image)

lemma prices_untimed [simp]: "prices (untimed B) = prices B"
  by (simp add: prices_def)

lemma resting_untimed [simp]: "resting_at (untimed B) k s p n = resting_at B k s p n"
    "resting_qty (untimed B) k n = resting_qty B k n"
  by (auto simp: resting_at_def resting_qty_def)

lemma accepted_untimed [simp]: "add_accepted L upd (untimed B) = add_accepted L upd B"
  by (simp add: add_accepted_def)

lemma queue_qty_untime [simp]: "queue_qty (map untime xs) = queue_qty xs"
  by (simp add: queue_qty_def comp_def)

lemma side_qty_untimed [simp]: "side_qty s (untimed B) = side_qty s B"
  by (simp add: side_qty_def)

lemma line_untimed: "line s c (untimed B) = map (map_prod id untime) (line s c B)"
  by (simp add: line_def line_prices_def map_concat comp_def)

lemma fills_untime [simp]: "fills q (map (map_prod id untime) xs) = fills q xs"
    "unfilled q (map (map_prod id untime) xs) = unfilled q xs"
  by (induction q xs rule: fills.induct) auto

lemma ref_untimed [simp]: "ref_fills a (untimed B) = ref_fills a B" "ref_left a (untimed B) = ref_left a B"
    "rests a (untimed B) = rests a B"
  by (simp_all add: ref_fills_def ref_left_def rests_def cross_line_def line_untimed)

lemma prescan_untimed [simp]: "prescan_fails a (untimed B) = prescan_fails a B"
  by (simp add: prescan_fails_def)

lemma digest_untimed [simp]: "digest_of big (untimed B) = digest_of big B"
  by (simp add: digest_of_def side_words_def price_words_def [abs_def] order_words_def [abs_def] comp_def)

section \<open>Books that differ in timestamps\<close>

definition alike :: "order_book \<Rightarrow> order_book \<Rightarrow> bool" where
  "alike b c \<longleftrightarrow> limits_of b = limits_of c \<and> (\<exists>B C. book_rep b B \<and> book_rep c C \<and> untimed B = untimed C)"

lemma alike_digest: "alike b c \<Longrightarrow> compute_digest big b = compute_digest big c \<and> compute_digest big b \<noteq> None"
  unfolding alike_def by (metis compute_digest_ok digest_untimed option.distinct(1))

text \<open>A book after a match, without its timestamps.\<close>

definition untimed_match :: "order_action \<Rightarrow> abs_book \<Rightarrow> abs_book" where
  "untimed_match a B = (if rests a B
     then a_add (act_side a = 0) (act_price a) \<lparr>rs_id = act_order_id a, rs_qty = ref_left a B, rs_time = 0\<rparr>
       (apply_fills (ref_fills a B) (untimed B))
     else apply_fills (ref_fills a B) (untimed B))"

lemma untimed_ref_book: "untimed (ref_book clock e a B) = untimed_match a B"
  by (simp add: ref_book_def untimed_match_def untimed_add untimed_fills ref_rest_def rest_update_def
    resting_update_def untime_def book_update_init_def)

lemma match_untimed:
  assumes rep: "book_rep (me_book e) B" and run: "match_order clock rules a e = Some (R, e')"
  shows "limits_of (me_book e') = limits_of (me_book e) \<and> (\<exists>B'. book_rep (me_book e') B' \<and> untimed B' =
    (if \<not> risk_ok (risk_evaluate rules a) \<or> prescan_fails a B then untimed B else untimed_match a B))"
proof (cases "\<not> risk_ok (risk_evaluate rules a) \<or> prescan_fails a B")
  case True
  then have "e' = e" using run unfolding match_order_eq [OF rep] by (auto split: if_splits)
  then show ?thesis using True rep by auto
next
  case False
  then have "match_rest_of clock a e = Some (R, e')" using run unfolding match_order_eq [OF rep] by simp
  then show ?thesis
    using match_rest_ok [OF rep, of clock a] False untimed_ref_book by (fastforce simp: matches_as_def split: if_splits)
qed

lemma alike_match:
  assumes "alike (me_book e) (me_book f)" "match_order ck rules a e = Some (R, e')" "match_order cl rules a f = Some (S, f')"
  shows "alike (me_book e') (me_book f')"
proof -
  obtain B C where r: "book_rep (me_book e) B" "book_rep (me_book f) C" "untimed B = untimed C"
    "limits_of (me_book e) = limits_of (me_book f)" using assms(1) by (auto simp: alike_def)
  have "prescan_fails a B = prescan_fails a C" "untimed_match a B = untimed_match a C"
    using prescan_untimed ref_untimed r(3) unfolding untimed_match_def by metis+
  then show ?thesis
    using match_untimed [OF r(1) assms(2)] match_untimed [OF r(2) assms(3)] r(3,4) unfolding alike_def by metis
qed

section \<open>Messages on books that are alike\<close>

lemma resting_at_unique:
  assumes "ids_unique B" "resting_at B k s p n" "resting_at B k s' p' n'"
  shows "s' = s \<and> p' = p \<and> n' = n"
proof -
  obtain x y where x: "x \<in> set (B s p)" "rs_id x = k" "rs_qty x = n" and y: "y \<in> set (B s' p')" "rs_id y = k" "rs_qty y = n'"
    using assms(2,3) by (auto simp: resting_at_def)
  have "s' = s \<and> p' = p" using assms(1) x y unfolding ids_unique_def by metis
  moreover have "distinct (map rs_id (B s p))" using assms(1) by (simp add: ids_unique_def)
  ultimately have "x = y" using x y by (auto simp: distinct_map inj_on_def)
  then show ?thesis using x y \<open>s' = s \<and> p' = p\<close> by simp
qed

lemma step_untimed:
  assumes s: "book_step L rt u B B'" "book_step L rt u C C'" and eq: "untimed B = untimed C" and rt: "fresh_type rt" and uc: "ids_unique C"
  shows "untimed B' = untimed C'"
  using s(1)
proof cases
  case Add
  then have "C' = a_add (upd_side u = 0) (upd_price u) (resting_update u) C" using s(2) rt by (auto simp: book_step_iff fresh_type_def)
  then show ?thesis using Add eq by (simp add: untimed_add)
next
  case (Reduce n)
  then have "C' = a_reduce (upd_order_id u) (upd_qty u) C" using s(2) rt by (auto simp: book_step_iff fresh_type_def)
  then show ?thesis using Reduce eq by (simp add: untimed_reduce)
next
  case Delete
  then have "C' = a_delete (upd_order_id u) C" using s(2) rt by (auto simp: book_step_iff fresh_type_def)
  then show ?thesis using Delete eq by (simp add: untimed_delete)
next
  case Replace
  then have "C' = a_add (upd_side u = 0) (upd_price u) (resting_update (u\<lparr>upd_order_id := upd_match_id u\<rparr>)) (a_delete (upd_order_id u) C)"
    using s(2) rt by (auto simp: book_step_iff fresh_type_def)
  then show ?thesis using Replace eq by (simp add: untimed_add untimed_delete)
next
  case (Modify s p n)
  then obtain s' p' n' where c: "resting_at C (upd_order_id u) s' p' n'" "C' = (if upd_qty u < n' then a_reduce (upd_order_id u) (n' - upd_qty u) C
      else if n' < upd_qty u then a_add s' p' (resting_update u) (a_delete (upd_order_id u) C) else C)"
    using s(2) rt by (auto simp: book_step_iff fresh_type_def)
  have "resting_at C (upd_order_id u) s p n" using Modify(3) resting_untimed(1) eq by metis
  then have "s' = s \<and> p' = p \<and> n' = n" using resting_at_unique [OF uc] c(1) by blast
  then show ?thesis using Modify(1) c(2) eq by (simp add: untimed_add untimed_delete untimed_reduce)
next
  case Ignore
  then have "C' = C" using s(2) by (auto simp: book_step_iff)
  then show ?thesis using Ignore eq by simp
qed

lemma alike_dispatch:
  assumes "alike b c" "dispatch rt u b = Some b'" "dispatch rt u c = Some c'" "fresh_type rt"
  shows "alike b' c'"
proof -
  obtain B C where r: "book_rep b B" "book_rep c C" "untimed B = untimed C" "limits_of b = limits_of c"
    using assms(1) by (auto simp: alike_def)
  obtain B' where B': "limits_of b' = limits_of b" "book_step (limits_of b) rt u B B'" "book_rep b' B'"
    using dispatch_implements [OF r(1) assms(4), of u] assms(2) by (auto simp: implements_def)
  obtain C' where C': "limits_of c' = limits_of c" "book_step (limits_of c) rt u C C'" "book_rep c' C'"
    using dispatch_implements [OF r(2) assms(4), of u] assms(3) by (auto simp: implements_def)
  have "untimed B' = untimed C'"
    using step_untimed [OF B'(2) _ r(3) assms(4) rep_unique [OF r(2)]] C'(2) r(4) by simp
  then show ?thesis using B'(1,3) C'(1,3) r(4) unfolding alike_def by metis
qed

lemma alike_outcome:
  assumes "alike b c" "update_outcome ck rules rt u b b'" "update_outcome cl rules rt u c c'" "fresh_type rt"
  shows "alike b' c'"
proof (cases "upd_type u = AddOrder")
  case True
  then show ?thesis using assms(1-3) alike_match unfolding update_outcome_def by (metis (no_types, lifting))
next
  case False
  then show ?thesis using assms alike_dispatch unfolding update_outcome_def by metis
qed

section \<open>Replays on books that are alike\<close>

definition alike_replays :: "'s replay_engine \<Rightarrow> 't replay_engine \<Rightarrow> bool" where
  "alike_replays r s \<longleftrightarrow> alike (me_book (re_matcher r)) (me_book (re_matcher s)) \<and>
     re_messages_processed r = re_messages_processed s"

lemma alike_one:
  assumes "alike_replays r s" "fresh_type rt"
    "replay_one ck rules rt unknown parse p r = Some r'" "replay_one cl rules rt unknown parse p s = Some s'"
  shows "alike_replays r' s'"
  using replay_one_outcome [OF assms(3)] replay_one_outcome [OF assms(4)] assms(1,2) alike_outcome
  by (cases "upd_type (parse p) = unknown") (auto simp: alike_replays_def)

lemma alike_payloads:
  assumes "fresh_type rt"
  shows "alike_replays r s \<Longrightarrow> replay_payloads nxt (replay_one ck rules rt unknown parse) n ps r = Some r' \<Longrightarrow>
    replay_payloads nxt' (replay_one cl rules rt unknown parse) n ps s = Some s' \<Longrightarrow> alike_replays r' s'"
proof (induction ps arbitrary: r s)
  case (Cons p ps)
  let ?r = "r\<lparr>re_source := snd (nxt (re_source r))\<rparr>" and ?s = "s\<lparr>re_source := snd (nxt' (re_source s))\<rparr>"
  have al: "alike_replays ?r ?s" and n: "re_messages_processed r = re_messages_processed s"
    using Cons.prems(1) by (simp_all add: alike_replays_def)
  show ?case
  proof (cases "re_messages_processed s < n \<and> p \<noteq> []")
    case True
    then obtain r1 s1 where "replay_one ck rules rt unknown parse p ?r = Some r1"
      "replay_payloads nxt (replay_one ck rules rt unknown parse) n ps r1 = Some r'"
      "replay_one cl rules rt unknown parse p ?s = Some s1"
      "replay_payloads nxt' (replay_one cl rules rt unknown parse) n ps s1 = Some s'"
      using Cons.prems(2,3) n by (auto simp: bind_Some_iff Let_def)
    then show ?thesis using Cons.IH alike_one [OF al assms] by blast
  next
    case False
    then show ?thesis using Cons.prems n al by (auto simp: Let_def split: if_splits)
  qed
qed simp

section \<open>Stepping\<close>

text \<open>\<open>step()\<close> until it says that there is no message, at most \<open>k\<close> times.\<close>

fun replay_steps :: "('s \<Rightarrow> u8 list \<times> 's) \<Rightarrow> (nat \<Rightarrow> u64) \<Rightarrow> risk_rule list \<Rightarrow> update_type \<Rightarrow> update_type \<Rightarrow>
    (u8 list \<Rightarrow> book_update) \<Rightarrow> nat \<Rightarrow> 's replay_engine \<Rightarrow> 's replay_engine option" where
  "replay_steps nxt clock rules rt unknown parse 0 r = Some r"
| "replay_steps nxt clock rules rt unknown parse (Suc k) r = do {
     (again, r) \<leftarrow> replay_step nxt clock rules rt unknown parse r;
     if again then replay_steps nxt clock rules rt unknown parse k r else Some r
   }"

lemma replay_step_outcome:
  assumes "replay_step nxt clock rules rt unknown parse r = Some (again, r')" "nxt (re_source r) = (p, s)"
  shows "again = (p \<noteq> []) \<and> re_source r' = s \<and> (if p = [] \<or> upd_type (parse p) = unknown
    then me_book (re_matcher r') = me_book (re_matcher r)
    else update_outcome clock rules rt (parse p) (me_book (re_matcher r)) (me_book (re_matcher r')))"
proof -
  define q where "q = (if re_messages_processed r = 0 then r\<lparr>re_clock := clock_new SingleStep 1\<rparr> else r)"
  have q: "re_source q = re_source r" "re_matcher q = re_matcher r" by (simp_all add: q_def)
  show ?thesis
  proof (cases "p = [] \<or> upd_type (parse p) = unknown \<or> upd_type (parse p) \<noteq> AddOrder")
    case True
    then show ?thesis using assms q
      by (auto simp: replay_step_def q_def [symmetric] Let_def bind_Some_iff update_outcome_def split: if_splits)
  next
    case False
    then obtain result e where "match_order clock rules (limit_action (parse p)) (re_matcher r) = Some (result, e)"
      "again \<and> re_source r' = s \<and> me_book (re_matcher r') = me_book e"
      using assms q by (auto simp: replay_step_def q_def [symmetric] Let_def bind_Some_iff split: if_splits)
    then show ?thesis using False unfolding update_outcome_def by (auto intro!: exI [of _ "re_matcher r"])
  qed
qed

lemma stepping_alike:
  assumes "fresh_type rt"
  shows "alike (me_book (re_matcher r)) (me_book (re_matcher t)) \<Longrightarrow> unread (re_source t) = ps \<Longrightarrow> length ps \<le> k \<Longrightarrow>
    unat (re_messages_processed r) + length ps < 2 ^ 64 - 1 \<Longrightarrow>
    replay_payloads nxt (replay_one ck rules rt unknown parse) (- 1) ps r = Some r' \<Longrightarrow>
    replay_steps next_payload cl rules rt unknown parse k t = Some t' \<Longrightarrow>
    alike (me_book (re_matcher r')) (me_book (re_matcher t'))"
proof (induction ps arbitrary: r t k)
  case Nil
  have e: "next_payload (re_source t) = ([], re_source t)" by (rule memory.next_end [OF Nil.prems(2)])
  show ?case
  proof (cases k)
    case (Suc j)
    then obtain again t1 where t1: "replay_step next_payload cl rules rt unknown parse t = Some (again, t1)"
      "(if again then replay_steps next_payload cl rules rt unknown parse j t1 else Some t1) = Some t'"
      using Nil.prems(6) by (auto simp: bind_Some_iff)
    from replay_step_outcome [OF t1(1) e] show ?thesis using t1(2) Nil.prems(1,5) by simp
  qed (use Nil.prems in simp)
next
  case (Cons p ps)
  obtain u where u: "next_payload (re_source t) = (p, u)" "unread u = ps" using memory.next_payload [OF Cons.prems(2)] by blast
  obtain j where j: "k = Suc j" using Cons.prems(3) by (cases k) auto
  obtain again t1 where t1: "replay_step next_payload cl rules rt unknown parse t = Some (again, t1)"
    "(if again then replay_steps next_payload cl rules rt unknown parse j t1 else Some t1) = Some t'"
    using Cons.prems(6) j by (auto simp: bind_Some_iff)
  note out = replay_step_outcome [OF t1(1) u(1)]
  have "unat (re_messages_processed r) \<noteq> unat (- 1 :: u64)" using Cons.prems(4) by (simp add: unsigned_minus_1_eq_mask mask_eq_exp_minus_1)
  then have lt: "re_messages_processed r < - 1" by (metis word_order.not_eq_extremum)
  let ?r = "r\<lparr>re_source := snd (nxt (re_source r))\<rparr>"
  show ?case
  proof (cases "p = []")
    case True
    then show ?thesis using Cons.prems(1,5) lt t1(2) out by (auto simp: Let_def)
  next
    case False
    then obtain r1 where r1: "replay_one ck rules rt unknown parse p ?r = Some r1"
      "replay_payloads nxt (replay_one ck rules rt unknown parse) (- 1) ps r1 = Some r'"
      using Cons.prems(5) lt by (auto simp: bind_Some_iff Let_def)
    note out' = replay_one_outcome [OF r1(1)]
    have al: "alike (me_book (re_matcher r1)) (me_book (re_matcher t1))"
      using out out' alike_outcome [OF Cons.prems(1) _ _ assms] Cons.prems(1) False by (auto split: if_splits)
    have "unat (re_messages_processed r1) \<le> unat (re_messages_processed r) + 1"
      using out' Cons.prems(4) by (auto simp: unat_word_ariths split: if_splits)
    then show ?thesis
      using Cons.IH [OF al _ _ _ r1(2), of j] out u(2) False t1(2) Cons.prems(3,4) j by simp
  qed
qed

text \<open>Stepping through a source and running it lead to the same digest.\<close>

lemma stepping_digest:
  assumes "book_rep (me_book (re_matcher r)) B" "book_rep (me_book (re_matcher t)) B"
    "limits_of (me_book (re_matcher r)) = limits_of (me_book (re_matcher t))"
    "unread (re_source r) = unread (re_source t)" "fresh_type rt" "length (unread (re_source t)) \<le> k"
    "unat (re_messages_processed r) + length (unread (re_source t)) < 2 ^ 64 - 1"
    "replay_run next_payload ck rules rt unknown parse (- 1) r = Some r'"
    "replay_steps next_payload cl rules rt unknown parse k t = Some t'"
  shows "compute_digest big (me_book (re_matcher r')) = compute_digest big (me_book (re_matcher t'))"
proof -
  have "alike (me_book (re_matcher r)) (me_book (re_matcher t))" using assms(1-3) by (auto simp: alike_def)
  from stepping_alike [OF assms(5) this refl assms(6,7) _ assms(9)] assms(4,8)
  have "alike (me_book (re_matcher r')) (me_book (re_matcher t'))" unfolding memory.replay_run_pending [OF refl] by simp
  then show ?thesis using alike_digest by blast
qed

section \<open>Determinism\<close>

text \<open>C8: Replays are deterministic. Take two replays of the same messages, under any two clocks and
  playback modes, with or without telemetry, from books that represent the same abstract book with
  the same limits, whatever their internal layout. If both return, they have processed the same
  number of messages and the digests of the two books are defined and equal.\<close>

theorem replay_deterministic:
  assumes "book_rep (me_book (re_matcher r)) B" "book_rep (me_book (re_matcher s)) B"
    "limits_of (me_book (re_matcher r)) = limits_of (me_book (re_matcher s))"
    "unread (re_source r) = unread (re_source s)" "re_messages_processed r = re_messages_processed s" "fresh_type rt"
    "replay_run next_payload ck rules rt unknown parse n r = Some r'"
    "replay_run next_payload cl rules rt unknown parse n s = Some s'"
  shows "re_messages_processed r' = re_messages_processed s' \<and>
    (\<exists>d. compute_digest big (me_book (re_matcher r')) = Some d \<and> compute_digest big (me_book (re_matcher s')) = Some d)"
proof -
  have "alike_replays r s" using assms(1-3,5) by (auto simp: alike_replays_def alike_def)
  then have "alike_replays r' s'"
    using alike_payloads [OF assms(6)] assms(4,7,8) unfolding memory.replay_run_pending [OF refl] by metis
  then show ?thesis using alike_digest [of "me_book (re_matcher r')" "me_book (re_matcher s')" big]
    unfolding alike_replays_def by (metis not_Some_eq)
qed

theorem replay_deterministic_witness:
  "\<exists>b r' s' d. replay_run next_payload (\<lambda>n. 0) [] 9 0 (\<lambda>p. demo_sell) 10 (demo_replay MaxThroughput (demo_engine b)) = Some r' \<and>
    replay_run next_payload word_of_nat [] 9 0 (\<lambda>p. demo_sell) 10 (demo_replay RealTime (demo_engine b)) = Some s' \<and>
    compute_digest False (me_book (re_matcher r')) = Some d \<and> compute_digest False (me_book (re_matcher s')) = Some d"
proof -
  obtain b where b: "book_rep b demo_abs" using demo_book by blast
  obtain r' where r': "replay_run next_payload (\<lambda>n. 0) [] 9 0 (\<lambda>p. demo_sell) 10 (demo_replay MaxThroughput (demo_engine b)) = Some r'"
    using demo_replay_runs [OF b] by blast
  obtain s' where s': "replay_run next_payload word_of_nat [] 9 0 (\<lambda>p. demo_sell) 10 (demo_replay RealTime (demo_engine b)) = Some s'"
    using demo_replay_runs [OF b] by blast
  note defs = demo_replay_def replay_new_def demo_engine_def
  have "fresh_type 9" by (simp add: fresh_type_def update_type_defs)
  from replay_deterministic [OF _ _ _ _ _ this r' s', of demo_abs False] b
  obtain d where "compute_digest False (me_book (re_matcher r')) = Some d" "compute_digest False (me_book (re_matcher s')) = Some d"
    by (auto simp: defs)
  with r' s' show ?thesis by blast
qed

end
