(* ===== verification/TC_Moldudp.thy ===== *)
theory TC_Moldudp
  imports TC_Endian
begin

text \<open>
  \<open>network/moldudp64.hpp\<close>: splitting a MoldUDP64 packet into its messages. A packet is the list of
  its bytes. The callback is a parameter of the decoder, a function on the state of its owner; it
  is called with the sequence number and the bytes of each message, in order.
\<close>

section \<open>The decoder\<close>

record mold_decoder =
  expected_seq :: u64

definition mold_decoder_new :: mold_decoder where
  "mold_decoder_new = \<lparr>expected_seq = 1\<rparr>"

definition set_expected_sequence :: "u64 \<Rightarrow> mold_decoder \<Rightarrow> mold_decoder" where
  "set_expected_sequence seq d = d\<lparr>expected_seq := seq\<rparr>"

text \<open>The packed header: ten bytes of session name, the sequence number and the message count.\<close>

record mold_header =
  hd_session :: "u8 list"
  hd_sequence_number :: u64
  hd_message_count :: u16

definition mold_header_size :: nat where
  "mold_header_size = 20"

definition read_header :: "bool \<Rightarrow> u8 list \<Rightarrow> mold_header option" where
  "read_header big packet = do {
     session \<leftarrow> read_bytes packet 0 10;
     seq \<leftarrow> read_bytes packet 10 8;
     count \<leftarrow> read_bytes packet 18 2;
     Some \<lparr>hd_session = session, hd_sequence_number = mem_word big seq, hd_message_count = mem_word big count\<rparr>
   }"

lemma count_up: "(i :: u16) < n \<Longrightarrow> unat n - unat (i + 1) < unat n - unat i"
proof -
  assume "i < n"
  then have "unat i < unat n" by (simp add: word_less_nat_alt)
  moreover have "unat n < 2 ^ 16" using unsigned_less [of n] by simp
  ultimately show ?thesis by (simp add: unat_word_ariths)
qed

text \<open>The loop over the message blocks; the result says whether it reached the end.\<close>

function decode_loop :: "bool \<Rightarrow> (u64 \<Rightarrow> u8 list \<Rightarrow> 's \<Rightarrow> 's) \<Rightarrow> u64 \<Rightarrow> u16 \<Rightarrow> u8 list \<Rightarrow> u16 \<Rightarrow> nat \<Rightarrow> 's \<Rightarrow>
    (bool \<times> 's) option" where
  "decode_loop big on_message seq_num msg_count packet i offset s =
     (if i < msg_count then
        if offset + 2 > length packet then Some (False, s)
        else do {
          bs \<leftarrow> read_bytes packet offset 2;
          let msg_len = net_to_host16 big (mem_word big bs);
          let offset = offset + 2;
          if offset + unat msg_len > length packet then Some (False, s)
          else do {
            payload \<leftarrow> read_bytes packet offset (unat msg_len);
            decode_loop big on_message seq_num msg_count packet (i + 1) (offset + unat msg_len)
              (on_message (seq_num + ucast i) payload s)
          }
        }
      else Some (True, s))"
  by pat_completeness auto

termination decode_loop
  by (relation "measure (\<lambda>(_, _, _, n, _, i, _, _). unat n - unat i)") (simp_all add: count_up)

declare decode_loop.simps [simp del]

definition mold_decode :: "bool \<Rightarrow> (u64 \<Rightarrow> u8 list \<Rightarrow> 's \<Rightarrow> 's) \<Rightarrow> u8 list \<Rightarrow> 's \<Rightarrow> mold_decoder \<Rightarrow>
    (bool \<times> 's \<times> mold_decoder) option" where
  "mold_decode big on_message packet s d =
     (if length packet < mold_header_size then Some (False, s, d)
      else do {
        header \<leftarrow> read_header big packet;
        let seq_num = net_to_host64 big (hd_sequence_number header);
        let msg_count = net_to_host16 big (hd_message_count header);
        (ok, s) \<leftarrow> decode_loop big on_message seq_num msg_count packet 0 mold_header_size s;
        if \<not> ok then Some (False, s, d)
        else Some (True, s, d\<lparr>expected_seq := seq_num + ucast msg_count\<rparr>)
      })"

section \<open>The message blocks of a packet\<close>

text \<open>What the wire format says: \<open>n\<close> blocks of a big-endian length and as many bytes. A body that
  ends early yields the complete blocks and false.\<close>

fun blocks :: "nat \<Rightarrow> u8 list \<Rightarrow> u8 list list \<times> bool" where
  "blocks 0 p = ([], True)"
| "blocks (Suc n) p = (if length p < 2 then ([], False) else
     let l = unat (be_word (take 2 p) :: u16); rest = drop 2 p in
     if length rest < l then ([], False)
     else (take l rest # fst (blocks n (drop l rest)), snd (blocks n (drop l rest))))"

fun deliver :: "(u64 \<Rightarrow> u8 list \<Rightarrow> 's \<Rightarrow> 's) \<Rightarrow> u64 \<Rightarrow> u8 list list \<Rightarrow> 's \<Rightarrow> 's" where
  "deliver f seq [] s = s"
| "deliver f seq (m # ms) s = deliver f (seq + 1) ms (f seq m s)"

definition block :: "u8 list \<Rightarrow> u8 list" where
  "block m = be_bytes 2 (word_of_nat (length m) :: u16) @ m"

lemma blocks_encode:
  assumes "\<forall>m \<in> set ms. length m < 2 ^ 16"
  shows "blocks (length ms) (concat (map block ms) @ rest) = (ms, True)"
  using assms
proof (induction ms)
  case (Cons m ms)
  have "be_word (be_bytes 2 (word_of_nat (length m) :: u16)) = (word_of_nat (length m) :: u16)"
    by (rule be_word_be_bytes) simp
  moreover have "unat (word_of_nat (length m) :: u16) = length m"
    using Cons.prems by (simp add: unat_of_nat take_bit_eq_mod)
  ultimately show ?case using Cons by (simp add: block_def)
qed simp

lemma blocks_length: "snd (blocks n p) \<Longrightarrow> length (fst (blocks n p)) = n"
  by (induction n p rule: blocks.induct) (auto simp: Let_def split: if_splits)

lemma message_counter:
  fixes i n :: u16
  assumes "i < n"
  obtains k where "unat n - unat i = Suc k" "unat n - unat (i + 1) = k"
    "\<And>seq :: u64. seq + ucast (i + 1) = seq + ucast i + 1"
proof -
  have lt: "unat i < unat n" using assms by (simp add: word_less_nat_alt)
  moreover have "unat n < 2 ^ 16" using unsigned_less [of n] by simp
  ultimately have i1: "unat (i + 1) = Suc (unat i)" by (simp add: unat_word_ariths)
  have "(ucast (i + 1) :: u64) = word_of_nat (unat (i + 1))" by simp
  also have "\<dots> = 1 + ucast i" unfolding i1 of_nat_Suc by simp
  finally have "seq + ucast (i + 1) = seq + ucast i + 1" for seq :: u64 by simp
  then show ?thesis using lt i1 by (intro that [of "unat n - unat (i + 1)"]) simp_all
qed

lemma decode_loop_eq:
  assumes "off \<le> length p"
  shows "decode_loop big f seq n p i off s =
    (let (ms, ok) = blocks (unat n - unat i) (drop off p) in Some (ok, deliver f (seq + ucast i) ms s))"
  using assms
proof (induction big f seq n p i off s rule: decode_loop.induct)
  case (1 big f seq n p i off s)
  show ?case
  proof (cases "i < n")
    case False
    then have "unat n - unat i = 0" by (simp add: word_less_nat_alt)
    then show ?thesis using False by (simp add: decode_loop.simps [of big f seq n p i])
  next
    case True
    obtain k where k: "unat n - unat i = Suc k" "unat n - unat (i + 1) = k"
      "\<And>seq :: u64. seq + ucast (i + 1) = seq + ucast i + 1"
      using message_counter [OF True] by metis
    note u = k(3)
    let ?q = "drop off p"
    let ?l = "be_word (take 2 ?q) :: u16"
    show ?thesis
    proof (cases "off + 2 \<le> length p")
      case False
      then have "length p - off < 2" by linarith
      then show ?thesis using True k False by (simp add: decode_loop.simps [of big f seq n p i])
    next
      case long: True
      then have bs: "read_bytes p off 2 = Some (take 2 ?q)" "net_to_host16 big (mem_word big (take 2 ?q)) = ?l"
        by (simp_all add: read_bytes_def net_to_host_mem)
      have nl: "\<not> length ?q < 2" using long by simp
      show ?thesis
      proof (cases "off + 2 + unat ?l \<le> length p")
        case False
        then have "length (drop 2 ?q) < unat ?l" using long by simp
        with False show ?thesis using True k long bs nl by (simp add: decode_loop.simps [of big f seq n p i] Let_def)
      next
        case fits: True
        then have pl: "read_bytes p (off + 2) (unat ?l) = Some (take (unat ?l) (drop 2 ?q))"
          by (simp add: read_bytes_def add.commute)
        have nf: "\<not> length (drop 2 ?q) < unat ?l" using fits long by simp
        have d: "drop (unat ?l) (drop 2 ?q) = drop (off + 2 + unat ?l) p" by (simp add: ac_simps)
        have "decode_loop big f seq n p i off s =
            decode_loop big f seq n p (i + 1) (off + 2 + unat ?l) (f (seq + ucast i) (take (unat ?l) (drop 2 ?q)) s)"
          using True long fits bs pl by (simp add: decode_loop.simps [of big f seq n p i off] Let_def)
        also have "\<dots> = (let (ms, ok) = blocks k (drop (off + 2 + unat ?l) p) in
            Some (ok, deliver f (seq + ucast i + 1) ms (f (seq + ucast i) (take (unat ?l) (drop 2 ?q)) s)))"
          using "1.IH" [OF True _ bs(1) bs(2) [symmetric] refl _ pl] long fits k(2) u by simp
        finally show ?thesis using k(1) nl nf unfolding k(1) blocks.simps(2) Let_def d
          by (simp add: case_prod_beta)
      qed
    qed
  qed
qed

section \<open>The decoder against the format\<close>

definition packet_seq :: "u8 list \<Rightarrow> u64" where
  "packet_seq p = be_word (take 8 (drop 10 p))"

definition packet_count :: "u8 list \<Rightarrow> u16" where
  "packet_count p = be_word (take 2 (drop 18 p))"

lemma mold_decode_eq:
  "mold_decode big f p s d = Some (if length p < 20 then (False, s, d)
     else let (ms, ok) = blocks (unat (packet_count p)) (drop 20 p) in
       (ok, deliver f (packet_seq p) ms s, if ok then d\<lparr>expected_seq := packet_seq p + ucast (packet_count p)\<rparr> else d))"
proof (cases "length p < 20")
  case False
  then have h: "read_header big p = Some \<lparr>hd_session = take 10 p, hd_sequence_number = mem_word big (take 8 (drop 10 p)),
      hd_message_count = mem_word big (take 2 (drop 18 p))\<rparr>"
    by (simp add: read_header_def read_bytes_def)
  have w: "net_to_host64 big (mem_word big (take 8 (drop 10 p))) = packet_seq p"
    "net_to_host16 big (mem_word big (take 2 (drop 18 p))) = packet_count p"
    using False by (simp_all add: net_to_host_mem packet_seq_def packet_count_def)
  have "20 \<le> length p" using False by simp
  from decode_loop_eq [OF this, of big f "packet_seq p" "packet_count p" 0 s]
  show ?thesis using False by (simp add: mold_decode_def mold_header_size_def h w Let_def case_prod_beta)
qed (simp add: mold_decode_def mold_header_size_def)

text \<open>C24: Decoding any packet is safe and follows the format. The decoder never reads outside the
  packet; it calls the callback with exactly the complete message blocks, in order, numbered from
  the sequence number of the header; it returns true and moves the expected sequence number past
  the packet exactly when all announced blocks are there, and otherwise leaves it alone.\<close>

theorem mold_decode_correct:
  "mold_decode big on_message packet s d = Some (if length packet < 20 then (False, s, d)
     else let (ms, ok) = blocks (unat (packet_count packet)) (drop 20 packet) in
       (ok, deliver on_message (packet_seq packet) ms s,
        if ok then d\<lparr>expected_seq := packet_seq packet + ucast (packet_count packet)\<rparr> else d))"
  by (rule mold_decode_eq)

definition mold_packet :: "u8 list \<Rightarrow> u64 \<Rightarrow> u8 list list \<Rightarrow> u8 list \<Rightarrow> u8 list" where
  "mold_packet session seq ms rest =
     session @ be_bytes 8 seq @ be_bytes 2 (word_of_nat (length ms) :: u16) @ concat (map block ms) @ rest"

text \<open>C25: Round trip. Decoding a packet built from a session name, a sequence number and fewer than
  65536 messages of fewer than 65536 bytes delivers those messages, numbered consecutively, and
  expects the next packet after them; bytes that follow are ignored.\<close>

theorem mold_roundtrip:
  assumes "length session = 10" "length ms < 2 ^ 16" "\<forall>m \<in> set ms. length m < 2 ^ 16"
  shows "mold_decode big on_message (mold_packet session seq ms rest) s d =
    Some (True, deliver on_message seq ms s, d\<lparr>expected_seq := seq + word_of_nat (length ms)\<rparr>)"
proof -
  let ?p = "mold_packet session seq ms rest"
  have l: "\<not> length ?p < 20" using assms(1) by (simp add: mold_packet_def)
  have n: "unat (word_of_nat (length ms) :: u16) = length ms" using assms(2) by (simp add: unat_of_nat take_bit_eq_mod)
  have c: "packet_count ?p = word_of_nat (length ms)"
    using assms(1) by (simp add: packet_count_def mold_packet_def be_word_be_bytes)
  have q: "packet_seq ?p = seq" using assms(1) by (simp add: packet_seq_def mold_packet_def be_word_be_bytes)
  have b: "drop 20 ?p = concat (map block ms) @ rest" using assms(1) by (simp add: mold_packet_def)
  have "(ucast (word_of_nat (length ms) :: u16) :: u64) = word_of_nat (length ms)" by (metis n of_nat_unat)
  then show ?thesis using l blocks_encode [OF assms(3), of rest] by (simp add: mold_decode_eq c q b n)
qed

theorem mold_roundtrip_witness:
  "mold_decode False (\<lambda>q m s. s @ [(q, m)]) (mold_packet (replicate 10 32) 41 [[1, 2], [], [3]] [9]) [] mold_decoder_new =
    Some (True, [(41, [1, 2]), (42, []), (43, [3])], \<lparr>expected_seq = 44\<rparr>)"
  using mold_roundtrip [of "replicate 10 32" "[[1, 2], [], [3]]" False "\<lambda>q m s. s @ [(q, m)]" 41 "[9]" "[]" mold_decoder_new]
  by (simp add: mold_decoder_new_def)

end
