(* ===== verification/TC_Arena.thy ===== *)
theory TC_Arena
  imports TC_Prelude
begin

text \<open>
  \<open>memory/arena_allocator.hpp\<close>: bump allocation from a buffer the caller owns. Pointers are 64-bit
  addresses and pointer arithmetic is that of the machine, so the end-of-buffer check can wrap; the
  theorem says when it does not.
\<close>

record arena =
  ar_base :: u64
  ar_current :: u64
  ar_capacity :: u64

definition arena_new :: "u64 \<Rightarrow> u64 \<Rightarrow> arena" where
  "arena_new cap buffer = \<lparr>ar_base = buffer, ar_current = buffer, ar_capacity = cap\<rparr>"

definition get_alignment_adjustment :: "u64 \<Rightarrow> u64 \<Rightarrow> u64 option" where
  "get_alignment_adjustment ptr alignment = do {
     tc_assert (alignment \<noteq> 0);
     let remainder = ptr mod alignment;
     Some (if remainder = 0 then 0 else alignment - remainder)
   }"

text \<open>The result \<open>None\<close> inside is the null pointer.\<close>

definition arena_allocate :: "u64 \<Rightarrow> u64 \<Rightarrow> arena \<Rightarrow> (u64 option \<times> arena) option" where
  "arena_allocate sz alignment a = do {
     adjustment \<leftarrow> get_alignment_adjustment (ar_current a) alignment;
     if ar_current a + adjustment + sz > ar_base a + ar_capacity a then Some (None, a)
     else do {
       let aligned_ptr = ar_current a + adjustment;
       Some (Some aligned_ptr, a\<lparr>ar_current := aligned_ptr + sz\<rparr>)
     }
   }"

definition arena_reset :: "arena \<Rightarrow> arena" where
  "arena_reset a = a\<lparr>ar_current := ar_base a\<rparr>"

definition used_bytes :: "arena \<Rightarrow> u64" where
  "used_bytes a = ar_current a - ar_base a"

section \<open>Allocations stay in the buffer\<close>

text \<open>The buffer does not reach the end of the address space, and the cursor is inside it.\<close>

definition arena_ok :: "arena \<Rightarrow> bool" where
  "arena_ok a \<longleftrightarrow> unat (ar_base a) + unat (ar_capacity a) < 2 ^ 64 \<and>
     unat (ar_base a) \<le> unat (ar_current a) \<and>
     unat (ar_current a) \<le> unat (ar_base a) + unat (ar_capacity a)"

text \<open>The padding in front of the next object.\<close>

definition padding :: "nat \<Rightarrow> nat \<Rightarrow> nat" where
  "padding p n = (n - p mod n) mod n"

lemma padding_dvd: "0 < n \<Longrightarrow> n dvd p + padding p n"
proof -
  assume n: "0 < n"
  have "(p + padding p n) mod n = (p mod n + (n - p mod n)) mod n" by (simp add: padding_def mod_simps)
  also have "\<dots> = 0" using n by (simp add: less_imp_le)
  finally show ?thesis by (simp add: mod_eq_0_iff_dvd)
qed

lemma padding_less: "0 < n \<Longrightarrow> padding p n < n"
  by (simp add: padding_def)

lemma adjustment_ok:
  assumes "alignment \<noteq> 0"
  shows "\<exists>adj. get_alignment_adjustment p alignment = Some adj \<and> unat adj = padding (unat p) (unat alignment)"
proof -
  have a: "0 < unat alignment" using assms by (simp add: unat_gt_0)
  have m: "p mod alignment \<le> alignment" using a by (simp add: word_le_nat_alt unat_mod less_imp_le)
  show ?thesis
  proof (cases "p mod alignment = 0")
    case True
    then have "unat p mod unat alignment = 0" by (metis unat_mod unat_0)
    then show ?thesis using assms True by (simp add: get_alignment_adjustment_def padding_def)
  next
    case False
    then have "0 < unat p mod unat alignment" by (metis unat_mod unat_gt_0)
    then have "unat (alignment - p mod alignment) = padding (unat p) (unat alignment)"
      using m a by (simp add: unat_sub unat_mod padding_def)
    then show ?thesis using assms False by (simp add: get_alignment_adjustment_def)
  qed
qed

lemma arena_allocate_ok:
  assumes ok: "arena_ok a" and al: "alignment \<noteq> 0"
    and small: "unat (ar_current a) + unat alignment + unat sz \<le> 2 ^ 64"
  defines "p \<equiv> unat (ar_current a) + padding (unat (ar_current a)) (unat alignment)"
  shows "if p + unat sz \<le> unat (ar_base a) + unat (ar_capacity a)
    then \<exists>q a'. arena_allocate sz alignment a = Some (Some q, a') \<and> unat q = p \<and>
      unat (ar_current a') = p + unat sz \<and> ar_base a' = ar_base a \<and> ar_capacity a' = ar_capacity a
    else arena_allocate sz alignment a = Some (None, a)"
proof -
  obtain adj where adj: "get_alignment_adjustment (ar_current a) alignment = Some adj"
    "unat adj = padding (unat (ar_current a)) (unat alignment)" using adjustment_ok [OF al] by blast
  have "0 < unat alignment" using al by (simp add: unat_gt_0)
  then have "unat adj < unat alignment" using adj(2) padding_less by simp
  then have lt: "unat (ar_current a) + unat adj + unat sz < 2 ^ 64" using small by linarith
  have q: "unat (ar_current a + adj) = p" using lt adj(2) by (simp add: unat_word_ariths p_def)
  then have e: "unat (ar_current a + adj + sz) = p + unat sz"
    using lt adj(2) by (simp add: unat_word_ariths p_def)
  have l: "unat (ar_base a + ar_capacity a) = unat (ar_base a) + unat (ar_capacity a)"
    using ok by (simp add: arena_ok_def unat_word_ariths)
  show ?thesis using adj(1) q e l by (auto simp: arena_allocate_def word_less_nat_alt Let_def)
qed

text \<open>C28: Arena allocation. For a request that does not wrap the address space, the arena returns
  the null pointer and stays as it is exactly when the padded request does not fit; otherwise the
  object is aligned, lies between the old cursor and the end of the buffer, and the new cursor is
  its end, so that no two allocations overlap.\<close>

theorem arena_allocate_correct:
  assumes "arena_ok a" "alignment \<noteq> 0" "unat (ar_current a) + unat alignment + unat sz \<le> 2 ^ 64"
  shows "\<exists>r a'. arena_allocate sz alignment a = Some (r, a') \<and> arena_ok a' \<and> (case r of
      None \<Rightarrow> a' = a \<and> unat (ar_base a) + unat (ar_capacity a) <
        unat (ar_current a) + padding (unat (ar_current a)) (unat alignment) + unat sz
    | Some q \<Rightarrow> unat alignment dvd unat q \<and> unat (ar_current a) \<le> unat q \<and>
        unat (ar_current a') = unat q + unat sz \<and>
        unat (ar_current a') \<le> unat (ar_base a) + unat (ar_capacity a) \<and>
        unat (used_bytes a') = unat (ar_current a') - unat (ar_base a))"
proof (cases "unat (ar_current a) + padding (unat (ar_current a)) (unat alignment) + unat sz
    \<le> unat (ar_base a) + unat (ar_capacity a)")
  case True
  then obtain q a' where q: "arena_allocate sz alignment a = Some (Some q, a')"
    "unat q = unat (ar_current a) + padding (unat (ar_current a)) (unat alignment)"
    "unat (ar_current a') = unat q + unat sz" "ar_base a' = ar_base a" "ar_capacity a' = ar_capacity a"
    using arena_allocate_ok [OF assms] by auto
  have "arena_ok a'" using assms(1) q True by (simp add: arena_ok_def)
  moreover from this have "unat (used_bytes a') = unat (ar_current a') - unat (ar_base a)"
    using q(4) by (simp add: used_bytes_def arena_ok_def unat_sub word_le_nat_alt)
  moreover have "unat alignment dvd unat q" using padding_dvd assms(2) q(2) by (simp add: unat_gt_0)
  ultimately show ?thesis using q True by (intro exI [of _ "Some q"] exI [of _ a']) simp
next
  case False
  then show ?thesis using arena_allocate_ok [OF assms] assms(1)
    by (intro exI [of _ None] exI [of _ a]) simp
qed

theorem arena_allocate_correct_witness:
  "\<exists>q a'. arena_allocate 8 16 ((arena_new 64 1000)) = Some (Some q, a') \<and> 16 dvd unat q"
proof -
  have a: "arena_allocate 8 16 (arena_new 64 1000) = Some (Some 1008, \<lparr>ar_base = 1000, ar_current = 1016, ar_capacity = 64\<rparr>)"
    by code_simp
  have "arena_ok (arena_new 64 1000)" by (simp add: arena_ok_def arena_new_def)
  from arena_allocate_correct [OF this, of 16 8] a show ?thesis by (auto simp: arena_new_def)
qed

text \<open>C29: The end-of-buffer check does not protect against every size: a request near the size of
  the address space wraps around it, succeeds, and moves the cursor back over live allocations.\<close>

theorem arena_allocate_wraps:
  "\<exists>a a'. arena_ok a \<and> arena_allocate (- 8) 8 a = Some (Some (ar_current a), a') \<and>
    unat (ar_current a') < unat (ar_current a)"
proof -
  let ?a = "\<lparr>ar_base = 1024, ar_current = 1056, ar_capacity = 64\<rparr>"
  have "arena_allocate (- 8) 8 ?a = Some (Some 1056, \<lparr>ar_base = 1024, ar_current = 1048, ar_capacity = 64\<rparr>)"
    by code_simp
  moreover have "arena_ok ?a" by (simp add: arena_ok_def)
  ultimately show ?thesis
    by (intro exI [of _ ?a] exI [of _ "\<lparr>ar_base = 1024, ar_current = 1048, ar_capacity = 64\<rparr>"]) simp
qed

end
