(* ===== verification/TC_Itch_Parser.thy ===== *)
theory TC_Itch_Parser
  imports TC_Endian TC_Book_Update TC_Arena
begin

text \<open>
  \<open>parser/book_update_validator.hpp\<close>, \<open>parser/parser_context.hpp\<close>, \<open>parser/message_envelope.hpp\<close> and
  \<open>parser/itch_parser.hpp\<close>: decoding ITCH messages into canonical updates. A payload is the list
  of its bytes; reading outside it is \<open>None\<close>, and the absent update is \<open>None\<close> inside the result.
\<close>

section \<open>Validation\<close>

definition validate :: "book_update \<Rightarrow> bool" where
  "validate u = (if upd_price u = 0 \<and> upd_type u \<noteq> CancelOrder \<and> upd_type u \<noteq> DeleteOrder then False
     else if upd_qty u = 0 \<and> upd_type u \<noteq> DeleteOrder then False
     else if upd_side u > 1 then False
     else if upd_type u < 1 \<or> upd_type u > 8 then False
     else True)"

section \<open>Context\<close>

record parser_stats =
  messages_parsed :: u64
  parse_errors :: u64
  validation_failures :: u64

definition parser_stats_init :: parser_stats where
  "parser_stats_init = \<lparr>messages_parsed = 0, parse_errors = 0, validation_failures = 0\<rparr>"

text \<open>The symbol table and the clock of the context keep no state.\<close>

definition lookup_or_add :: "u8 list \<Rightarrow> u16" where
  "lookup_or_add symbol = 1"

definition is_valid :: "u16 \<Rightarrow> bool" where
  "is_valid symbol_index = True"

definition now_ns :: u64 where
  "now_ns = 0"

record parser_context =
  ctx_arena :: arena
  ctx_stats :: parser_stats

record message_envelope =
  env_hardware_rx_timestamp_ns :: u64
  env_sequence_number :: u64
  env_session_id :: u16
  env_payload_length :: u16
  env_payload :: "u8 list"

section \<open>Fields\<close>

definition kOffsetType :: nat where "kOffsetType = 0"
definition kOffsetStockLocate :: nat where "kOffsetStockLocate = 1"
definition kOffsetTracking :: nat where "kOffsetTracking = 5"
definition kOffsetTimestamp :: nat where "kOffsetTimestamp = 7"
definition kOffsetOrderRef :: nat where "kOffsetOrderRef = 11"
definition kOffsetBuySell :: nat where "kOffsetBuySell = 19"
definition kOffsetShares :: nat where "kOffsetShares = 20"
definition kOffsetStock :: nat where "kOffsetStock = 24"
definition kOffsetPrice :: nat where "kOffsetPrice = 32"
definition kAddOrderLength :: nat where "kAddOrderLength = 36"

lemmas offset_defs = kOffsetType_def kOffsetStockLocate_def kOffsetTracking_def kOffsetTimestamp_def
  kOffsetOrderRef_def kOffsetBuySell_def kOffsetShares_def kOffsetStock_def kOffsetPrice_def kAddOrderLength_def

definition read_field32 :: "bool \<Rightarrow> u8 list \<Rightarrow> nat \<Rightarrow> u32 option" where
  "read_field32 big payload off = do {
     bs \<leftarrow> read_bytes payload off 4;
     Some (net_to_host32 big (mem_word big bs))
   }"

definition read_field64 :: "bool \<Rightarrow> u8 list \<Rightarrow> nat \<Rightarrow> u64 option" where
  "read_field64 big payload off = do {
     bs \<leftarrow> read_bytes payload off 8;
     Some (net_to_host64 big (mem_word big bs))
   }"

definition read_timestamp :: "bool \<Rightarrow> u8 list \<Rightarrow> nat \<Rightarrow> u64 option" where
  "read_timestamp big payload off = do {
     bs \<leftarrow> read_bytes payload off 8;
     let ts = net_to_host64 big (mem_word big bs);
     Some (drop_bit 16 ts)
   }"

section \<open>Messages\<close>

definition parse_add_order :: "bool \<Rightarrow> parser_context \<Rightarrow> u8 list \<Rightarrow> (book_update option \<times> parser_context) option" where
  "parse_add_order big ctx payload =
     (if length payload < kAddOrderLength
      then Some (None, ctx\<lparr>ctx_stats := (ctx_stats ctx)\<lparr>parse_errors := parse_errors (ctx_stats ctx) + 1\<rparr>\<rparr>)
      else do {
        ts \<leftarrow> read_timestamp big payload kOffsetTimestamp;
        order_id \<leftarrow> read_field64 big payload kOffsetOrderRef;
        price \<leftarrow> read_field32 big payload kOffsetPrice;
        qty \<leftarrow> read_field32 big payload kOffsetShares;
        side_indicator \<leftarrow> read_bytes payload kOffsetBuySell 1;
        sym \<leftarrow> read_bytes payload kOffsetStock 8;
        let update = book_update_init\<lparr>upd_type := AddOrder, upd_timestamp_ns := ts, upd_order_id := order_id,
          upd_price := price, upd_qty := qty, upd_side := (if hd side_indicator = 66 then 0 else 1),
          upd_symbol := lookup_or_add sym\<rparr>;
        if \<not> validate update
        then Some (None, ctx\<lparr>ctx_stats := (ctx_stats ctx)\<lparr>validation_failures := validation_failures (ctx_stats ctx) + 1\<rparr>\<rparr>)
        else Some (Some update, ctx\<lparr>ctx_stats := (ctx_stats ctx)\<lparr>messages_parsed := messages_parsed (ctx_stats ctx) + 1\<rparr>\<rparr>)
      })"

definition parse_ignore :: "parser_context \<Rightarrow> u8 list \<Rightarrow> (book_update option \<times> parser_context) option" where
  "parse_ignore ctx payload = Some (None, ctx)"

definition parser_table :: "bool \<Rightarrow> u8 \<Rightarrow> parser_context \<Rightarrow> u8 list \<Rightarrow> (book_update option \<times> parser_context) option" where
  "parser_table big = (\<lambda>_. parse_ignore)(65 := parse_add_order big, 70 := parse_add_order big)"

definition itch_parse :: "bool \<Rightarrow> parser_context \<Rightarrow> u8 list \<Rightarrow> (book_update option \<times> parser_context) option" where
  "itch_parse big ctx payload =
     (if payload = []
      then Some (None, ctx\<lparr>ctx_stats := (ctx_stats ctx)\<lparr>parse_errors := parse_errors (ctx_stats ctx) + 1\<rparr>\<rparr>)
      else parser_table big (hd payload) ctx payload)"

section \<open>Reading fields\<close>

lemma read_bytes_Some: "off + n \<le> length p \<Longrightarrow> read_bytes p off n = Some (take n (drop off p))"
  by (simp add: read_bytes_def)

lemma read_fields:
  assumes "off + 8 \<le> length p"
  shows "read_field32 big p off = Some (be_word (take 4 (drop off p)))"
    "read_field64 big p off = Some (be_word (take 8 (drop off p)))"
    "read_timestamp big p off = Some (drop_bit 16 (be_word (take 8 (drop off p))))"
  using assms by (simp_all add: read_field32_def read_field64_def read_timestamp_def read_bytes_Some net_to_host_mem)

lemma read_field32_at: "off + 4 \<le> length p \<Longrightarrow> read_field32 big p off = Some (be_word (take 4 (drop off p)))"
  by (simp add: read_field32_def read_bytes_Some net_to_host_mem)

text \<open>The update a long enough payload stands for.\<close>

definition add_update :: "u8 list \<Rightarrow> book_update" where
  "add_update p = book_update_init\<lparr>upd_type := AddOrder, upd_timestamp_ns := drop_bit 16 (be_word (take 8 (drop 7 p))),
     upd_order_id := be_word (take 8 (drop 11 p)), upd_price := be_word (take 4 (drop 32 p)),
     upd_qty := be_word (take 4 (drop 20 p)), upd_side := (if p ! 19 = 66 then 0 else 1), upd_symbol := 1\<rparr>"

lemma add_update_fields [simp]:
  "upd_type (add_update p) = AddOrder" "upd_price (add_update p) = be_word (take 4 (drop 32 p))"
  "upd_qty (add_update p) = be_word (take 4 (drop 20 p))" "upd_order_id (add_update p) = be_word (take 8 (drop 11 p))"
  "upd_timestamp_ns (add_update p) = drop_bit 16 (be_word (take 8 (drop 7 p)))"
  "upd_side (add_update p) = (if p ! 19 = 66 then 0 else 1)"
  by (simp_all add: add_update_def)

lemma validate_add: "validate (add_update p) \<longleftrightarrow> upd_price (add_update p) \<noteq> 0 \<and> upd_qty (add_update p) \<noteq> 0"
  by (auto simp: validate_def update_type_defs)

definition count_parsed :: "parser_context \<Rightarrow> parser_context" where
  "count_parsed ctx = ctx\<lparr>ctx_stats := (ctx_stats ctx)\<lparr>messages_parsed := messages_parsed (ctx_stats ctx) + 1\<rparr>\<rparr>"

definition count_error :: "parser_context \<Rightarrow> parser_context" where
  "count_error ctx = ctx\<lparr>ctx_stats := (ctx_stats ctx)\<lparr>parse_errors := parse_errors (ctx_stats ctx) + 1\<rparr>\<rparr>"

definition count_invalid :: "parser_context \<Rightarrow> parser_context" where
  "count_invalid ctx = ctx\<lparr>ctx_stats := (ctx_stats ctx)\<lparr>validation_failures := validation_failures (ctx_stats ctx) + 1\<rparr>\<rparr>"

lemma parse_add_order_eq:
  "parse_add_order big ctx p = (if length p < 36 then Some (None, count_error ctx)
     else if validate (add_update p) then Some (Some (add_update p), count_parsed ctx)
     else Some (None, count_invalid ctx))"
proof (cases "length p < 36")
  case True
  then show ?thesis by (simp add: parse_add_order_def kAddOrderLength_def count_error_def)
next
  case False
  then have "hd (take 1 (drop 19 p)) = p ! 19" by (simp add: hd_take hd_drop_conv_nth)
  then show ?thesis using False
    by (simp add: parse_add_order_def offset_defs read_fields read_field32_at read_bytes_Some Let_def
        add_update_def lookup_or_add_def count_parsed_def count_invalid_def)
qed

text \<open>What parsing does, for every payload.\<close>

lemma itch_parse_eq:
  "itch_parse big ctx p = Some (if p = [] then (None, count_error ctx)
     else if hd p \<noteq> 65 \<and> hd p \<noteq> 70 then (None, ctx)
     else if length p < 36 then (None, count_error ctx)
     else if validate (add_update p) then (Some (add_update p), count_parsed ctx)
     else (None, count_invalid ctx))"
  by (simp add: itch_parse_def parser_table_def parse_ignore_def parse_add_order_eq count_error_def)

text \<open>C22: Parsing is safe. No payload, of any length and content, makes the parser read outside
  it; the arena is untouched; an update comes out only for an Add Order message that is long
  enough and has a price and a quantity, it passes validation, and of the three counters the one
  for the outcome grows by one (none for the message types the parser ignores).\<close>

theorem itch_parse_safe:
  "\<exists>r ctx'. itch_parse big ctx payload = Some (r, ctx') \<and> ctx_arena ctx' = ctx_arena ctx \<and> (case r of
      Some u \<Rightarrow> 36 \<le> length payload \<and> hd payload \<in> {65, 70} \<and> validate u \<and> upd_type u = AddOrder \<and>
        ctx' = count_parsed ctx
    | None \<Rightarrow> ctx' = (if payload = [] then count_error ctx else if hd payload \<notin> {65, 70} then ctx
        else if length payload < 36 then count_error ctx else count_invalid ctx))"
  by (auto simp: itch_parse_eq count_parsed_def count_error_def count_invalid_def)

text \<open>C26: The byte order of the host does not change what a payload means.\<close>

theorem itch_parse_host_independent: "itch_parse big ctx payload = itch_parse (\<not> big) ctx payload"
  by (simp add: itch_parse_eq)

section \<open>Round trip\<close>

text \<open>An Add Order message with its fields at the offsets of the parser; \<open>pre\<close> are the ten bytes
  in front of the order reference, \<open>post\<close> whatever follows the price.\<close>

definition add_order_message :: "u8 \<Rightarrow> u8 list \<Rightarrow> u64 \<Rightarrow> u8 \<Rightarrow> u32 \<Rightarrow> u8 list \<Rightarrow> u32 \<Rightarrow> u8 list \<Rightarrow> u8 list" where
  "add_order_message t pre order_id side shares stock price post =
     t # pre @ be_bytes 8 order_id @ [side] @ be_bytes 4 shares @ stock @ be_bytes 4 price @ post"

text \<open>C23: Parsing an encoded Add Order message gives back its order reference, quantity, price and
  side, whatever the other bytes are, unless its quantity or price is zero, which is counted as a
  validation failure.\<close>

theorem itch_add_order_roundtrip:
  assumes "t \<in> {65, 70}" "length pre = 10" "length stock = 8"
  shows "\<exists>u. upd_order_id u = order_id \<and> upd_qty u = shares \<and> upd_price u = price \<and>
    upd_side u = (if side = 66 then 0 else 1) \<and> upd_type u = AddOrder \<and>
    itch_parse big ctx (add_order_message t pre order_id side shares stock price post) =
      Some (if shares = 0 \<or> price = 0 then (None, count_invalid ctx) else (Some u, count_parsed ctx))"
proof -
  obtain p where p: "p = add_order_message t pre order_id side shares stock price post" by simp
  have h: "hd p \<in> {65, 70}" "p \<noteq> []" "\<not> length p < 36" using assms by (simp_all add: p add_order_message_def)
  have d: "take 8 (drop 11 p) = be_bytes 8 order_id" "p ! 19 = side" "take 4 (drop 20 p) = be_bytes 4 shares"
    "take 4 (drop 32 p) = be_bytes 4 price"
    using assms by (simp_all add: p add_order_message_def nth_append)
  have w: "be_word (be_bytes 8 order_id) = order_id" "be_word (be_bytes 4 shares) = shares"
    "be_word (be_bytes 4 price) = price" by (simp_all add: be_word_be_bytes)
  have v: "validate (add_update p) \<longleftrightarrow> price \<noteq> 0 \<and> shares \<noteq> 0" by (simp add: validate_add d w)
  have "itch_parse big ctx p =
      Some (if shares = 0 \<or> price = 0 then (None, count_invalid ctx) else (Some (add_update p), count_parsed ctx))"
    using h v by (auto simp: itch_parse_eq)
  then show ?thesis unfolding p [symmetric] by (intro exI [of _ "add_update p"]) (simp add: d w)
qed

definition demo_context :: parser_context where
  "demo_context = \<lparr>ctx_arena = arena_new 0 0, ctx_stats = parser_stats_init\<rparr>"

theorem itch_add_order_roundtrip_witness:
  "\<exists>u. upd_order_id u = 77 \<and> upd_price u = 1500000 \<and>
    itch_parse False demo_context (add_order_message 65 (replicate 10 0) 77 66 300 (replicate 8 32) 1500000 []) =
      Some (Some u, count_parsed demo_context)"
  using itch_add_order_roundtrip [of 65 "replicate 10 0" "replicate 8 32" 77 300 1500000 66 False demo_context "[]"]
  by auto

text \<open>C27: The offsets of the parser overlap. The six bytes it reads as the timestamp start at
  offset 7 and the order reference at offset 11, so the two low bytes of every parsed timestamp
  are the two high bytes of the order reference.\<close>

theorem itch_timestamp_overlaps_id:
  assumes "itch_parse big ctx payload = Some (Some u, ctx')"
  shows "take_bit 16 (upd_timestamp_ns u) = drop_bit 48 (upd_order_id u)"
proof -
  have l: "36 \<le> length payload" and u: "u = add_update payload" using assms by (auto simp: itch_parse_eq split: if_splits)
  show ?thesis
  proof (rule bit_word_eqI)
    fix n assume "n < LENGTH(64)"
    show "bit (take_bit 16 (upd_timestamp_ns u)) n = bit (drop_bit 48 (upd_order_id u)) n"
    proof (cases "n < 16")
      case True
      then have q: "n div 8 < 2" by (simp add: div_less_iff_less_mult)
      have e: "(16 + n) div 8 = 2 + n div 8" "(16 + n) mod 8 = n mod 8" "(48 + n) div 8 = 6 + n div 8"
        "(48 + n) mod 8 = n mod 8"
        using div_mult_self1 [of 8 n 2] mod_mult_self1 [of n 2 8] div_mult_self1 [of 8 n 6] mod_mult_self1 [of n 6 8]
        by (simp_all add: ac_simps)
      have i: "7 + (8 - Suc (2 + n div 8)) = 11 + (8 - Suc (6 + n div 8))" using q by linarith
      show ?thesis using True q l i by (simp add: u bit_simps bit_be_word e)
    next
      case False
      then show ?thesis by (auto simp: bit_simps dest: bit_imp_le_length)
    qed
  qed
qed

theorem itch_timestamp_overlaps_id_witness:
  "\<exists>u. itch_parse False demo_context (add_order_message 65 (replicate 10 0) 77 66 300 (replicate 8 32) 1500000 []) =
      Some (Some u, count_parsed demo_context) \<and> take_bit 16 (upd_timestamp_ns u) = 0"
proof -
  let ?p = "add_order_message 65 (replicate 10 0) 77 66 300 (replicate 8 32) 1500000 []"
  have "itch_parse False demo_context ?p = Some (Some (add_update ?p), count_parsed demo_context)"
    "drop_bit 48 (upd_order_id (add_update ?p)) = 0"
    by code_simp+
  with itch_timestamp_overlaps_id [of False demo_context ?p] show ?thesis by metis
qed

end
