(* ===== verification/TC_Feed.thy ===== *)
theory TC_Feed
  imports TC_Replay_Digest TC_Moldudp TC_Itch_Parser
begin

text \<open>
  The components on the way from the wire to the book, put together: a MoldUDP64 packet of ITCH Add
  Order messages is decoded, its messages are replayed through a parser that agrees with
  \<open>ITCHParser\<close>, every order is matched, and the digest is taken of the book that is left. The
  reference is a fold of the price-time line over the orders of the packet, on abstract books
  without timestamps; it knows no packets, payloads, pools or trees.
\<close>

declare untimed_apply [simp del]

section \<open>Orders on the wire\<close>

record wire_order =
  wo_type :: u8
  wo_head :: "u8 list"
  wo_id :: u64
  wo_side :: u8
  wo_shares :: u32
  wo_stock :: "u8 list"
  wo_price :: u32
  wo_tail :: "u8 list"

definition wire_message :: "wire_order \<Rightarrow> u8 list" where
  "wire_message w = add_order_message (wo_type w) (wo_head w) (wo_id w) (wo_side w) (wo_shares w) (wo_stock w)
     (wo_price w) (wo_tail w)"

definition wire_ok :: "wire_order \<Rightarrow> bool" where
  "wire_ok w \<longleftrightarrow> wo_type w \<in> {65, 70} \<and> length (wo_head w) = 10 \<and> length (wo_stock w) = 8 \<and> length (wire_message w) < 2 ^ 16"

definition wire_action :: "wire_order \<Rightarrow> order_action" where
  "wire_action w = \<lparr>act_order_id = wo_id w, act_client_id = 0, act_price = wo_price w, act_qty = wo_shares w,
     act_side = (if wo_side w = 66 then 0 else 1), act_type = Limit\<rparr>"

text \<open>A parser that returns what \<open>ITCHParser\<close> decodes, and an update of the ignored type otherwise.\<close>

definition agrees_with_itch :: "bool \<Rightarrow> parser_context \<Rightarrow> (u8 list \<Rightarrow> book_update) \<Rightarrow> update_type \<Rightarrow> bool" where
  "agrees_with_itch big ctx parse unknown \<longleftrightarrow> unknown \<noteq> AddOrder \<and>
     (\<forall>p. case itch_parse big ctx p of Some (Some u, _) \<Rightarrow> parse p = u | _ \<Rightarrow> upd_type (parse p) = unknown)"

lemma parse_wire:
  assumes "wire_ok w" "agrees_with_itch big ctx parse unknown"
  shows "if wo_shares w = 0 \<or> wo_price w = 0 then upd_type (parse (wire_message w)) = unknown
    else upd_type (parse (wire_message w)) = AddOrder \<and> limit_action (parse (wire_message w)) = wire_action w"
proof -
  let ?p = "wire_message w"
  obtain u where u: "upd_order_id u = wo_id w" "upd_qty u = wo_shares w" "upd_price u = wo_price w"
    "upd_side u = (if wo_side w = 66 then 0 else 1)" "upd_type u = AddOrder"
    "itch_parse big ctx ?p = Some (if wo_shares w = 0 \<or> wo_price w = 0 then (None, count_invalid ctx) else (Some u, count_parsed ctx))"
    using itch_add_order_roundtrip [of "wo_type w" "wo_head w" "wo_stock w" "wo_id w" "wo_shares w" "wo_price w"
        "wo_side w" big ctx "wo_tail w"] assms(1) unfolding wire_ok_def wire_message_def by blast
  have "case itch_parse big ctx ?p of Some (Some u, _) \<Rightarrow> parse ?p = u | _ \<Rightarrow> upd_type (parse ?p) = unknown"
    using assms(2) by (simp add: agrees_with_itch_def)
  then show ?thesis using u by (auto simp: limit_action_def wire_action_def split: if_splits)
qed

section \<open>The reference\<close>

definition feed_fits :: "book_limits \<Rightarrow> order_action \<Rightarrow> abs_book \<Rightarrow> bool" where
  "feed_fits L a B \<longleftrightarrow> length (ref_fills a B) \<le> kMaxTradesPerMatch \<and>
     (rests a B \<longrightarrow> add_accepted L (book_update_init\<lparr>upd_type := AddOrder, upd_side := act_side a, upd_price := act_price a,
        upd_qty := ref_left a B, upd_order_id := act_order_id a\<rparr>) (apply_fills (ref_fills a B) B))"

definition feed_match :: "book_limits \<Rightarrow> risk_rule list \<Rightarrow> order_action \<Rightarrow> abs_book \<Rightarrow> abs_book option" where
  "feed_match L rules a B = (if \<not> risk_ok (risk_evaluate rules a) then Some B
     else if feed_fits L a B then Some (untimed_match a B) else None)"

text \<open>Orders without quantity or price do not pass validation and are skipped.\<close>

fun feed :: "book_limits \<Rightarrow> risk_rule list \<Rightarrow> wire_order list \<Rightarrow> abs_book \<Rightarrow> abs_book option" where
  "feed L rules [] B = Some B"
| "feed L rules (w # ws) B = (if wo_shares w = 0 \<or> wo_price w = 0 then feed L rules ws B
     else do { B \<leftarrow> feed_match L rules (wire_action w) B; feed L rules ws B })"

lemma accepted_time [simp]: "add_accepted L (u\<lparr>upd_timestamp_ns := t\<rparr>) B = add_accepted L u B"
  by (simp add: add_accepted_def)

lemma fits_untimed: "match_fits clock e a B \<longleftrightarrow> feed_fits (limits_of (me_book e)) a (untimed B)"
  by (simp add: match_fits_def feed_fits_def ref_rest_def untimed_fills [symmetric])

lemma untimed_idem [simp]: "untimed (untimed B) = untimed B"
proof -
  have "untime (untime x) = untime x" for x by (simp add: untime_def)
  then show ?thesis by (simp add: untimed_def comp_def)
qed

text \<open>Matching an action is a step of the reference, failures included.\<close>

lemma match_feed:
  assumes rep: "book_rep (me_book e) B" and a: "act_type a = Limit"
  shows "case feed_match (limits_of (me_book e)) rules a (untimed B) of
      None \<Rightarrow> match_order clock rules a e = None
    | Some C \<Rightarrow> \<exists>R e' B'. match_order clock rules a e = Some (R, e') \<and> book_rep (me_book e') B' \<and>
        untimed B' = C \<and> limits_of (me_book e') = limits_of (me_book e)"
proof (cases "risk_ok (risk_evaluate rules a)")
  case True
  have run: "match_order clock rules a e = match_rest_of clock a e"
    using match_order_eq [OF rep, of clock rules a] True a by (simp add: prescan_fails_def)
  show ?thesis
  proof (cases "match_fits clock e a B")
    case fits: True
    then obtain R e' where "match_rest_of clock a e = Some (R, e')" "book_rep (me_book e') (ref_book clock e a B)"
      "limits_of (me_book e') = limits_of (me_book e)"
      using match_rest_ok [OF rep, of clock a] by (auto simp: matches_as_def)
    moreover have "untimed (ref_book clock e a B) = untimed_match a (untimed B)"
      by (simp add: untimed_ref_book untimed_match_def)
    ultimately show ?thesis using fits True by (auto simp: feed_match_def fits_untimed run)
  next
    case False
    then have "match_rest_of clock a e = None" using match_rest_ok [OF rep, of clock a] by (simp add: matches_as_def)
    then show ?thesis using False True by (simp add: feed_match_def fits_untimed run)
  qed
next
  case False
  then show ?thesis using match_order_eq [OF rep, of clock rules a] rep by (auto simp: feed_match_def)
qed

section \<open>One message\<close>

text \<open>Telemetry leaves the replay clock alone; at full speed there is nothing to wait for.\<close>

lemma clock_kept [simp]:
  "re_clock (on_registry f r) = re_clock r" "re_clock (record_latency clock upd start r) = re_clock r"
  by (simp_all add: on_registry_def record_latency_def get_time_ns_def get_timestamp_def split: prod.splits)

lemma get_time_ns_kept: "get_time_ns clock r = (now, r') \<Longrightarrow> re_clock r' = re_clock r"
  by (auto simp: get_time_ns_def get_timestamp_def)

definition fast :: "'s replay_engine \<Rightarrow> bool" where
  "fast r \<longleftrightarrow> ck_mode (re_clock r) = MaxThroughput"

lemma apply_update_match:
  assumes "upd_type u = AddOrder"
  shows "\<exists>e. me_book e = me_book (re_matcher r) \<and> (case match_order clock rules (limit_action u) e of
      None \<Rightarrow> apply_update clock rules rt u r = None
    | Some (R, e') \<Rightarrow> \<exists>r'. apply_update clock rules rt u r = Some r' \<and> me_book (re_matcher r') = me_book e' \<and>
        re_clock r' = re_clock r)"
proof -
  obtain start r1 where r1: "get_time_ns clock r = (start, r1)" by (cases "get_time_ns clock r")
  have b: "me_book (re_matcher r1) = me_book (re_matcher r)" "re_clock r1 = re_clock r"
    using get_time_ns_same [OF r1] get_time_ns_kept [OF r1] by (simp_all add: same_book_def)
  show ?thesis
  proof (cases "match_order clock rules (limit_action u) (re_matcher r1)")
    case None
    then show ?thesis using assms r1 b by (intro exI [of _ "re_matcher r1"]) (simp add: apply_update_def)
  next
    case (Some x)
    obtain R e' where x: "x = (R, e')" by (cases x)
    let ?r' = "on_registry (count_result R) (record_latency clock
      (\<lambda>f m. m\<lparr>mr_matcher_latency := f (mr_matcher_latency m)\<rparr>) start (r1\<lparr>re_matcher := e'\<rparr>))"
    have "same_book (r1\<lparr>re_matcher := e'\<rparr>) ?r'" by (rule same_book_trans [OF record_latency_same on_registry_same])
    then have "me_book (re_matcher ?r') = me_book e'" by (simp add: same_book_def)
    moreover have "apply_update clock rules rt u r = Some ?r'" using assms r1 Some x by (simp add: apply_update_def)
    ultimately show ?thesis using Some x b by (intro exI [of _ "re_matcher r1"]) simp
  qed
qed

lemma replay_one_feed:
  fixes r :: "'s replay_engine"
  assumes u: "upd_type (parse p) = AddOrder" "unknown \<noteq> AddOrder" and r: "fast r" "book_rep (me_book (re_matcher r)) B"
  shows "case feed_match (limits_of (me_book (re_matcher r))) rules (limit_action (parse p)) (untimed B) of
      None \<Rightarrow> replay_one clock rules rt unknown parse p r = None
    | Some C \<Rightarrow> \<exists>r' B'. replay_one clock rules rt unknown parse p r = Some r' \<and> fast r' \<and>
        book_rep (me_book (re_matcher r')) B' \<and> untimed B' = C \<and>
        limits_of (me_book (re_matcher r')) = limits_of (me_book (re_matcher r))"
proof -
  obtain t1 r1 where r1: "get_time_ns clock r = (t1, r1)" by (cases "get_time_ns clock r")
  obtain t2 r2 where r2: "get_time_ns clock r1 = (t2, r2)" by (cases "get_time_ns clock r1")
  define r3 where "r3 = record_latency clock (\<lambda>f m. m\<lparr>mr_parser_latency := f (mr_parser_latency m)\<rparr>) t2 r2"
  have "same_book r r3" unfolding r3_def
    by (rule same_book_trans [OF get_time_ns_same [OF r1] same_book_trans [OF get_time_ns_same [OF r2] record_latency_same]])
  then have b3: "me_book (re_matcher r3) = me_book (re_matcher r)" and f3: "ck_mode (re_clock r3) = MaxThroughput"
    using r(1) get_time_ns_kept [OF r1] get_time_ns_kept [OF r2] by (simp_all add: same_book_def fast_def r3_def)
  have c3: "re_clock r2 = re_clock r3" by (simp add: r3_def)
  let ?a = "limit_action (parse p)"
  let ?f = "\<lambda>r. record_latency clock (\<lambda>f m. m\<lparr>mr_end_to_end_latency := f (mr_end_to_end_latency m)\<rparr>) t1
      (on_registry (\<lambda>m. m\<lparr>mr_messages_processed := mr_messages_processed m + 1\<rparr>) r)"
  have run: "replay_one clock rules rt unknown parse p r = map_option
      (\<lambda>r. (?f r)\<lparr>re_messages_processed := re_messages_processed (?f r) + 1\<rparr>) (apply_update clock rules rt (parse p) r3)"
    using u f3 r1 r2 by (cases "apply_update clock rules rt (parse p) r3")
      (simp_all add: replay_one_def c3 r3_def [symmetric] wait_until_def Let_def)
  have same: "me_book (re_matcher (?f r)) = me_book (re_matcher r)" for r :: "'s replay_engine"
  proof -
    have "same_book r (?f r)" by (rule same_book_trans [OF on_registry_same record_latency_same])
    then show ?thesis by (simp add: same_book_def)
  qed
  obtain e where e: "me_book e = me_book (re_matcher r3)" "case match_order clock rules ?a e of
      None \<Rightarrow> apply_update clock rules rt (parse p) r3 = None
    | Some (R, e') \<Rightarrow> \<exists>r'. apply_update clock rules rt (parse p) r3 = Some r' \<and> me_book (re_matcher r') = me_book e' \<and>
        re_clock r' = re_clock r3" using apply_update_match [OF u(1)] by blast
  have "act_type ?a = Limit" by (simp add: limit_action_def)
  from match_feed [where e = e and B = B and rules = rules and clock = clock, OF _ this] r(2) e(1) b3 show ?thesis
    using e(2) f3 same by (auto simp: run fast_def split: option.splits)
qed

text \<open>An ignored message leaves book, clock and counter alone.\<close>

lemma replay_one_ignored:
  assumes "upd_type (parse p) = unknown" "fast r"
  shows "\<exists>r'. replay_one clock rules rt unknown parse p r = Some r' \<and> fast r'"
proof -
  obtain t1 r1 where r1: "get_time_ns clock r = (t1, r1)" by (cases "get_time_ns clock r")
  obtain t2 r2 where r2: "get_time_ns clock r1 = (t2, r2)" by (cases "get_time_ns clock r1")
  show ?thesis using assms r1 r2 get_time_ns_kept [OF r1] get_time_ns_kept [OF r2]
    by (simp add: replay_one_def fast_def)
qed

section \<open>All messages\<close>

text \<open>What the loop does with the messages \<open>ps\<close>, against what the reference says.\<close>

definition feeds :: "bool \<Rightarrow> book_limits \<Rightarrow> abs_book option \<Rightarrow> 's replay_engine option \<Rightarrow> bool" where
  "feeds big L C res = (case C of None \<Rightarrow> res = None
     | Some C \<Rightarrow> \<exists>r B. res = Some r \<and> book_rep (me_book (re_matcher r)) B \<and> untimed B = C \<and>
         limits_of (me_book (re_matcher r)) = L \<and>
         compute_digest big (me_book (re_matcher r)) = Some (digest_of big C))"

lemma wire_message_nonempty [simp]: "wire_message w \<noteq> []"
  by (simp add: wire_message_def add_order_message_def)

lemma unat_less_max: "unat (x :: u64) < 2 ^ 64 - 1 \<Longrightarrow> x < - 1"
  by (simp add: word_less_nat_alt unsigned_minus_1_eq_mask mask_eq_exp_minus_1)

lemma feed_payloads:
  assumes ag: "agrees_with_itch big ctx parse unknown"
  shows "fast r \<Longrightarrow> book_rep (me_book (re_matcher r)) B \<Longrightarrow> limits_of (me_book (re_matcher r)) = L \<Longrightarrow>
    \<forall>w \<in> set ws. wire_ok w \<Longrightarrow> unat (re_messages_processed r) + length ws < 2 ^ 64 - 1 \<Longrightarrow>
    feeds big L (feed L rules ws (untimed B))
      (replay_payloads nxt (replay_one clock rules rt unknown parse) (- 1) (map wire_message ws) r)"
proof (induction ws arbitrary: r B)
  case Nil
  then show ?case using compute_digest_ok [of "me_book (re_matcher r)" B big] by (auto simp: feeds_def)
next
  case (Cons w ws)
  let ?one = "replay_one clock rules rt unknown parse" and ?p = "wire_message w"
  let ?r = "r\<lparr>re_source := snd (nxt (re_source r))\<rparr>"
  have room: "re_messages_processed r < - 1" using Cons.prems(5) by (intro unat_less_max) simp
  have step: "replay_payloads nxt ?one (- 1) (map wire_message (w # ws)) r =
      do { r \<leftarrow> ?one ?p ?r; replay_payloads nxt ?one (- 1) (map wire_message ws) r }"
    using room by (simp add: Let_def)
  have r: "fast ?r" "book_rep (me_book (re_matcher ?r)) B" "limits_of (me_book (re_matcher ?r)) = L"
    using Cons.prems(1-3) by (simp_all add: fast_def)
  have more: "unat (re_messages_processed r') + length ws < 2 ^ 64 - 1"
    if "?one ?p ?r = Some r'" for r'
    using replay_one_outcome [OF that] Cons.prems(5) unat_plus_one_u64 [of "re_messages_processed r"]
    by (auto split: if_splits)
  have wok: "wire_ok w" "\<forall>w \<in> set ws. wire_ok w" and un: "unknown \<noteq> AddOrder"
    using Cons.prems(4) ag by (simp_all add: agrees_with_itch_def)
  note pw = parse_wire [OF wok(1) ag]
  show ?case
  proof (cases "wo_shares w = 0 \<or> wo_price w = 0")
    case True
    then have u: "upd_type (parse ?p) = unknown" using pw by simp
    obtain r' where r': "?one ?p ?r = Some r'" "fast r'" using replay_one_ignored [of parse ?p, OF u r(1)] by blast
    have "me_book (re_matcher r') = me_book (re_matcher ?r)" using replay_one_outcome [OF r'(1)] u by simp
    then show ?thesis using Cons.IH [OF r'(2) _ _ wok(2) more [OF r'(1)]] r step r'(1) True by simp
  next
    case False
    then have u: "upd_type (parse ?p) = AddOrder" "limit_action (parse ?p) = wire_action w" using pw by simp_all
    note one = replay_one_feed [where parse = parse and p = ?p and rules = rules and clock = clock and rt = rt, OF u(1) un r(1,2),
      unfolded r(3) u(2)]
    show ?thesis
    proof (cases "feed_match L rules (wire_action w) (untimed B)")
      case None
      then show ?thesis using one False step by (simp add: feeds_def)
    next
      case (Some C)
      then obtain r' B' where r': "?one ?p ?r = Some r'" "fast r'" "book_rep (me_book (re_matcher r')) B'"
        "untimed B' = C" "limits_of (me_book (re_matcher r')) = L" using one by auto
      show ?thesis using Cons.IH [OF r'(2,3,5) wok(2) more [OF r'(1)]] step r'(1,4) Some False by simp
    qed
  qed
qed

text \<open>The messages of a packet, in the order the decoder delivers them.\<close>

lemma deliver_collect: "deliver (\<lambda>seq m s. s @ [m]) seq ms s = s @ ms"
  by (induction ms arbitrary: seq s) auto

text \<open>C6: From the wire to the digest. A packet of Add Order messages, any valid or invalid ones, is
  decoded completely; replaying its messages at full speed through a parser that agrees with
  \<open>ITCHParser\<close> ends exactly if the reference accepts every order, and then the book represents the
  reference's book up to timestamps and its digest is the one of the reference. The reference
  matches the orders of the packet one after the other on an abstract book.\<close>

theorem feed_correct:
  assumes "book_rep (me_book e) B" "limits_of (me_book e) = L" "agrees_with_itch big ctx parse unknown"
    "\<forall>w \<in> set ws. wire_ok w" "length ws < 2 ^ 16" "length session = 10"
  shows "\<exists>ps d'. mold_decode big (\<lambda>seq m s. s @ [m]) (mold_packet session seq (map wire_message ws) rest) [] d = Some (True, ps, d') \<and>
    feeds big L (feed L rules ws (untimed B)) (replay_run next_payload clock rules rt unknown parse (- 1)
      (replay_new \<lparr>ms_payloads = ps, ms_idx = 0\<rparr> e registry MaxThroughput factor))"
proof -
  let ?ps = "map wire_message ws"
  let ?r = "replay_new \<lparr>ms_payloads = ?ps, ms_idx = 0\<rparr> e registry MaxThroughput factor"
  have "mold_decode big (\<lambda>seq m s. s @ [m]) (mold_packet session seq ?ps rest) [] d =
      Some (True, ?ps, d\<lparr>expected_seq := seq + word_of_nat (length ?ps)\<rparr>)"
    using mold_roundtrip [of session ?ps big "\<lambda>seq m s. s @ [m]" seq rest "[]" d] assms(4-6)
    by (simp add: deliver_collect wire_ok_def)
  moreover have "unread (re_source ?r) = ?ps" by (simp add: replay_new_def unread_def)
  then have "replay_run next_payload clock rules rt unknown parse (- 1) ?r =
      replay_payloads next_payload (replay_one clock rules rt unknown parse) (- 1) ?ps ?r"
    by (rule memory.replay_run_pending)
  moreover have "feeds big L (feed L rules ws (untimed B))
      (replay_payloads next_payload (replay_one clock rules rt unknown parse) (- 1) ?ps ?r)"
    by (rule feed_payloads [OF assms(3) _ _ _ assms(4)])
      (use assms(1,2,5) in \<open>simp_all add: replay_new_def fast_def clock_new_def\<close>)
  ultimately show ?thesis by simp
qed

text \<open>For the witness: a sell that trades with the bid of \<open>demo_abs\<close>, and an order without quantity.\<close>

definition demo_wire :: "u64 \<Rightarrow> u32 \<Rightarrow> wire_order" where
  "demo_wire k q = \<lparr>wo_type = 65, wo_head = replicate 10 0, wo_id = k, wo_side = 83, wo_shares = q,
     wo_stock = replicate 8 32, wo_price = 90, wo_tail = []\<rparr>"

definition demo_parse :: "u8 list \<Rightarrow> book_update" where
  "demo_parse p = (case itch_parse False demo_context p of Some (Some u, _) \<Rightarrow> u | _ \<Rightarrow> book_update_init\<lparr>upd_type := 0\<rparr>)"

lemma demo_parse_agrees: "agrees_with_itch False demo_context demo_parse 0"
  by (auto simp: agrees_with_itch_def demo_parse_def update_type_defs split: option.splits prod.splits)

lemma demo_wire_ok: "wire_ok (demo_wire k q)"
  by (simp add: wire_ok_def demo_wire_def wire_message_def add_order_message_def)

lemma demo_feed: "feed L [] [demo_wire 8 3, demo_wire 9 0] (untimed demo_abs) = Some (apply_fills [(100, 7, 3)] demo_abs)"
proof -
  have a: "wire_action (demo_wire 8 3) = demo_action 8 1 Limit 90 3"
    by (simp add: wire_action_def demo_wire_def demo_action_def)
  have u: "untimed demo_abs = demo_abs"
    by (simp add: demo_abs_def untimed_add) (simp add: untimed_def untime_def empty_book_def)
  have "feed_fits L (demo_action 8 1 Limit 90 3) demo_abs"
    by (simp add: feed_fits_def demo_fills rests_def kMaxTradesPerMatch_def)
  moreover have "untimed_match (demo_action 8 1 Limit 90 3) demo_abs = apply_fills [(100, 7, 3)] demo_abs"
    by (simp add: untimed_match_def demo_fills rests_def u)
  moreover have "wo_shares (demo_wire 8 3) = 3" "wo_price (demo_wire 8 3) = 90" "wo_shares (demo_wire 9 0) = 0"
    by (simp_all add: demo_wire_def)
  ultimately show ?thesis by (simp add: a u feed_match_def risk_evaluate_def)
qed

theorem feed_correct_witness:
  "\<exists>b ps d' r. book_rep b demo_abs \<and>
    mold_decode False (\<lambda>seq m s. s @ [m]) (mold_packet (replicate 10 32) 41 (map wire_message [demo_wire 8 3, demo_wire 9 0]) [])
      [] mold_decoder_new = Some (True, ps, d') \<and>
    replay_run next_payload (\<lambda>n. 0) [] 9 0 demo_parse (- 1)
      (replay_new \<lparr>ms_payloads = ps, ms_idx = 0\<rparr> (demo_engine b) None MaxThroughput 1) = Some r \<and>
    compute_digest False (me_book (re_matcher r)) = Some (digest_of False (apply_fills [(100, 7, 3)] demo_abs))"
proof -
  obtain b where b: "book_rep b demo_abs" using demo_book by blast
  have rep: "book_rep (me_book (demo_engine b)) demo_abs" using b by (simp add: demo_engine_def)
  from feed_correct [OF rep refl demo_parse_agrees, of "[demo_wire 8 3, demo_wire 9 0]" "replicate 10 32" 41 "[]" mold_decoder_new
      "[]" "\<lambda>n. 0" 9 None 1, unfolded demo_feed] b
  show ?thesis by (auto simp: demo_wire_ok feeds_def)
qed

end
