(* ===== verification/TC_Verifier.thy ===== *)
theory TC_Verifier
  imports TC_Order_Book_Contract
begin

text \<open>
  \<open>orderbook/order_book_verifier.hpp\<close>: the debug checks of a book. A span of levels or orders is
  a list; an index outside a span the code does not guard has no result. The two while loops that
  follow links are partial, since links may form a cycle. \<open>check_order_uniqueness\<close> refers to names
  it does not declare (\<open>walk\<close>, \<open>seen_pool_indices\<close>); its declared part, the lambda that walks the
  levels, is \<open>check_levels\<close>, and the whole check is a parameter of \<open>verify\<close>. The map is the list of
  entries its iteration yields.
\<close>

section \<open>Results and spans\<close>

record verification_result =
  vr_ok :: bool
  vr_first_failure :: string

definition verification_result_init :: verification_result where
  "verification_result_init = \<lparr>vr_ok = True, vr_first_failure = ''''\<rparr>"

definition fail :: "string \<Rightarrow> verification_result \<Rightarrow> verification_result" where
  "fail msg r = (if vr_ok r then r\<lparr>vr_ok := False, vr_first_failure := msg\<rparr> else r)"

definition span_at :: "'a list \<Rightarrow> u32 \<Rightarrow> 'a option" where
  "span_at xs i = (if unat i < length xs then Some (xs ! unat i) else None)"

section \<open>The checks\<close>

fun check_level_ordering :: "price_level list \<Rightarrow> bool \<Rightarrow> verification_result \<Rightarrow> verification_result" where
  "check_level_ordering (prev # cur # levels) ascending r =
     (if pl_price prev = 0 \<or> pl_price cur = 0 then check_level_ordering (cur # levels) ascending r
      else if ascending then
        (if pl_price prev \<ge> pl_price cur then fail ''Ask levels not strictly ascending'' r
         else check_level_ordering (cur # levels) ascending r)
      else
        (if pl_price prev \<le> pl_price cur then fail ''Bid levels not strictly descending'' r
         else check_level_ordering (cur # levels) ascending r))"
| "check_level_ordering levels ascending r = r"

definition check_no_crossed_book :: "price_level list \<Rightarrow> price_level list \<Rightarrow> u32 \<Rightarrow> u32 \<Rightarrow>
    verification_result \<Rightarrow> verification_result" where
  "check_no_crossed_book bid_levels ask_levels best_bid_idx best_ask_idx r =
     (if best_bid_idx = kInvalidPoolIndex \<or> best_ask_idx = kInvalidPoolIndex then r
      else if unat best_bid_idx \<ge> length bid_levels \<or> unat best_ask_idx \<ge> length ask_levels then r
      else if pl_price (bid_levels ! unat best_bid_idx) \<ge> pl_price (ask_levels ! unat best_ask_idx)
      then fail ''Crossed book: best_bid.price >= best_ask.price'' r
      else r)"

text \<open>The walk over the queue of one level; the flag says that the walk is to go on.\<close>

partial_function (option) walk_orders :: "order list \<Rightarrow> flat_hash_map \<Rightarrow> u32 \<Rightarrow> u64 set \<Rightarrow> verification_result \<Rightarrow>
    (bool \<times> u64 set \<times> verification_result) option" where
  "walk_orders orders order_map cur seen r = (if cur \<noteq> kInvalidPoolIndex then
       (if unat cur \<ge> length orders then Some (False, seen, fail ''Order pool index out of bounds'' r)
        else do {
          let ord = orders ! unat cur;
          let oid = ord_id ord;
          if oid \<in> seen then Some (False, seen, fail ''Duplicate OrderId found within levels'' r)
          else do {
            let seen = insert oid seen;
            c \<leftarrow> fm_contains order_map oid;
            if \<not> c then Some (False, seen, fail ''Order present in level but missing from map (ghost order)'' r)
            else walk_orders orders order_map (ord_next_in_level ord) seen r
          }
        })
     else Some (True, seen, r))"

fun check_levels :: "order list \<Rightarrow> flat_hash_map \<Rightarrow> price_level list \<Rightarrow> u64 set \<Rightarrow> verification_result \<Rightarrow>
    (u64 set \<times> verification_result) option" where
  "check_levels orders order_map [] seen r = Some (seen, r)"
| "check_levels orders order_map (level # levels) seen r =
     (if pl_order_count level = 0 then check_levels orders order_map levels seen r
      else do {
        (go, seen, r) \<leftarrow> walk_orders orders order_map (pl_head_order_idx level) seen r;
        if go then check_levels orders order_map levels seen r else Some (seen, r)
      })"

text \<open>The sum over a queue; the inner \<open>None\<close> is an index out of bounds.\<close>

partial_function (option) sum_orders :: "order list \<Rightarrow> u32 \<Rightarrow> u32 \<Rightarrow> u32 option option" where
  "sum_orders orders idx acc = (if idx \<noteq> kInvalidPoolIndex then
       (if unat idx \<ge> length orders then Some None
        else sum_orders orders (ord_next_in_level (orders ! unat idx)) (acc + ord_remaining_qty (orders ! unat idx)))
     else Some (Some acc))"

fun check_level_quantities :: "price_level list \<Rightarrow> order list \<Rightarrow> verification_result \<Rightarrow> verification_result option" where
  "check_level_quantities [] orders r = Some r"
| "check_level_quantities (level # levels) orders r =
     (if pl_order_count level = 0 then check_level_quantities levels orders r
      else do {
        s \<leftarrow> sum_orders orders (pl_head_order_idx level) 0;
        case s of
          None \<Rightarrow> Some (fail ''Pool index OOB in level qty check'' r)
        | Some acc \<Rightarrow> check_level_quantities levels orders
            (if acc \<noteq> pl_total_qty level then fail ''Level total_qty != sum(order.remaining_qty)'' r else r)
      })"

fun check_order_map_consistency :: "order list \<Rightarrow> (u64 \<times> u32) list \<Rightarrow> verification_result \<Rightarrow> verification_result" where
  "check_order_map_consistency orders [] r = r"
| "check_order_map_consistency orders ((key, pool_idx) # order_map) r =
     (if unat pool_idx \<ge> length orders then fail ''HashMap points to invalid pool index'' r
      else if ord_id (orders ! unat pool_idx) \<noteq> key then fail ''HashMap order_id mismatch with pool slot'' r
      else check_order_map_consistency orders order_map r)"

partial_function (option) check_avl_topology :: "price_level list \<Rightarrow> u32 \<Rightarrow> u32 \<Rightarrow> u32 set \<Rightarrow> verification_result \<Rightarrow>
    (int \<times> u32 set \<times> verification_result) option" where
  "check_avl_topology levels idx expected_parent visited r =
     (if idx = kInvalidPoolIndex then Some (0, visited, r)
      else if unat idx \<ge> length levels then Some (- 1, visited, fail ''AVL child index out of bounds'' r)
      else if idx \<in> visited
      then Some (- 1, visited, fail ''AVL tree contains cycles (node reachable multiple times)'' r)
      else do {
        let visited = insert idx visited;
        let node = pl_node (levels ! unat idx);
        if nd_parent node \<noteq> expected_parent then Some (- 1, visited, fail ''AVL parent pointer mismatch'' r)
        else do {
          (left_h, visited, r) \<leftarrow> check_avl_topology levels (nd_left node) idx visited r;
          (right_h, visited, r) \<leftarrow> check_avl_topology levels (nd_right node) idx visited r;
          if \<not> vr_ok r then Some (- 1, visited, r)
          else do {
            let computed_height = 1 + max left_h right_h;
            let r = (if nd_height node \<noteq> computed_height
              then fail ''AVL stored height does not match computed height'' r else r);
            let balance = right_h - left_h;
            let r = (if balance < - 1 \<or> balance > 1 then fail ''AVL balance factor out of range [-1, 1]'' r else r);
            Some (computed_height, visited, r)
          }
        }
      })"

text \<open>The descents of \<open>check_bbo_cache\<close>, to the left for asks and to the right for bids.\<close>

partial_function (option) descend :: "price_level list \<Rightarrow> bool \<Rightarrow> u32 \<Rightarrow> u32 option" where
  "descend levels is_ask cur = do {
     lvl \<leftarrow> span_at levels cur;
     let nxt = (if is_ask then nd_left (pl_node lvl) else nd_right (pl_node lvl));
     if nxt \<noteq> kInvalidPoolIndex then descend levels is_ask nxt else Some cur
   }"

definition check_bbo_cache :: "price_level list \<Rightarrow> u32 \<Rightarrow> u32 \<Rightarrow> bool \<Rightarrow> verification_result \<Rightarrow>
    verification_result option" where
  "check_bbo_cache levels root_idx bbo is_ask r =
     (if root_idx = kInvalidPoolIndex then
        Some (if bbo \<noteq> kInvalidPoolIndex then fail ''BBO cache is set but tree is empty'' r else r)
      else if bbo = kInvalidPoolIndex then Some (fail ''BBO cache is invalid but tree is not empty'' r)
      else do {
        cur \<leftarrow> descend levels is_ask root_idx;
        Some (if cur \<noteq> bbo then fail ''BBO cache does not match tree min/max'' r else r)
      })"

text \<open>The walk of \<open>check_fifo_ordering\<close> over a queue: a failure message ends the check.\<close>

partial_function (option) fifo_orders :: "order list \<Rightarrow> u32 \<Rightarrow> u64 \<Rightarrow> string option option" where
  "fifo_orders orders idx prev_ts = (if idx \<noteq> kInvalidPoolIndex then
       (if unat idx \<ge> length orders then Some (Some ''Pool index OOB in FIFO check'')
        else if ord_timestamp_ns (orders ! unat idx) < prev_ts
        then Some (Some ''FIFO violated: timestamp not monotonic within price level'')
        else fifo_orders orders (ord_next_in_level (orders ! unat idx)) (ord_timestamp_ns (orders ! unat idx)))
     else Some None)"

fun check_fifo_ordering :: "price_level list \<Rightarrow> order list \<Rightarrow> verification_result \<Rightarrow> verification_result option" where
  "check_fifo_ordering [] orders r = Some r"
| "check_fifo_ordering (level # levels) orders r =
     (if pl_order_count level \<le> 1 then check_fifo_ordering levels orders r
      else do {
        m \<leftarrow> fifo_orders orders (pl_head_order_idx level) 0;
        case m of
          Some msg \<Rightarrow> Some (fail msg r)
        | None \<Rightarrow> check_fifo_ordering levels orders r
      })"

section \<open>The verification pass\<close>

definition verify :: "(verification_result \<Rightarrow> verification_result option) \<Rightarrow> price_level list \<Rightarrow> price_level list \<Rightarrow>
    order list \<Rightarrow> (u64 \<times> u32) list \<Rightarrow> u32 \<Rightarrow> u32 \<Rightarrow> u32 \<Rightarrow> u32 \<Rightarrow> verification_result option" where
  "verify check_order_uniqueness bid_levels ask_levels orders order_map bid_root_idx ask_root_idx best_bid_idx best_ask_idx =
     (let r = check_level_ordering bid_levels False verification_result_init in
      if \<not> vr_ok r then Some r else
      let r = check_level_ordering ask_levels True r in
      if \<not> vr_ok r then Some r else
      let r = check_no_crossed_book bid_levels ask_levels best_bid_idx best_ask_idx r in
      if \<not> vr_ok r then Some r else do {
        r \<leftarrow> check_order_uniqueness r;
        if \<not> vr_ok r then Some r else do {
          r \<leftarrow> check_level_quantities bid_levels orders r;
          r \<leftarrow> check_level_quantities ask_levels orders r;
          if \<not> vr_ok r then Some r else do {
            let r = check_order_map_consistency orders order_map r;
            if \<not> vr_ok r then Some r else do {
              (_, _, r) \<leftarrow> check_avl_topology bid_levels bid_root_idx kInvalidPoolIndex {} r;
              (_, _, r) \<leftarrow> check_avl_topology ask_levels ask_root_idx kInvalidPoolIndex {} r;
              if \<not> vr_ok r then Some r else do {
                r \<leftarrow> check_fifo_ordering bid_levels orders r;
                r \<leftarrow> check_fifo_ordering ask_levels orders r;
                if \<not> vr_ok r then Some r else do {
                  r \<leftarrow> check_bbo_cache bid_levels bid_root_idx best_bid_idx False r;
                  check_bbo_cache ask_levels ask_root_idx best_ask_idx True r
                }
              }
            }
          }
        }
      })"

lemma fail_ok [simp]: "\<not> vr_ok (fail m r)"
  by (simp add: fail_def)

section \<open>The topology check\<close>

text \<open>It always returns: every call that recurses visits a new node. Failures are never undone.\<close>

lemma topology_total:
  "\<exists>h V' r'. check_avl_topology levels i par V r = Some (h, V', r') \<and> V \<subseteq> V' \<and> (vr_ok r' \<longrightarrow> vr_ok r)"
proof (induction "card ({j. unat j < length levels} - V)" arbitrary: i par V r rule: less_induct)
  case less
  show ?case
  proof (cases "i = kInvalidPoolIndex \<or> unat i \<ge> length levels \<or> i \<in> V \<or> nd_parent (pl_node (levels ! unat i)) \<noteq> par")
    case True
    then show ?thesis by (subst check_avl_topology.simps) (auto simp: Let_def)
  next
    case False
    have sm: "card ({j. unat j < length levels} - W) < card ({j. unat j < length levels} - V)" if "insert i V \<subseteq> W" for W
      by (rule psubset_card_mono) (use False that in auto)
    obtain h1 V1 r1 where 1: "check_avl_topology levels (nd_left (pl_node (levels ! unat i))) i (insert i V) r = Some (h1, V1, r1)"
      "insert i V \<subseteq> V1" "vr_ok r1 \<longrightarrow> vr_ok r"
      using less [OF sm [OF order.refl]] by blast
    obtain h2 V2 r2 where 2: "check_avl_topology levels (nd_right (pl_node (levels ! unat i))) i V1 r1 = Some (h2, V2, r2)"
      "V1 \<subseteq> V2" "vr_ok r2 \<longrightarrow> vr_ok r1"
      using less [OF sm [OF 1(2)]] by blast
    show ?thesis using False 1 2 by (subst check_avl_topology.simps) (auto simp: Let_def)
  qed
qed

text \<open>Success means an AVL tree of fresh nodes, and every such tree succeeds.\<close>

definition fresh_tree :: "price_level list \<Rightarrow> u32 \<Rightarrow> u32 \<Rightarrow> u32 set \<Rightarrow> u32 tree \<Rightarrow> bool" where
  "fresh_tree levels par i V t \<longleftrightarrow> tree_at (span_at levels) par i t \<and> avl t \<and> distinct (inorder t) \<and> set_tree t \<inter> V = {}"

lemma topology_sound:
  assumes "check_avl_topology levels i par V r = Some (h, V', r')" "vr_ok r'"
  shows "\<exists>t. fresh_tree levels par i V t \<and> V' = V \<union> set_tree t \<and> h = int (height t)"
  using assms
proof (induction "card ({j. unat j < length levels} - V)" arbitrary: i par V r h V' r' rule: less_induct)
  case less
  note run = less.prems(1) [unfolded check_avl_topology.simps [of levels i]]
  show ?case
  proof (cases "i = kInvalidPoolIndex")
    case True
    with run show ?thesis by (intro exI [of _ Leaf]) (simp add: fresh_tree_def)
  next
    case False
    let ?n = "pl_node (levels ! unat i)"
    have valid: "unat i < length levels" "i \<notin> V" "nd_parent ?n = par"
      using run False less.prems(2) by (auto simp: Let_def not_le split: if_splits)
    have sm: "card ({j. unat j < length levels} - W) < card ({j. unat j < length levels} - V)" if "insert i V \<subseteq> W" for W
      by (rule psubset_card_mono) (use valid that in auto)
    obtain h1 V1 r1 where 1: "check_avl_topology levels (nd_left ?n) i (insert i V) r = Some (h1, V1, r1)"
      using topology_total by blast
    obtain h2 V2 r2 where 2: "check_avl_topology levels (nd_right ?n) i V1 r1 = Some (h2, V2, r2)" "vr_ok r2 \<longrightarrow> vr_ok r1"
      using topology_total by blast
    have ok: "vr_ok r2" "nd_height ?n = 1 + max h1 h2" "\<not> h2 - h1 < - 1" "\<not> h2 - h1 > 1" "h = 1 + max h1 h2" "V' = V2"
      using run False valid 1 2(1) less.prems(2) by (auto simp: Let_def not_le split: if_splits)
    obtain l where l: "fresh_tree levels i (nd_left ?n) (insert i V) l" "V1 = insert i V \<union> set_tree l" "h1 = int (height l)"
      using less.hyps [OF sm [OF order.refl] 1] 2(2) ok(1) by blast
    obtain rt where rt: "fresh_tree levels i (nd_right ?n) V1 rt" "V2 = V1 \<union> set_tree rt" "h2 = int (height rt)"
      using less.hyps [OF sm 2(1) ok(1)] l(2) by blast
    have "span_at levels i = Some (levels ! unat i)" using valid by (simp add: span_at_def)
    then have "fresh_tree levels par i V (Node l i rt)"
      using l rt valid ok False by (auto simp: fresh_tree_def)
    then show ?thesis using ok l rt by (intro exI [of _ "Node l i rt"]) auto
  qed
qed

lemma topology_complete:
  assumes "fresh_tree levels par i V t" "vr_ok r"
  shows "check_avl_topology levels i par V r = Some (int (height t), V \<union> set_tree t, r)"
  using assms(1)
proof (induction t arbitrary: par i V)
  case Leaf
  then show ?case by (subst check_avl_topology.simps) (simp add: fresh_tree_def)
next
  case (Node l x rt)
  then obtain lv where lv: "i = x" "x \<noteq> kInvalidPoolIndex" "span_at levels x = Some lv" "nd_parent (pl_node lv) = par"
    "nd_height (pl_node lv) = int (height (Node l x rt))" "tree_at (span_at levels) x (nd_left (pl_node lv)) l"
    "tree_at (span_at levels) x (nd_right (pl_node lv)) rt"
    by (auto simp: fresh_tree_def)
  have lt: "unat x < length levels" "levels ! unat x = lv" using lv(3) by (auto simp: span_at_def split: if_splits)
  have f: "fresh_tree levels x (nd_left (pl_node lv)) (insert x V) l"
    "fresh_tree levels x (nd_right (pl_node lv)) (insert x V \<union> set_tree l) rt" "x \<notin> V"
    using Node.prems lv by (auto simp: fresh_tree_def)
  have b: "\<not> int (height rt) - int (height l) < - 1" "\<not> int (height rt) - int (height l) > 1"
    using Node.prems by (auto simp: fresh_tree_def)
  show ?case
    using Node.IH(1) [OF f(1)] Node.IH(2) [OF f(2)] lv lt f(3) b assms(2)
    by (subst check_avl_topology.simps) (simp add: Let_def of_nat_max Un_ac)
qed

text \<open>C33: The topology check terminates and decides. On any span, from any root and with any links,
  cyclic ones included, it returns; and it reports success exactly when the root carries an AVL
  tree: every index inside the span, no node met twice, every parent link and stored height right,
  every balance factor between -1 and 1. It then returns the height of that tree.\<close>

theorem topology_check_decides:
  "\<exists>h V r. check_avl_topology levels root_idx kInvalidPoolIndex {} verification_result_init = Some (h, V, r) \<and>
    (vr_ok r \<longleftrightarrow> (\<exists>t. tree_at (span_at levels) kInvalidPoolIndex root_idx t \<and> avl t \<and> distinct (inorder t)))"
proof -
  obtain h V r where run: "check_avl_topology levels root_idx kInvalidPoolIndex {} verification_result_init = Some (h, V, r)"
    using topology_total by blast
  have ok: "vr_ok verification_result_init" by (simp add: verification_result_init_def)
  have "vr_ok r \<longleftrightarrow> (\<exists>t. fresh_tree levels kInvalidPoolIndex root_idx {} t)"
  proof
    assume "\<exists>t. fresh_tree levels kInvalidPoolIndex root_idx {} t"
    then obtain t where "fresh_tree levels kInvalidPoolIndex root_idx {} t" by (elim exE)
    from topology_complete [OF this ok] run ok show "vr_ok r" by simp
  next
    assume "vr_ok r"
    from topology_sound [OF run this] show "\<exists>t. fresh_tree levels kInvalidPoolIndex root_idx {} t" by (elim exE conjE) (rule exI)
  qed
  then have "vr_ok r \<longleftrightarrow> (\<exists>t. tree_at (span_at levels) kInvalidPoolIndex root_idx t \<and> avl t \<and> distinct (inorder t))"
    by (simp only: fresh_tree_def Int_empty_right simp_thms)
  with run show ?thesis by (intro exI conjI)
qed

section \<open>What the checks say of a represented book\<close>

text \<open>A span over the storage of a pool: its live slots hold their objects, the others anything.\<close>

definition span_of :: "'a object_pool \<Rightarrow> 'a list \<Rightarrow> bool" where
  "span_of pool xs \<longleftrightarrow> length xs = capacity pool \<and> (\<forall>i x. pool_at pool i = Some x \<longrightarrow> span_at xs i = Some x)"

lemma span_atD: "span_of pool xs \<Longrightarrow> pool_at pool i = Some x \<Longrightarrow> unat i < length xs \<and> xs ! unat i = x"
  by (auto simp: span_of_def span_at_def split: if_splits)

lemma sum_orders_ok:
  assumes "span_of pool orders" "chain (pool_at pool) i xs"
  shows "sum_orders orders i acc = Some (Some (acc + sum_list (map (remaining (pool_at pool)) xs)))"
  using assms(2)
proof (induction xs arbitrary: i acc)
  case Nil
  then show ?case by (subst sum_orders.simps) simp
next
  case (Cons x xs)
  then obtain r where r: "i = x" "x \<noteq> kInvalidPoolIndex" "pool_at pool x = Some r"
    "chain (pool_at pool) (ord_next_in_level r) xs" by auto
  from span_atD [OF assms(1) r(3)] show ?case
    using r Cons.IH [OF r(4)] by (subst sum_orders.simps) (simp add: add.assoc)
qed

text \<open>A level is summed right when it is empty or its queue adds up to its total.\<close>

lemma quantities_ok:
  assumes "\<forall>l \<in> set levels. pl_order_count l = 0 \<or> sum_orders orders (pl_head_order_idx l) 0 = Some (Some (pl_total_qty l))"
  shows "check_level_quantities levels orders r = Some r"
  using assms by (induction levels) auto

lemma map_ok:
  assumes "\<forall>(k, i) \<in> set es. unat i < length orders \<and> ord_id (orders ! unat i) = k"
  shows "check_order_map_consistency orders es r = r"
  using assms by (induction es) auto

lemma tree_at_span:
  assumes "span_of pool levels" "tree_at (pool_at pool) par i t"
  shows "tree_at (span_at levels) par i t"
proof (rule tree_at_frame [OF assms(2)])
  fix j assume "j \<in> set_tree t"
  then obtain x where "pool_at pool j = Some x" using tree_at_live [OF assms(2)] by blast
  with assms(1) show "span_at levels j = pool_at pool j" by (simp add: span_of_def)
qed

lemma descend_ok:
  assumes "tree_at (span_at levels) par i t" "t \<noteq> Leaf"
  shows "descend levels is_ask i = (if is_ask then tmin t else tmax t)"
  using assms
proof (induction t arbitrary: par i)
  case (Node l x rt)
  then obtain lv where lv: "i = x" "span_at levels x = Some lv" "tree_at (span_at levels) x (nd_left (pl_node lv)) l"
    "tree_at (span_at levels) x (nd_right (pl_node lv)) rt" by auto
  have "nd_left (pl_node lv) = kInvalidPoolIndex \<longleftrightarrow> l = Leaf" "nd_right (pl_node lv) = kInvalidPoolIndex \<longleftrightarrow> rt = Leaf"
    by (rule tree_at_Leaf_iff [OF lv(3)], rule tree_at_Leaf_iff [OF lv(4)])
  then show ?case using lv Node.IH(1) [OF lv(3)] Node.IH(2) [OF lv(4)] by (subst descend.simps) auto
qed simp

lemma bbo_cache_ok:
  assumes rep: "side_rep sd pool t" and sp: "span_of pool levels"
  shows "check_bbo_cache levels (avl_root sd) (bbo_idx sd) (bs_side sd \<noteq> 0) r = Some r"
proof -
  have t: "tree_at (span_at levels) kInvalidPoolIndex (avl_root sd) t" by (rule tree_at_span [OF sp side_rep_tree [OF rep]])
  have b: "bbo_idx sd = or_invalid (best_in (bs_side sd) t)" using rep by (simp add: side_rep_def)
  show ?thesis
  proof (cases "t = Leaf")
    case True
    then show ?thesis using t b by (simp add: check_bbo_cache_def best_in_def)
  next
    case False
    then obtain j where j: "best_in (bs_side sd) t = Some j" using best_in_None [of "bs_side sd" t] by auto
    have "j \<noteq> kInvalidPoolIndex" using side_rep_live [OF rep best_in_mem [OF j]] by simp
    moreover have "descend levels (bs_side sd \<noteq> 0) (avl_root sd) = Some j"
      using descend_ok [OF t False] j by (auto simp: best_in_def)
    moreover have "avl_root sd \<noteq> kInvalidPoolIndex" using tree_at_Leaf_iff [OF t] False by simp
    ultimately show ?thesis using b j by (simp add: check_bbo_cache_def)
  qed
qed

lemma side_topology_ok:
  assumes rep: "side_rep sd pool t" and sp: "span_of pool levels" and r: "vr_ok r"
  shows "check_avl_topology levels (avl_root sd) kInvalidPoolIndex {} r = Some (int (height t), set_tree t, r)"
proof -
  have "fresh_tree levels kInvalidPoolIndex (avl_root sd) {} t"
    using tree_at_span [OF sp side_rep_tree [OF rep]] sorted_by_distinct [OF side_rep_sorted [OF rep]] rep
    by (simp add: fresh_tree_def side_rep_def)
  from topology_complete [OF this r] show ?thesis by simp
qed

text \<open>C34: No false alarms. Take a book that represents an abstract book, spans over the storage of
  its pools in which unused levels count no orders, and entries of its index. Then the quantity,
  map, topology and best-price checks of both sides pass and leave the result as it was.\<close>

theorem verifier_accepts_book:
  assumes rep: "book_rep b B" and sl: "span_of (ob_levels b) levels" and so: "span_of (ob_orders b) orders"
    and idle: "\<forall>i < length levels. word_of_nat i \<notin> dom (lvls b) \<longrightarrow> pl_order_count (levels ! i) = 0"
    and es: "\<forall>(k, i) \<in> set entries. fm_map (ob_index b) k = Some i" and r: "vr_ok r"
  shows "check_level_quantities levels orders r = Some r \<and> check_order_map_consistency orders entries r = r \<and>
    map_option (snd \<circ> snd) (check_avl_topology levels (avl_root (ob_bids b)) kInvalidPoolIndex {} r) = Some r \<and>
    map_option (snd \<circ> snd) (check_avl_topology levels (avl_root (ob_asks b)) kInvalidPoolIndex {} r) = Some r \<and>
    check_bbo_cache levels (avl_root (ob_bids b)) (bbo_idx (ob_bids b)) False r = Some r \<and>
    check_bbo_cache levels (avl_root (ob_asks b)) (bbo_idx (ob_asks b)) True r = Some r"
    (is "?quantities \<and> ?map \<and> ?tb \<and> ?ta \<and> ?bb \<and> ?ba")
proof -
  obtain T Q where inv: "book_inv b T Q" using rep by (auto simp: book_rep_def)
  then have c: "trees_ok b T" "queues_ok b Q" "totals_ok b Q" "pools_ok b" "index_ok b"
    by (auto simp: book_inv_def book_core_def)
  have s: "sides b True = ob_bids b" "sides b False = ob_asks b" by (simp_all add: sides_def)
  note rb = trees_okD(1,2) [OF c(1), of True, unfolded s] and ra = trees_okD(1,2) [OF c(1), of False, unfolded s]
  have tb: ?tb by (simp add: side_topology_ok [OF rb(1) sl r])
  have ta: ?ta by (simp add: side_topology_ok [OF ra(1) sl r])
  have bb: ?bb using bbo_cache_ok [OF rb(1) sl] rb(2) by simp
  have ba: ?ba using bbo_cache_ok [OF ra(1) sl] ra(2) by simp
  have map: ?map
  proof (rule map_ok, clarify)
    fix k i assume "(k, i) \<in> set entries"
    then obtain x where "ords b i = Some x" "ord_id x = k" using es c(5) by (auto simp: index_ok_def)
    with span_atD [OF so] show "unat i < length orders \<and> ord_id (orders ! unat i) = k" by blast
  qed
  have ?quantities
  proof (rule quantities_ok, rule ballI)
    fix l assume "l \<in> set levels"
    then obtain i where i: "i < length levels" "levels ! i = l" by (auto simp: in_set_conv_nth)
    show "pl_order_count l = 0 \<or> sum_orders orders (pl_head_order_idx l) 0 = Some (Some (pl_total_qty l))"
    proof (cases "lvls b (word_of_nat i)")
      case None
      then show ?thesis using idle i by auto
    next
      case (Some l')
      have "length levels < 2 ^ 32" using c(4) sl by (auto simp: pools_ok_def pool_wf_def span_of_def capacity_def)
      then have "unat (word_of_nat i :: u32) = i" using i(1) by simp
      then have l: "lvls b (word_of_nat i) = Some l" using span_atD [OF sl Some] Some i(2) by simp
      have "chain (ords b) (pl_head_order_idx l) (Q (word_of_nat i))" using queue_at(1) [OF c(2) l] by (simp add: queue_ok_def)
      then show ?thesis using sum_orders_ok [OF so] c(3) l by (simp add: totals_ok_def)
    qed
  qed
  with map tb ta bb ba show ?thesis by (intro conjI)
qed

lemma spans_exist: "\<exists>xs. span_of pool xs \<and> (\<forall>i < length xs. word_of_nat i \<notin> dom (pool_at pool) \<longrightarrow> xs ! i = d)"
proof -
  define f where "f i = (case pool_at pool (word_of_nat i) of None \<Rightarrow> d | Some x \<Rightarrow> x)" for i
  let ?xs = "map f [0..<capacity pool]"
  have "span_at ?xs i = Some x" if "pool_at pool i = Some x" for i x
  proof -
    have "unat i < capacity pool" using that by (auto simp: pool_at_def capacity_def split: if_splits)
    then show ?thesis using that by (simp add: span_at_def f_def)
  qed
  then have "span_of pool ?xs" by (simp add: span_of_def)
  moreover have "?xs ! i = d" if "i < length ?xs" "word_of_nat i \<notin> dom (pool_at pool)" for i
    using that by (simp add: f_def domIff)
  ultimately show ?thesis by blast
qed

theorem verifier_accepts_book_witness:
  "\<exists>b levels orders. book_rep b demo_abs \<and>
    check_level_quantities levels orders verification_result_init = Some verification_result_init \<and>
    check_bbo_cache levels (avl_root (ob_bids b)) (bbo_idx (ob_bids b)) False verification_result_init = Some verification_result_init"
proof -
  obtain b where b: "book_rep b demo_abs" using demo_book by blast
  obtain levels where l: "span_of (ob_levels b) levels"
    "\<forall>i < length levels. word_of_nat i \<notin> dom (lvls b) \<longrightarrow> levels ! i = price_level_init"
    using spans_exist [of "ob_levels b" price_level_init] by (elim exE conjE)
  obtain orders where o: "span_of (ob_orders b) orders" using spans_exist [of "ob_orders b" order_init] by (elim exE conjE)
  have "\<forall>i < length levels. word_of_nat i \<notin> dom (lvls b) \<longrightarrow> pl_order_count (levels ! i) = 0"
    using l(2) by (simp add: price_level_init_def)
  from verifier_accepts_book [OF b l(1) o this, of "[]" verification_result_init] b
  show ?thesis by (auto simp: verification_result_init_def)
qed

section \<open>Level ordering on the storage of the pool\<close>

text \<open>\<open>OrderBook::verify\<close> passes the storage of the level pool as the span of both sides.\<close>

lemma ordering_step:
  "check_level_ordering (p # c # ls) asc r = check_level_ordering (c # ls) asc r \<or>
   \<not> vr_ok (check_level_ordering (p # c # ls) asc r)"
  by simp

lemma ordering_fails:
  assumes "Suc i < length levels" "pl_price (levels ! i) \<noteq> 0" "pl_price (levels ! Suc i) \<noteq> 0"
    "if asc then pl_price (levels ! Suc i) \<le> pl_price (levels ! i) else pl_price (levels ! i) \<le> pl_price (levels ! Suc i)"
  shows "\<not> vr_ok (check_level_ordering levels asc r)"
  using assms
proof (induction levels arbitrary: i)
  case (Cons p levels)
  then obtain c ls where l: "levels = c # ls" by (cases levels) auto
  show ?case
  proof (cases i)
    case 0
    then show ?thesis using Cons.prems l by (cases asc) (simp_all add: fail_def)
  next
    case (Suc k)
    then have "\<not> vr_ok (check_level_ordering levels asc r)" using Cons.prems
      by (intro Cons.IH [of k]) (simp_all split: if_splits)
    then show ?thesis using ordering_step [of p c ls asc r] unfolding l by metis
  qed
qed simp

text \<open>Two neighbours are enough to fail, whatever the rest of the book is: the one span is required to
  descend for the bids and to ascend for the asks.\<close>

lemma neighbours_rejected:
  assumes "Suc i < length levels" "pl_price (levels ! i) \<noteq> 0" "pl_price (levels ! Suc i) \<noteq> 0"
  shows "\<exists>r. verify uniqueness levels levels orders entries bid_root ask_root best_bid best_ask = Some r \<and> \<not> vr_ok r"
proof -
  let ?r = "check_level_ordering levels False verification_result_init"
  have "\<not> vr_ok ?r \<or> \<not> vr_ok (check_level_ordering levels True ?r)"
    using ordering_fails [OF assms, of False verification_result_init] ordering_fails [OF assms, of True ?r]
      linear [of "pl_price (levels ! i)" "pl_price (levels ! Suc i)"] by auto
  then show ?thesis by (auto simp: verify_def Let_def)
qed

end
