(* ===== verification/TC_Debug_Build.thy ===== *)
theory TC_Debug_Build
  imports TC_Verifier
begin

text \<open>
  The order book of a debug build: \<open>OrderBook::verify\<close> and the operations that call it. The
  verifier is given the storage of the level pool, free slots included, once as the bid levels and
  once as the ask levels. A free slot holds the index of the next free one where a level has its
  price, the first four bytes of both; \<open>stale\<close> is what its other bytes hold. What iterating the
  index yields and the uniqueness check that refers to undeclared names are parameters.
\<close>

section \<open>Verified operations\<close>

definition raw_levels :: "(nat \<Rightarrow> price_level) \<Rightarrow> level_pool \<Rightarrow> price_level list" where
  "raw_levels stale pool = map (\<lambda>i. case slots pool ! i of Obj l \<Rightarrow> l | Free n \<Rightarrow> (stale i)\<lparr>pl_price := n\<rparr>)
     [0..<length (slots pool)]"

definition raw_orders :: "(nat \<Rightarrow> order) \<Rightarrow> order_pool \<Rightarrow> order list" where
  "raw_orders stale pool = map (\<lambda>i. case slots pool ! i of Obj ord \<Rightarrow> ord | Free n \<Rightarrow> stale i) [0..<length (slots pool)]"

record debug_env =
  de_stale_levels :: "nat \<Rightarrow> price_level"
  de_stale_orders :: "nat \<Rightarrow> order"
  de_entries :: "flat_hash_map \<Rightarrow> (u64 \<times> u32) list"
  de_uniqueness :: "order_book \<Rightarrow> verification_result \<Rightarrow> verification_result option"

definition book_verify :: "debug_env \<Rightarrow> order_book \<Rightarrow> unit option" where
  "book_verify env b = do {
     let bid_levels = raw_levels (de_stale_levels env) (ob_levels b);
     let ask_levels = raw_levels (de_stale_levels env) (ob_levels b);
     let orders = raw_orders (de_stale_orders env) (ob_orders b);
     vr \<leftarrow> verify (de_uniqueness env b) bid_levels ask_levels orders (de_entries env (ob_index b))
       (avl_root (ob_bids b)) (avl_root (ob_asks b)) (bbo_idx (ob_bids b)) (bbo_idx (ob_asks b));
     tc_assert (vr_ok vr)
   }"

definition add_order_debug :: "debug_env \<Rightarrow> book_update \<Rightarrow> order_book \<Rightarrow> order_book option" where
  "add_order_debug env upd b = do { b \<leftarrow> add_order upd b; _ \<leftarrow> book_verify env b; Some b }"

definition cancel_order_debug :: "debug_env \<Rightarrow> book_update \<Rightarrow> order_book \<Rightarrow> order_book option" where
  "cancel_order_debug env upd b = do { b \<leftarrow> cancel_order upd b; _ \<leftarrow> book_verify env b; Some b }"

definition delete_order_debug :: "debug_env \<Rightarrow> book_update \<Rightarrow> order_book \<Rightarrow> order_book option" where
  "delete_order_debug env upd b = do { b \<leftarrow> delete_order upd b; _ \<leftarrow> book_verify env b; Some b }"

definition replace_order_debug :: "debug_env \<Rightarrow> book_update \<Rightarrow> order_book \<Rightarrow> order_book option" where
  "replace_order_debug env upd b = do {
     b \<leftarrow> delete_order_debug env upd b;
     add_order_debug env (upd\<lparr>upd_order_id := upd_match_id upd\<rparr>) b
   }"

definition modify_order_debug :: "debug_env \<Rightarrow> book_update \<Rightarrow> order_book \<Rightarrow> order_book option" where
  "modify_order_debug env upd b = do {
     order_idx \<leftarrow> fm_find (ob_index b) (upd_order_id upd);
     tc_assert (order_idx \<noteq> kEmpty);
     ord \<leftarrow> pool_at (ob_orders b) order_idx;
     if upd_qty upd < ord_remaining_qty ord
     then cancel_order_debug env (upd\<lparr>upd_qty := ord_remaining_qty ord - upd_qty upd\<rparr>) b
     else if upd_qty upd > ord_remaining_qty ord then do {
       b \<leftarrow> delete_order_debug env upd b;
       add_order_debug env (upd\<lparr>upd_price := ord_price ord, upd_side := ord_side ord\<rparr>) b
     } else Some b
   }"

definition dispatch_debug :: "debug_env \<Rightarrow> update_type \<Rightarrow> book_update \<Rightarrow> order_book \<Rightarrow> order_book option" where
  "dispatch_debug env replace_type upd b =
     ((\<lambda>_. ignore_update)(AddOrder := add_order_debug env, CancelOrder := cancel_order_debug env,
       ExecuteOrder := cancel_order_debug env, DeleteOrder := delete_order_debug env,
       replace_type := replace_order_debug env, ModifyOrder := modify_order_debug env)) (upd_type upd) upd b"

section \<open>The prices that free slots show\<close>

lemma free_chain_next:
  "free_chain s i fs \<Longrightarrow> y \<in> set fs \<Longrightarrow> s ! unat y = Free n \<Longrightarrow> n = kInvalidPoolIndex \<or> n \<in> set (tl fs)"
proof (induction fs arbitrary: i)
  case (Cons a fs)
  then obtain m where m: "s ! unat a = Free m" "free_chain s m fs" by auto
  show ?case
  proof (cases "y = a")
    case True
    then have "n = m" using m(1) Cons.prems(3) by simp
    then show ?thesis using m(2) by (cases fs) auto
  next
    case False
    then have "n = kInvalidPoolIndex \<or> n \<in> set (tl fs)" using Cons.IH [OF m(2)] Cons.prems(2,3) by simp
    then show ?thesis by (cases fs) auto
  qed
qed simp

lemma free_chain_inj:
  "free_chain s i fs \<Longrightarrow> distinct fs \<Longrightarrow> x \<in> set fs \<Longrightarrow> y \<in> set fs \<Longrightarrow> s ! unat x = Free n \<Longrightarrow>
     s ! unat y = Free n \<Longrightarrow> n \<noteq> kInvalidPoolIndex \<Longrightarrow> x = y"
proof (induction fs arbitrary: i)
  case (Cons a fs)
  then obtain m where m: "s ! unat a = Free m" "free_chain s m fs" by auto
  have no: "s ! unat z \<noteq> Free m" if "z \<in> set fs" "m \<noteq> kInvalidPoolIndex" for z
  proof
    assume "s ! unat z = Free m"
    then have "m \<in> set (tl fs)" using free_chain_next [OF m(2) that(1)] that(2) by simp
    moreover have "m = hd fs" using m(2) that(1) by (cases fs) auto
    ultimately show False using Cons.prems(2) by (cases fs) auto
  qed
  show ?case
  proof (cases "x = a \<or> y = a")
    case True
    then have "n = m" using m(1) Cons.prems(5,6) by auto
    then show ?thesis using True Cons.prems(3-7) no by auto
  next
    case False
    then show ?thesis using Cons.IH [OF m(2)] Cons.prems by simp
  qed
qed simp

lemma length_raw_levels [simp]: "length (raw_levels stale pool) = capacity pool"
  by (simp add: raw_levels_def capacity_def)

text \<open>A slot shows the price zero only if it is the free slot before slot zero.\<close>

lemma raw_zero_unique:
  assumes wf: "pool_wf pool" and live: "\<And>i l. pool_at pool i = Some l \<Longrightarrow> pl_price l \<noteq> 0"
    and i: "i < capacity pool" "pl_price (raw_levels stale pool ! i) = 0"
    and j: "j < capacity pool" "pl_price (raw_levels stale pool ! j) = 0"
  shows "i = j"
proof -
  obtain fs where fs: "length (slots pool) < 2 ^ 32" "free_chain (slots pool) (free_head pool) fs" "distinct fs"
    "\<And>k. k < length (slots pool) \<Longrightarrow> (\<exists>n. slots pool ! k = Free n) \<longleftrightarrow> word_of_nat k \<in> set fs"
    using wf unfolding pool_wf_def by blast
  have u: "unat (word_of_nat k :: u32) = k" if "k < capacity pool" for k
    using that fs(1) by (simp add: capacity_def unat_of_nat)
  have free: "slots pool ! k = Free 0" if "k < capacity pool" "pl_price (raw_levels stale pool ! k) = 0" for k
  proof (cases "slots pool ! k")
    case (Free n)
    then show ?thesis using that by (simp add: raw_levels_def capacity_def)
  next
    case (Obj l)
    then have "pool_at pool (word_of_nat k) = Some l" using that(1) u [OF that(1)] by (simp add: pool_at_def capacity_def)
    then show ?thesis using live that Obj by (simp add: raw_levels_def capacity_def)
  qed
  have "(word_of_nat i :: u32) = word_of_nat j"
    by (rule free_chain_inj [OF fs(2,3), where n = 0])
      (use free [OF i] free [OF j] i(1) j(1) fs(4) u in \<open>auto simp: capacity_def kInvalidPoolIndex_def\<close>)
  then show ?thesis using u [OF i(1)] u [OF j(1)] by metis
qed

lemma live_level_price:
  assumes "book_inv b T Q" "lvls b j = Some l"
  shows "pl_price l \<noteq> 0"
proof -
  have "Q j \<noteq> []" using assms by (auto simp: book_inv_def busy_ok_def)
  then obtain x where x: "x \<in> set (Q j)" by (cases "Q j") auto
  have "queue_ok (ords b) l (Q j)" using assms by (auto simp: book_inv_def book_core_def queues_ok_def)
  then obtain ord where "ords b x = Some ord" "ord_price ord = pl_price l" using x by (auto simp: queue_ok_def)
  then show ?thesis using assms(1) by (force simp: book_inv_def positive_ok_def)
qed

lemma book_verify_fails:
  assumes "book_rep b B" "4 \<le> capacity (ob_levels b)"
  shows "book_verify env b = None"
proof -
  obtain T Q where inv: "book_inv b T Q" using assms(1) by (auto simp: book_rep_def)
  let ?ls = "raw_levels (de_stale_levels env) (ob_levels b)"
  have "pool_wf (ob_levels b)" using inv by (simp add: book_inv_def book_core_def pools_ok_def)
  note zero = raw_zero_unique [OF this live_level_price [OF inv], where stale = "de_stale_levels env"]
  obtain i where i: "Suc i < length ?ls" "pl_price (?ls ! i) \<noteq> 0" "pl_price (?ls ! Suc i) \<noteq> 0"
  proof (cases "pl_price (?ls ! 0) = 0 \<or> pl_price (?ls ! 1) = 0")
    case True
    then have "pl_price (?ls ! 2) \<noteq> 0" "pl_price (?ls ! 3) \<noteq> 0"
      using zero [where i = 0 and j = 2] zero [where i = 0 and j = 3] zero [where i = 1 and j = 2] zero [where i = 1 and j = 3] assms(2) by auto
    then show ?thesis using assms(2) by (intro that [of 2]) (simp_all add: numeral_3_eq_3 numeral_2_eq_2)
  next
    case False
    then show ?thesis using assms(2) by (intro that [of 0]) simp_all
  qed
  from neighbours_rejected [OF this] show ?thesis
    unfolding book_verify_def Let_def by (metis Option.bind_lunit tc_assert_def)
qed

lemma verified_fails:
  assumes "book_rep b B" "4 \<le> capacity (ob_levels b)"
  shows "add_order_debug env upd b = None" "cancel_order_debug env upd b = None" "delete_order_debug env upd b = None"
proof -
  have fails: "book_verify env b' = None" if "limits_of b' = limits_of b" "book_rep b' B'" for b' B'
    using book_verify_fails [OF that(2)] that(1) assms(2) by (simp add: limits_of_def)
  show "add_order_debug env upd b = None"
    using add_order_refines [OF assms(1), of upd] fails
    by (fastforce simp: add_order_debug_def split: if_splits)
  show "cancel_order_debug env upd b = None"
    using cancel_order_refines [OF assms(1), of upd] fails
    by (fastforce simp: cancel_order_debug_def split: if_splits)
  show "delete_order_debug env upd b = None"
    using delete_order_refines [OF assms(1), of upd] fails
    by (fastforce simp: delete_order_debug_def split: if_splits)
qed

text \<open>C35: A debug build cannot change a book. The verifier rejects every book with room for at least
  four levels, whatever rests in it, because no two neighbouring slots of the level pool may both
  show a price, and of all slots at most one shows none. So whatever a verified dispatch returns is
  the book it was given: every message that would change a book ends in the failed assertion.\<close>

theorem debug_build_frozen:
  assumes "book_rep b B" "4 \<le> capacity (ob_levels b)"
  shows "book_verify env b = None \<and> (\<forall>upd b'. dispatch_debug env rt upd b = Some b' \<longrightarrow> b' = b)"
proof (intro conjI allI impI)
  show "book_verify env b = None" by (rule book_verify_fails [OF assms])
  fix upd b' assume "dispatch_debug env rt upd b = Some b'"
  then show "b' = b"
    by (auto simp: dispatch_debug_def ignore_update_def replace_order_debug_def modify_order_debug_def
        verified_fails [OF assms] bind_eq_Some_conv split: if_splits)
qed

theorem debug_build_frozen_witness:
  "\<exists>b. order_book_new 8 4 = Some b \<and>
     book_verify \<lparr>de_stale_levels = \<lambda>_. price_level_init, de_stale_orders = \<lambda>_. order_init, de_entries = \<lambda>_. [],
       de_uniqueness = \<lambda>_. Some\<rparr> b = None"
proof -
  obtain b where b: "order_book_new 8 4 = Some b" "book_rep b empty_book" "limits_of b = demo_limits"
    using demo_book_new by blast
  then have "4 \<le> capacity (ob_levels b)" by (simp add: limits_of_def demo_limits_def)
  from debug_build_frozen [OF b(2) this] b(1) show ?thesis by blast
qed

end
