(* ===== verification/TC_Typed_Pools.thy ===== *)
theory TC_Typed_Pools
  imports TC_Order_Book
begin

text \<open>
  \<open>orderbook/price_level_pool.hpp\<close> and \<open>order_pool.hpp\<close>, the wrappers of the object pool that the
  book owns, and the address arithmetic of \<open>ObjectPool::at\<close> and \<open>index_of\<close>. The wrappers repeat the
  range assertion of the pool and forward; both keep the contract \<open>slot_pool\<close>. Everywhere else in
  the development a pointer into a pool is the index of its slot; the first section shows that
  \<open>index_of\<close> recovers that index from the address.
\<close>

section \<open>Addresses of slots\<close>

definition slot_address :: "u64 \<Rightarrow> u64 \<Rightarrow> u32 \<Rightarrow> u64" where
  "slot_address base slot_size idx = base + slot_size * ucast idx"

definition index_of :: "u64 \<Rightarrow> u64 \<Rightarrow> u64 \<Rightarrow> u32" where
  "index_of base slot_size ptr = ucast ((ptr - base) div slot_size)"

lemma ucast_u32_u64_u32: "ucast (ucast (i :: u32) :: u64) = i"
  by (simp add: ucast_down_ucast_id is_down)

lemma index_of_slot_address:
  assumes "0 < slot_size" "unat slot_size * 2 ^ 32 \<le> 2 ^ 64"
  shows "index_of base slot_size (slot_address base slot_size idx) = idx"
proof -
  have "unat slot_size * unat idx < unat slot_size * 2 ^ 32"
    using assms(1) unsigned_less [of idx] by (simp add: word_less_nat_alt)
  then have "unat slot_size * unat idx < 2 ^ 64" using assms(2) by linarith
  then have "unat (slot_size * ucast idx) = unat slot_size * unat idx"
    by (simp add: unat_word_ariths)
  then have "unat ((slot_size * ucast idx) div slot_size) = unat idx"
    using assms(1) by (simp add: unat_div word_less_nat_alt)
  then have "(slot_size * ucast idx) div slot_size = ucast idx"
    by (simp add: word_unat_eq_iff)
  then show ?thesis by (simp add: index_of_def slot_address_def ucast_u32_u64_u32)
qed

lemma slot_address_inj:
  "0 < slot_size \<Longrightarrow> unat slot_size * 2 ^ 32 \<le> 2 ^ 64 \<Longrightarrow>
     slot_address base slot_size i = slot_address base slot_size j \<Longrightarrow> i = j"
  by (metis index_of_slot_address)

section \<open>The wrappers\<close>

definition level_at :: "level_pool \<Rightarrow> u32 \<Rightarrow> price_level option" where
  "level_at p idx = do { tc_assert (unat idx < capacity p); pool_at p idx }"

definition level_write :: "level_pool \<Rightarrow> u32 \<Rightarrow> price_level \<Rightarrow> level_pool option" where
  "level_write p idx l = do { tc_assert (unat idx < capacity p); pool_write p idx l }"

definition level_deallocate :: "u32 \<Rightarrow> level_pool \<Rightarrow> level_pool option" where
  "level_deallocate ptr p = pool_deallocate ptr p"

definition level_active_count :: "level_pool \<Rightarrow> u64" where
  "level_active_count p = active_count p"

definition level_reset :: "level_pool \<Rightarrow> level_pool option" where
  "level_reset p = pool_reset p"

definition order_at :: "order_pool \<Rightarrow> u32 \<Rightarrow> order option" where
  "order_at p idx = do { tc_assert (unat idx < capacity p); pool_at p idx }"

definition order_write :: "order_pool \<Rightarrow> u32 \<Rightarrow> order \<Rightarrow> order_pool option" where
  "order_write p idx ord = do { tc_assert (unat idx < capacity p); pool_write p idx ord }"

definition order_deallocate :: "u32 \<Rightarrow> order_pool \<Rightarrow> order_pool option" where
  "order_deallocate ptr p = pool_deallocate ptr p"

definition order_active_count :: "order_pool \<Rightarrow> u64" where
  "order_active_count p = active_count p"

definition order_reset :: "order_pool \<Rightarrow> order_pool option" where
  "order_reset p = pool_reset p"

text \<open>
  \<open>allocate(args...)\<close> constructs the object from its arguments; \<open>x\<close> is what \<open>T(args...)\<close> builds.
\<close>

definition pool_emplace :: "'a \<Rightarrow> 'a object_pool \<Rightarrow> (u32 option \<times> 'a object_pool) option" where
  "pool_emplace x p =
     (if free_head p = kInvalidPoolIndex then Some (None, p)
      else do {
        let idx = free_head p;
        tc_assert (unat idx < length (slots p));
        n \<leftarrow> (case slots p ! unat idx of Free n \<Rightarrow> Some n | Obj _ \<Rightarrow> None);
        Some (Some idx, p\<lparr>slots := (slots p)[unat idx := Obj x], free_head := n,
                          active_count := active_count p + 1\<rparr>)
      })"

definition order_emplace :: "order \<Rightarrow> order_pool \<Rightarrow> (u32 option \<times> order_pool) option" where
  "order_emplace ord p = pool_emplace ord p"

text \<open>The assertion of a wrapper never fails where the one of the pool does not.\<close>

lemma checked_at: "do { tc_assert (unat idx < capacity p); pool_at p idx } = pool_at p idx"
  by (simp add: tc_assert_def pool_at_def capacity_def)

lemma checked_write: "do { tc_assert (unat idx < capacity p); pool_write p idx x } = pool_write p idx x"
  by (simp add: tc_assert_def pool_write_def pool_at_def capacity_def)

lemma typed_pool_eqs:
  "level_at = pool_at" "level_write = pool_write" "level_deallocate = pool_deallocate"
  "order_at = pool_at" "order_write = pool_write" "order_deallocate = pool_deallocate"
  by (simp_all add: fun_eq_iff level_at_def level_write_def level_deallocate_def order_at_def order_write_def
    order_deallocate_def checked_at checked_write)

interpretation level_slots: slot_pool pool_wf level_at capacity level_write pool_allocate level_deallocate
  unfolding typed_pool_eqs by (rule obj_pool.slot_pool_axioms)

interpretation order_slots: slot_pool pool_wf order_at capacity order_write pool_allocate order_deallocate
  unfolding typed_pool_eqs by (rule obj_pool.slot_pool_axioms)

lemma level_allocated:
  assumes "pool_wf p" "level_allocate p = Some (Some i, q)"
  shows "level_at q i = Some price_level_init \<and> level_at p i = None \<and> (\<exists>r. level_deallocate i q = Some r \<and> level_at r = level_at p)"
proof -
  have a: "pool_allocate price_level_init p = Some (Some i, q)" using assms(2) by (simp add: level_allocate_def)
  have "level_at q i = Some price_level_init \<and> level_at p i = None"
    using assms(1)
  proof (cases rule: level_slots.alloc_cases [where d = price_level_init])
    case (fresh j q')
    then show ?thesis using a by simp
  qed (use a in simp)
  then show ?thesis using level_slots.alloc_release [OF assms(1) a] by blast
qed

text \<open>
  Constructing in place keeps the contract of the pool too, and is the same as allocating a
  default object and assigning to it.
\<close>

lemma emplace_eqs: "pool_emplace = pool_allocate" "order_emplace = pool_allocate"
  by (simp_all add: fun_eq_iff order_emplace_def pool_emplace_def pool_allocate_def)

interpretation order_emplaced: slot_pool pool_wf order_at capacity order_write order_emplace order_deallocate
  unfolding emplace_eqs by (rule order_slots.slot_pool_axioms)

lemma order_emplace_assign:
  assumes "pool_wf p" "order_allocate p = Some (Some i, q)"
  shows "\<exists>r r'. order_emplace ord p = Some (Some i, r) \<and> order_write q i ord = Some r' \<and> order_at r = order_at r'"
proof -
  have a: "pool_allocate order_init p = Some (Some i, q)" using assms(2) by (simp add: order_allocate_def)
  from assms(1) show ?thesis
  proof (cases rule: order_slots.alloc_cases [where d = order_init])
    case (fresh j q')
    then have q: "j = i" "q' = q" using a by simp_all
    obtain r' where r': "order_write q i ord = Some r'" "order_at r' = (order_at p)(i \<mapsto> ord)"
      using order_slots.put_live [of q i order_init ord] fresh q by auto
    have "card (dom (order_at p)) \<noteq> capacity p"
      using order_slots.alloc_full [OF assms(1)] a by auto
    then have "card (dom (order_at p)) < capacity p" using order_slots.live_le_cap [OF assms(1)] by simp
    then obtain k r where r: "order_emplace ord p = Some (Some k, r)" "order_at r = (order_at p)(k \<mapsto> ord)"
      using order_emplaced.alloc_room [OF assms(1)] by blast
    have "k = free_head p" "i = free_head p"
      using r(1) a by (auto simp: emplace_eqs pool_allocate_def tc_assert_def Let_def split: if_splits bind_splits slot.splits)
    then show ?thesis using r r' by auto
  qed (use a in simp)
qed

end
