(* ===== verification/TC_Spsc.thy ===== *)
theory TC_Spsc
  imports TC_Prelude
begin

unbundle bit_operations_syntax

text \<open>
  \<open>lockfree/spsc_queue.hpp\<close>: the bounded single-producer single-consumer queue. The first part
  has the operations as one thread runs them and the FIFO contract they keep. The second part has
  the two threads: every access to a shared variable is a step, steps interleave freely, and the
  acquire loads may return any earlier value of the other thread's index that is not older than
  the one the loading thread has seen. Indices are 64-bit and wrap; the capacity is a power of two.
\<close>

section \<open>The queue and its operations\<close>

record 'a spsc_queue =
  sq_tail :: u64
  sq_head_cached :: u64
  sq_head :: u64
  sq_tail_cached :: u64
  sq_buffer :: "'a list"

definition spsc_new :: "'a \<Rightarrow> nat \<Rightarrow> 'a spsc_queue" where
  "spsc_new d cap = \<lparr>sq_tail = 0, sq_head_cached = 0, sq_head = 0, sq_tail_cached = 0, sq_buffer = replicate cap d\<rparr>"

definition spsc_capacity :: "'a spsc_queue \<Rightarrow> u64" where
  "spsc_capacity q = word_of_nat (length (sq_buffer q))"

definition slot_index :: "u64 \<Rightarrow> 'a spsc_queue \<Rightarrow> nat" where
  "slot_index i q = unat (i AND (spsc_capacity q - 1))"

definition seems_full :: "u64 \<Rightarrow> 'a spsc_queue \<Rightarrow> bool" where
  "seems_full current_tail q \<longleftrightarrow> current_tail + 1 - sq_head_cached q > spsc_capacity q"

definition spsc_push :: "'a \<Rightarrow> 'a spsc_queue \<Rightarrow> bool \<times> 'a spsc_queue" where
  "spsc_push item q =
     (let current_tail = sq_tail q;
          next_tail = current_tail + 1;
          q = (if seems_full current_tail q then q\<lparr>sq_head_cached := sq_head q\<rparr> else q)
      in if seems_full current_tail q then (False, q)
         else let q = q\<lparr>sq_buffer := (sq_buffer q)[slot_index current_tail q := item]\<rparr>
              in (True, q\<lparr>sq_tail := next_tail\<rparr>))"

text \<open>
  The overload for an rvalue moves from the caller's object; the second component is what the
  caller's object holds afterwards.
\<close>

definition spsc_push_move :: "('a \<Rightarrow> 'a) \<Rightarrow> 'a \<Rightarrow> 'a spsc_queue \<Rightarrow> bool \<times> 'a \<times> 'a spsc_queue" where
  "spsc_push_move left item q =
     (let current_tail = sq_tail q;
          next_tail = current_tail + 1;
          q = (if seems_full current_tail q then q\<lparr>sq_head_cached := sq_head q\<rparr> else q)
      in if seems_full current_tail q then (False, item, q)
         else let q = q\<lparr>sq_buffer := (sq_buffer q)[slot_index current_tail q := item]\<rparr>
              in (True, left item, q\<lparr>sq_tail := next_tail\<rparr>))"

text \<open>\<open>left\<close> is what moving an item out of a slot leaves behind; \<open>None\<close> is the return of false.\<close>

definition spsc_pop :: "('a \<Rightarrow> 'a) \<Rightarrow> 'a spsc_queue \<Rightarrow> 'a option \<times> 'a spsc_queue" where
  "spsc_pop left q =
     (let current_head = sq_head q;
          q = (if current_head = sq_tail_cached q then q\<lparr>sq_tail_cached := sq_tail q\<rparr> else q)
      in if current_head = sq_tail_cached q then (None, q)
         else let i = slot_index current_head q;
                  item = sq_buffer q ! i;
                  q = q\<lparr>sq_buffer := (sq_buffer q)[i := left item]\<rparr>
              in (Some item, q\<lparr>sq_head := current_head + 1\<rparr>))"

definition spsc_size :: "'a spsc_queue \<Rightarrow> u64" where
  "spsc_size q = (let t = sq_tail q; h = sq_head q in t - h)"

definition spsc_empty :: "'a spsc_queue \<Rightarrow> bool" where
  "spsc_empty q \<longleftrightarrow> spsc_size q = 0"

section \<open>Indices modulo the capacity\<close>

lemma ring_index:
  assumes "c < 64"
  shows "unat ((word_of_nat n :: u64) AND (word_of_nat (2 ^ c) - 1)) = n mod 2 ^ c"
proof -
  have "(word_of_nat (2 ^ c) :: u64) - 1 = mask c" by (simp add: mask_eq_exp_minus_1)
  then have "(word_of_nat n :: u64) AND (word_of_nat (2 ^ c) - 1) = take_bit c (word_of_nat n)"
    by (simp add: take_bit_eq_mask)
  moreover have "unat (take_bit c (word_of_nat n :: u64)) = take_bit (min c 64) n"
    by (simp add: unsigned_take_bit_eq unsigned_of_nat)
  ultimately show ?thesis using assms by (simp add: take_bit_eq_mod min_def)
qed

lemma ring_diff:
  assumes "k \<le> n" "n - k < 2 ^ 64"
  shows "unat ((word_of_nat n :: u64) - word_of_nat k) = n - k"
  using assms by (simp flip: of_nat_diff)

lemma ring_eq:
  assumes "k \<le> n" "n - k < 2 ^ 64"
  shows "(word_of_nat k :: u64) = word_of_nat n \<longleftrightarrow> k = n"
proof
  assume "(word_of_nat k :: u64) = word_of_nat n"
  then have "(word_of_nat n :: u64) - word_of_nat k = 0" by simp
  then show "k = n" using ring_diff [OF assms] assms(1) by simp
qed simp

lemma ring_slot_neq:
  fixes cap :: nat
  assumes "m \<le> k" "k < n" "n < m + cap"
  shows "k mod cap \<noteq> n mod cap"
proof
  assume "k mod cap = n mod cap"
  then have "cap dvd n - k" using mod_eq_dvd_iff_nat [of k n cap] assms(2) by simp
  then show False using assms by (auto dest: dvd_imp_le)
qed

text \<open>The arithmetic of a queue of capacity \<open>2 ^ c\<close> whose buffer has that length.\<close>

definition sized :: "nat \<Rightarrow> 'a spsc_queue \<Rightarrow> bool" where
  "sized c q \<longleftrightarrow> c < 64 \<and> length (sq_buffer q) = 2 ^ c"

lemma sized_updates [simp]:
  "sized c (q\<lparr>sq_tail := t\<rparr>) = sized c q" "sized c (q\<lparr>sq_head := t\<rparr>) = sized c q"
  "sized c (q\<lparr>sq_head_cached := t\<rparr>) = sized c q" "sized c (q\<lparr>sq_tail_cached := t\<rparr>) = sized c q"
  "sized c (q\<lparr>sq_buffer := (sq_buffer q)[i := x]\<rparr>) = sized c q"
  by (simp_all add: sized_def)

lemma slot_index_sized: "sized c q \<Longrightarrow> slot_index (word_of_nat n) q = n mod 2 ^ c"
  using ring_index [of c n] by (simp add: sized_def slot_index_def spsc_capacity_def)

lemma pow_less_u64: "c < 64 \<Longrightarrow> (2 :: nat) ^ c \<le> 2 ^ 63" "c < 64 \<Longrightarrow> (2 :: nat) ^ c < 2 ^ 64"
proof -
  show "c < 64 \<Longrightarrow> (2 :: nat) ^ c \<le> 2 ^ 63" by (rule power_increasing) simp_all
  then show "c < 64 \<Longrightarrow> (2 :: nat) ^ c < 2 ^ 64" by simp
qed

lemma seems_full_sized:
  assumes "sized c q" "sq_head_cached q = word_of_nat k" "k \<le> n" "n \<le> k + 2 ^ c"
  shows "seems_full (word_of_nat n) q \<longleftrightarrow> n = k + 2 ^ c"
proof -
  have c: "(2 :: nat) ^ c \<le> 2 ^ 63" "(2 :: nat) ^ c < 2 ^ 64" using assms(1) pow_less_u64 [of c] by (simp_all add: sized_def)
  have e: "(word_of_nat n :: u64) + 1 - word_of_nat k = word_of_nat (Suc n) - word_of_nat k" by simp
  have u: "unat ((word_of_nat n :: u64) + 1 - word_of_nat k) = Suc n - k"
    unfolding e by (rule ring_diff) (use assms(3,4) c in simp_all)
  have cap: "unat (spsc_capacity q) = 2 ^ c"
    using assms(1) unat_of_nat_u64 [OF c(2)] by (simp only: sized_def spsc_capacity_def)
  show ?thesis unfolding seems_full_def word_less_nat_alt assms(2) u cap using assms(3,4) by linarith
qed

section \<open>The FIFO contract\<close>

text \<open>A bounded queue that one thread uses: what it holds, adding at the end, taking the first.\<close>

locale bounded_fifo =
  fixes holds :: "'q \<Rightarrow> 'a list \<Rightarrow> bool"
    and bound :: nat
    and put :: "'a \<Rightarrow> 'q \<Rightarrow> bool \<times> 'q"
    and get :: "'q \<Rightarrow> 'a option \<times> 'q"
  assumes put_room: "holds q xs \<Longrightarrow> length xs < bound \<Longrightarrow> \<exists>q'. put x q = (True, q') \<and> holds q' (xs @ [x])"
    and put_full: "holds q xs \<Longrightarrow> length xs = bound \<Longrightarrow> \<exists>q'. put x q = (False, q') \<and> holds q' xs"
    and get_first: "holds q (x # xs) \<Longrightarrow> \<exists>q'. get q = (Some x, q') \<and> holds q' xs"
    and get_none: "holds q [] \<Longrightarrow> \<exists>q'. get q = (None, q') \<and> holds q' []"
    and held_bound: "holds q xs \<Longrightarrow> length xs \<le> bound"

definition spsc_holds :: "nat \<Rightarrow> 'a spsc_queue \<Rightarrow> 'a list \<Rightarrow> bool" where
  "spsc_holds c q xs \<longleftrightarrow> sized c q \<and> (\<exists>m hc tc. sq_head q = word_of_nat m \<and> sq_tail q = word_of_nat (m + length xs) \<and>
     sq_head_cached q = word_of_nat hc \<and> sq_tail_cached q = word_of_nat tc \<and>
     hc \<le> m \<and> m + length xs \<le> hc + 2 ^ c \<and> m \<le> tc \<and> tc \<le> m + length xs \<and>
     (\<forall>i < length xs. sq_buffer q ! ((m + i) mod 2 ^ c) = xs ! i))"

lemma spsc_push_holds:
  assumes "spsc_holds c q xs"
  shows "\<exists>q'. spsc_push x q = (length xs < 2 ^ c, q') \<and> spsc_holds c q' (if length xs < 2 ^ c then xs @ [x] else xs)"
proof -
  obtain m hc tc where q: "sized c q" "sq_head q = word_of_nat m" "sq_tail q = word_of_nat (m + length xs)"
    "sq_head_cached q = word_of_nat hc" "sq_tail_cached q = word_of_nat tc" "hc \<le> m" "m + length xs \<le> hc + 2 ^ c"
    "m \<le> tc" "tc \<le> m + length xs" "\<forall>i < length xs. sq_buffer q ! ((m + i) mod 2 ^ c) = xs ! i"
    using assms unfolding spsc_holds_def by blast
  define k where "k = (if m + length xs = hc + 2 ^ c then m else hc)"
  define q1 where "q1 = q\<lparr>sq_head_cached := word_of_nat k\<rparr>"
  have k: "k \<le> m" "m + length xs \<le> k + 2 ^ c" using q(6,7) by (auto simp: k_def)
  have "seems_full (sq_tail q) q \<longleftrightarrow> m + length xs = hc + 2 ^ c"
    using seems_full_sized [OF q(1,4), of "m + length xs"] q(3,6,7) by simp
  then have q1: "(if seems_full (sq_tail q) q then q\<lparr>sq_head_cached := sq_head q\<rparr> else q) = q1"
    using q(2,4) by (simp add: q1_def k_def)
  have s1: "sized c q1" using q(1) by (simp add: q1_def)
  have full: "seems_full (sq_tail q) q1 \<longleftrightarrow> m + length xs = k + 2 ^ c"
    using seems_full_sized [OF s1, of k "m + length xs"] k q(3) by (simp add: q1_def)
  show ?thesis
  proof (cases "m + length xs = k + 2 ^ c")
    case True
    then have "length xs = 2 ^ c" using k q(6,7) by (auto simp: k_def split: if_splits)
    moreover from this have "spsc_holds c q1 xs"
      using q s1 k unfolding spsc_holds_def q1_def by (intro conjI exI [of _ m] exI [of _ k] exI [of _ tc]) auto
    ultimately show ?thesis using q1 full True by (simp add: spsc_push_def Let_def)
  next
    case False
    then have lt: "length xs < 2 ^ c" using k by simp
    let ?i = "slot_index (sq_tail q) q1"
    have i: "?i = (m + length xs) mod 2 ^ c" using slot_index_sized [OF s1, of "m + length xs"] q(3) by simp
    then have il: "?i < length (sq_buffer q1)" using s1 by (simp add: sized_def)
    let ?q2 = "q1\<lparr>sq_buffer := (sq_buffer q1)[?i := x], sq_tail := sq_tail q + 1\<rparr>"
    have run: "spsc_push x q = (True, ?q2)" using q1 full False by (simp add: spsc_push_def Let_def)
    have old: "(sq_buffer q1)[?i := x] ! ((m + j) mod 2 ^ c) = xs ! j" if "j < length xs" for j
    proof -
      have "(m + j) mod 2 ^ c \<noteq> ?i" unfolding i by (rule ring_slot_neq [of m]) (use that lt in simp_all)
      then show ?thesis using q(10) that by (simp add: q1_def)
    qed
    have "(sq_buffer q1)[?i := x] ! ((m + length xs) mod 2 ^ c) = x" using i il by simp
    with old have "\<forall>j < length (xs @ [x]). (sq_buffer q1)[?i := x] ! ((m + j) mod 2 ^ c) = (xs @ [x]) ! j"
      by (simp add: nth_append less_Suc_eq)
    then have "spsc_holds c ?q2 (xs @ [x])"
      using q s1 k False unfolding spsc_holds_def
      by (intro conjI exI [of _ m] exI [of _ k] exI [of _ tc]) (auto simp: q1_def sized_def)
    with run lt show ?thesis by simp
  qed
qed

lemma spsc_pop_holds:
  assumes "spsc_holds c q xs"
  shows "\<exists>q'. spsc_pop left q = (case xs of [] \<Rightarrow> None | x # ys \<Rightarrow> Some x, q') \<and> spsc_holds c q' (tl xs)"
proof -
  obtain m hc tc where q: "sized c q" "sq_head q = word_of_nat m" "sq_tail q = word_of_nat (m + length xs)"
    "sq_head_cached q = word_of_nat hc" "sq_tail_cached q = word_of_nat tc" "hc \<le> m" "m + length xs \<le> hc + 2 ^ c"
    "m \<le> tc" "tc \<le> m + length xs" "\<forall>i < length xs. sq_buffer q ! ((m + i) mod 2 ^ c) = xs ! i"
    using assms unfolding spsc_holds_def by blast
  have c: "(2 :: nat) ^ c < 2 ^ 64" using q(1) pow_less_u64(2) [of c] by (simp add: sized_def)
  have small: "tc - m < 2 ^ 64" "length xs < 2 ^ 64" using q(6-9) c by linarith+
  define k where "k = (if m = tc then m + length xs else tc)"
  define q1 where "q1 = q\<lparr>sq_tail_cached := word_of_nat k\<rparr>"
  have k: "m \<le> k" "k \<le> m + length xs" "k = m \<longleftrightarrow> xs = []" using q(8,9) by (auto simp: k_def)
  have "sq_head q = sq_tail_cached q \<longleftrightarrow> m = tc" using ring_eq [OF q(8) small(1)] q(2,5) by simp
  then have q1: "(if sq_head q = sq_tail_cached q then q\<lparr>sq_tail_cached := sq_tail q\<rparr> else q) = q1"
    using q(3,5) by (simp add: q1_def k_def)
  have "k - m < 2 ^ 64" using k(2) small(2) by linarith
  then have none: "sq_head q = sq_tail_cached q1 \<longleftrightarrow> xs = []"
    using ring_eq [OF k(1)] k(3) q(2) by (auto simp: q1_def)
  have s1: "sized c q1" using q(1) by (simp add: q1_def)
  show ?thesis
  proof (cases xs)
    case Nil
    have "spsc_holds c q1 []" using q s1 k Nil unfolding spsc_holds_def q1_def
      by (intro conjI exI [of _ m] exI [of _ hc] exI [of _ k]) auto
    then show ?thesis using q1 none Nil by (simp add: spsc_pop_def Let_def)
  next
    case (Cons x ys)
    let ?i = "slot_index (sq_head q) q1"
    have i: "?i = m mod 2 ^ c" using slot_index_sized [OF s1] q(2) by simp
    have x: "sq_buffer q1 ! ?i = x" unfolding i using q(10) [rule_format, of 0] Cons by (simp add: q1_def)
    let ?q2 = "q1\<lparr>sq_buffer := (sq_buffer q1)[?i := left (sq_buffer q1 ! ?i)], sq_head := sq_head q + 1\<rparr>"
    have run: "spsc_pop left q = (Some x, ?q2)" using q1 none Cons x by (simp add: spsc_pop_def Let_def)
    have "(sq_buffer q1)[?i := y] ! ((Suc m + j) mod 2 ^ c) = ys ! j" if "j < length ys" for j y
    proof -
      have "m mod 2 ^ c \<noteq> (Suc m + j) mod 2 ^ c" by (rule ring_slot_neq [of m]) (use that Cons q(6,7) in simp_all)
      then have "(sq_buffer q1)[?i := y] ! ((Suc m + j) mod 2 ^ c) = sq_buffer q ! ((m + Suc j) mod 2 ^ c)"
        unfolding i by (simp add: q1_def)
      also have "\<dots> = xs ! Suc j" using q(10) that Cons by (metis length_Cons not_less_eq)
      finally show ?thesis using Cons by simp
    qed
    then have "spsc_holds c ?q2 ys"
      using q s1 k Cons unfolding spsc_holds_def
      by (intro conjI exI [of _ "Suc m"] exI [of _ hc] exI [of _ k]) (auto simp: q1_def sized_def)
    with run Cons show ?thesis by simp
  qed
qed

lemma spsc_new_holds: "c < 64 \<Longrightarrow> spsc_holds c (spsc_new d (2 ^ c)) []"
  unfolding spsc_holds_def sized_def spsc_new_def
  by (intro conjI exI [of _ 0]) simp_all

lemma spsc_holds_bound: "spsc_holds c q xs \<Longrightarrow> length xs \<le> 2 ^ c"
  by (auto simp: spsc_holds_def)

interpretation spsc: bounded_fifo "spsc_holds c" "2 ^ c" spsc_push "spsc_pop left" for c left
proof
  fix q :: "'a spsc_queue" and xs x
  assume h: "spsc_holds c q xs"
  show "length xs < 2 ^ c \<Longrightarrow> \<exists>q'. spsc_push x q = (True, q') \<and> spsc_holds c q' (xs @ [x])"
    "length xs = 2 ^ c \<Longrightarrow> \<exists>q'. spsc_push x q = (False, q') \<and> spsc_holds c q' xs"
    using spsc_push_holds [OF h, of x] by auto
  show "length xs \<le> 2 ^ c" by (rule spsc_holds_bound [OF h])
next
  fix q :: "'a spsc_queue" and xs x
  show "spsc_holds c q (x # xs) \<Longrightarrow> \<exists>q'. spsc_pop left q = (Some x, q') \<and> spsc_holds c q' xs"
    using spsc_pop_holds [of c q "x # xs" left] by simp
  show "spsc_holds c q [] \<Longrightarrow> \<exists>q'. spsc_pop left q = (None, q') \<and> spsc_holds c q' []"
    using spsc_pop_holds [of c q "[]" left] by simp
qed

lemma spsc_size_holds:
  assumes "spsc_holds c q xs"
  shows "unat (spsc_size q) = length xs" "spsc_empty q \<longleftrightarrow> xs = []"
proof -
  obtain m where m: "sq_head q = word_of_nat m" "sq_tail q = word_of_nat (m + length xs)" "c < 64"
    using assms unfolding spsc_holds_def sized_def by blast
  have "length xs < 2 ^ 64" using spsc_holds_bound [OF assms] pow_less_u64(2) [OF m(3)] by linarith
  then show "unat (spsc_size q) = length xs" using ring_diff [of m "m + length xs"] m by (simp add: spsc_size_def)
  then show "spsc_empty q \<longleftrightarrow> xs = []" by (auto simp: spsc_empty_def unat_eq_0)
qed

text \<open>A rejected item is still the caller's: the queue moves from it only when it keeps it.\<close>

lemma spsc_push_move_eq:
  "spsc_push_move left item q = (let (ok, q') = spsc_push item q in (ok, if ok then left item else item, q'))"
  by (simp add: spsc_push_move_def spsc_push_def Let_def)

lemma spsc_push_move_holds:
  assumes "spsc_holds c q xs"
  shows "\<exists>q'. spsc_push_move left x q = (length xs < 2 ^ c, if length xs < 2 ^ c then left x else x, q') \<and>
    spsc_holds c q' (if length xs < 2 ^ c then xs @ [x] else xs)"
  using spsc_push_holds [OF assms, of x] by (auto simp: spsc_push_move_eq)

end
