(* ===== verification/TC_Spsc_Threads.thy ===== *)
theory TC_Spsc_Threads
  imports TC_Spsc
begin

text \<open>
  The two threads of \<open>lockfree/spsc_queue.hpp\<close>, as a step relation. The tail is stored by the
  producer only and the head by the consumer only, so each has one order of stores; \<open>th_tails\<close> and
  \<open>th_heads\<close> are those orders. A thread reads its own index and its cached copy of the other one
  directly; its acquire load of the other index returns any store that is not older than the one
  it loaded last. The accesses to the buffer are steps of their own.
\<close>

section \<open>Threads\<close>

text \<open>Where a thread is in its operation, with its local variables.\<close>

datatype 'a producer = P_idle | P_load 'a u64 | P_write 'a u64 | P_store 'a u64

datatype 'a consumer = C_idle | C_load u64 | C_read u64 | C_store 'a u64

record 'a threads =
  th_queue :: "'a spsc_queue"
  th_prod :: "'a producer"
  th_cons :: "'a consumer"
  th_tails :: "u64 list"
  th_heads :: "u64 list"
  th_tail_seen :: nat
  th_head_seen :: nat
  th_pushed :: "'a list"
  th_popped :: "'a list"

definition threads_new :: "'a \<Rightarrow> nat \<Rightarrow> 'a threads" where
  "threads_new d cap = \<lparr>th_queue = spsc_new d cap, th_prod = P_idle, th_cons = C_idle, th_tails = [0],
     th_heads = [0], th_tail_seen = 0, th_head_seen = 0, th_pushed = [], th_popped = []\<rparr>"

text \<open>The steps of \<open>push\<close>; \<open>th_pushed\<close> records the items of the calls that return true.\<close>

inductive push_step :: "'a threads \<Rightarrow> 'a threads \<Rightarrow> bool" where
  Push_check: "th_prod w = P_idle \<Longrightarrow> t = sq_tail (th_queue w) \<Longrightarrow>
    push_step w (w\<lparr>th_prod := (if seems_full t (th_queue w) then P_load item t else P_write item t)\<rparr>)"
| Push_load: "th_prod w = P_load item t \<Longrightarrow> th_head_seen w \<le> i \<Longrightarrow> i < length (th_heads w) \<Longrightarrow>
    q = (th_queue w)\<lparr>sq_head_cached := th_heads w ! i\<rparr> \<Longrightarrow>
    push_step w (w\<lparr>th_queue := q, th_head_seen := i, th_prod := (if seems_full t q then P_idle else P_write item t)\<rparr>)"
| Push_write: "th_prod w = P_write item t \<Longrightarrow>
    q = (th_queue w)\<lparr>sq_buffer := (sq_buffer (th_queue w))[slot_index t (th_queue w) := item]\<rparr> \<Longrightarrow>
    push_step w (w\<lparr>th_queue := q, th_prod := P_store item t\<rparr>)"
| Push_store: "th_prod w = P_store item t \<Longrightarrow> q = (th_queue w)\<lparr>sq_tail := t + 1\<rparr> \<Longrightarrow>
    push_step w (w\<lparr>th_queue := q, th_tails := th_tails w @ [t + 1], th_pushed := th_pushed w @ [item], th_prod := P_idle\<rparr>)"

text \<open>The steps of \<open>pop\<close>; \<open>th_popped\<close> records the items of the calls that return true.\<close>

inductive pop_step :: "('a \<Rightarrow> 'a) \<Rightarrow> 'a threads \<Rightarrow> 'a threads \<Rightarrow> bool" for left :: "'a \<Rightarrow> 'a" where
  Pop_check: "th_cons w = C_idle \<Longrightarrow> h = sq_head (th_queue w) \<Longrightarrow>
    pop_step left w (w\<lparr>th_cons := (if h = sq_tail_cached (th_queue w) then C_load h else C_read h)\<rparr>)"
| Pop_load: "th_cons w = C_load h \<Longrightarrow> th_tail_seen w \<le> i \<Longrightarrow> i < length (th_tails w) \<Longrightarrow>
    q = (th_queue w)\<lparr>sq_tail_cached := th_tails w ! i\<rparr> \<Longrightarrow>
    pop_step left w (w\<lparr>th_queue := q, th_tail_seen := i, th_cons := (if h = sq_tail_cached q then C_idle else C_read h)\<rparr>)"
| Pop_read: "th_cons w = C_read h \<Longrightarrow> i = slot_index h (th_queue w) \<Longrightarrow> x = sq_buffer (th_queue w) ! i \<Longrightarrow>
    q = (th_queue w)\<lparr>sq_buffer := (sq_buffer (th_queue w))[i := left x]\<rparr> \<Longrightarrow>
    pop_step left w (w\<lparr>th_queue := q, th_cons := C_store x h\<rparr>)"
| Pop_store: "th_cons w = C_store x h \<Longrightarrow> q = (th_queue w)\<lparr>sq_head := h + 1\<rparr> \<Longrightarrow>
    pop_step left w (w\<lparr>th_queue := q, th_heads := th_heads w @ [h + 1], th_popped := th_popped w @ [x], th_cons := C_idle\<rparr>)"

inductive threads_reachable :: "('a \<Rightarrow> 'a) \<Rightarrow> 'a \<Rightarrow> nat \<Rightarrow> 'a threads \<Rightarrow> bool"
  for left :: "'a \<Rightarrow> 'a" and d :: 'a and cap :: nat where
  Start: "threads_reachable left d cap (threads_new d cap)"
| Push: "threads_reachable left d cap w \<Longrightarrow> push_step w w' \<Longrightarrow> threads_reachable left d cap w'"
| Pop: "threads_reachable left d cap w \<Longrightarrow> pop_step left w w' \<Longrightarrow> threads_reachable left d cap w'"

section \<open>The invariant\<close>

fun prod_ok :: "nat \<Rightarrow> nat \<Rightarrow> nat \<Rightarrow> 'a list \<Rightarrow> 'a producer \<Rightarrow> bool" where
  "prod_ok cap n hs buf P_idle = True"
| "prod_ok cap n hs buf (P_load item t) = (t = word_of_nat n)"
| "prod_ok cap n hs buf (P_write item t) = (t = word_of_nat n \<and> n < hs + cap)"
| "prod_ok cap n hs buf (P_store item t) = (t = word_of_nat n \<and> n < hs + cap \<and> buf ! (n mod cap) = item)"

fun cons_ok :: "nat \<Rightarrow> nat \<Rightarrow> 'a list \<Rightarrow> 'a consumer \<Rightarrow> bool" where
  "cons_ok m ts pushed C_idle = True"
| "cons_ok m ts pushed (C_load h) = (h = word_of_nat m)"
| "cons_ok m ts pushed (C_read h) = (h = word_of_nat m \<and> m < ts)"
| "cons_ok m ts pushed (C_store x h) = (h = word_of_nat m \<and> m < ts \<and> x = pushed ! m)"

text \<open>How many items, from the oldest on, the consumer has moved out but not released.\<close>

fun moved :: "'a consumer \<Rightarrow> nat" where
  "moved (C_store x h) = 1"
| "moved _ = 0"

definition indices_ok :: "nat \<Rightarrow> 'a threads \<Rightarrow> bool" where
  "indices_ok c w \<longleftrightarrow> sized c (th_queue w) \<and>
     sq_tail (th_queue w) = word_of_nat (length (th_pushed w)) \<and>
     sq_head (th_queue w) = word_of_nat (length (th_popped w)) \<and>
     th_tails w = map word_of_nat [0..<Suc (length (th_pushed w))] \<and>
     th_heads w = map word_of_nat [0..<Suc (length (th_popped w))] \<and>
     sq_head_cached (th_queue w) = word_of_nat (th_head_seen w) \<and>
     sq_tail_cached (th_queue w) = word_of_nat (th_tail_seen w) \<and>
     th_head_seen w \<le> length (th_popped w) \<and> length (th_popped w) \<le> th_tail_seen w \<and>
     th_tail_seen w \<le> length (th_pushed w) \<and> length (th_pushed w) \<le> th_head_seen w + 2 ^ c"

definition contents_ok :: "nat \<Rightarrow> 'a threads \<Rightarrow> bool" where
  "contents_ok c w \<longleftrightarrow> th_popped w = take (length (th_popped w)) (th_pushed w) \<and>
     (\<forall>k. length (th_popped w) + moved (th_cons w) \<le> k \<longrightarrow> k < length (th_pushed w) \<longrightarrow>
       sq_buffer (th_queue w) ! (k mod 2 ^ c) = th_pushed w ! k)"

definition threads_ok :: "nat \<Rightarrow> 'a threads \<Rightarrow> bool" where
  "threads_ok c w \<longleftrightarrow> indices_ok c w \<and> contents_ok c w \<and>
     prod_ok (2 ^ c) (length (th_pushed w)) (th_head_seen w) (sq_buffer (th_queue w)) (th_prod w) \<and>
     cons_ok (length (th_popped w)) (th_tail_seen w) (th_pushed w) (th_cons w)"

lemma threads_ok_new: "c < 64 \<Longrightarrow> threads_ok c (threads_new d (2 ^ c))"
  by (simp add: threads_ok_def indices_ok_def contents_ok_def threads_new_def spsc_new_def sized_def)

lemma loaded_value: "i < length (map (word_of_nat :: nat \<Rightarrow> u64) [0..<Suc n]) \<Longrightarrow>
    map word_of_nat [0..<Suc n] ! i = (word_of_nat i :: u64) \<and> i \<le> n"
  by (simp add: less_Suc_eq_le nth_append)

lemma cons_ok_push: "cons_ok m ts xs p \<Longrightarrow> ts \<le> length xs \<Longrightarrow> cons_ok m ts (xs @ [x]) p"
  by (cases p) (auto simp: nth_append)

lemma push_step_ok:
  assumes "push_step w w'" "threads_ok c w"
  shows "threads_ok c w'"
  using assms
proof (induction rule: push_step.induct)
  case (Push_check w t item)
  then have ix: "indices_ok c w" by (simp add: threads_ok_def)
  then have "seems_full t (th_queue w) \<longleftrightarrow> length (th_pushed w) = th_head_seen w + 2 ^ c"
    using Push_check(2) seems_full_sized [of c "th_queue w" "th_head_seen w" "length (th_pushed w)"]
    by (simp add: indices_ok_def)
  then show ?case using Push_check ix by (auto simp: threads_ok_def indices_ok_def contents_ok_def)
next
  case (Push_load w item t i q)
  then have ix: "indices_ok c w" and t: "t = word_of_nat (length (th_pushed w))" by (simp_all add: threads_ok_def)
  have i: "th_heads w ! i = word_of_nat i" "i \<le> length (th_popped w)"
    using loaded_value [of i "length (th_popped w)"] ix Push_load(3) unfolding indices_ok_def by metis+
  have "sized c q" "sq_head_cached q = word_of_nat i" using Push_load(4) ix i by (simp_all add: indices_ok_def)
  moreover have "i \<le> length (th_pushed w)" "length (th_pushed w) \<le> i + 2 ^ c"
    using i(2) Push_load(2) ix by (auto simp: indices_ok_def)
  ultimately have "seems_full t q \<longleftrightarrow> length (th_pushed w) = i + 2 ^ c" unfolding t by (rule seems_full_sized)
  then show ?case using Push_load i \<open>length (th_pushed w) \<le> i + 2 ^ c\<close>
    by (auto simp: threads_ok_def indices_ok_def contents_ok_def)
next
  case (Push_write w item t q)
  then have ix: "indices_ok c w" and t: "t = word_of_nat (length (th_pushed w))"
    and lt: "length (th_pushed w) < th_head_seen w + 2 ^ c" by (simp_all add: threads_ok_def)
  let ?n = "length (th_pushed w)"
  have s: "sized c (th_queue w)" using ix by (simp add: indices_ok_def)
  have i: "slot_index t (th_queue w) = ?n mod 2 ^ c" using slot_index_sized [OF s] t by simp
  have "?n mod 2 ^ c < length (sq_buffer (th_queue w))" using s by (simp add: sized_def)
  moreover have "(sq_buffer (th_queue w))[?n mod 2 ^ c := item] ! (k mod 2 ^ c) = sq_buffer (th_queue w) ! (k mod 2 ^ c)"
    if "length (th_popped w) \<le> k" "k < ?n" for k
  proof -
    have "k mod 2 ^ c \<noteq> ?n mod 2 ^ c" by (rule ring_slot_neq [OF that]) (use lt ix in \<open>simp add: indices_ok_def\<close>)
    then show ?thesis by simp
  qed
  ultimately show ?case using Push_write i t lt
    by (auto simp: threads_ok_def indices_ok_def contents_ok_def)
next
  case (Push_store w item t q)
  then show ?case
    by (auto simp: threads_ok_def indices_ok_def contents_ok_def nth_append less_Suc_eq cons_ok_push)
qed

lemma prod_ok_buffer:
  assumes "prod_ok cap n hs buf p" "\<And>item t. p = P_store item t \<Longrightarrow> buf' ! (n mod cap) = buf ! (n mod cap)"
  shows "prod_ok cap n hs buf' p"
  using assms by (cases p) auto

lemma pop_step_ok:
  assumes "pop_step left w w'" "threads_ok c w"
  shows "threads_ok c w'"
  using assms
proof (induction rule: pop_step.induct)
  case (Pop_check w h)
  then have ix: "indices_ok c w" by (simp add: threads_ok_def)
  have "(2 :: nat) ^ c < 2 ^ 64" using ix pow_less_u64(2) [of c] by (simp add: indices_ok_def sized_def)
  then have "th_tail_seen w - length (th_popped w) < 2 ^ 64" using ix unfolding indices_ok_def by linarith
  then have "h = sq_tail_cached (th_queue w) \<longleftrightarrow> length (th_popped w) = th_tail_seen w"
    using Pop_check(2) ring_eq [of "length (th_popped w)" "th_tail_seen w"] ix by (simp add: indices_ok_def)
  then show ?case using Pop_check ix by (auto simp: threads_ok_def indices_ok_def contents_ok_def)
next
  case (Pop_load w h i q)
  then have ix: "indices_ok c w" and h: "h = word_of_nat (length (th_popped w))" by (simp_all add: threads_ok_def)
  have i: "th_tails w ! i = word_of_nat i" "i \<le> length (th_pushed w)"
    using loaded_value [of i "length (th_pushed w)"] ix Pop_load(3) unfolding indices_ok_def by metis+
  have "(2 :: nat) ^ c < 2 ^ 64" using ix pow_less_u64(2) [of c] by (simp add: indices_ok_def sized_def)
  then have d: "length (th_popped w) \<le> i" "i - length (th_popped w) < 2 ^ 64"
    using ix i(2) Pop_load(2) unfolding indices_ok_def by linarith+
  have "h = sq_tail_cached q \<longleftrightarrow> length (th_popped w) = i" unfolding h using Pop_load(4) i(1) ring_eq [OF d] by simp
  then show ?case using Pop_load i d(1) by (auto simp: threads_ok_def indices_ok_def contents_ok_def)
next
  case (Pop_read w h i x q)
  then have ix: "indices_ok c w" and h: "h = word_of_nat (length (th_popped w))"
    and lt: "length (th_popped w) < th_tail_seen w" by (simp_all add: threads_ok_def)
  let ?m = "length (th_popped w)" and ?n = "length (th_pushed w)" and ?buf = "sq_buffer (th_queue w)"
  have s: "sized c (th_queue w)" using ix by (simp add: indices_ok_def)
  have i: "i = ?m mod 2 ^ c" using slot_index_sized [OF s] h Pop_read(2) by simp
  have old: "?buf[i := left x] ! (k mod 2 ^ c) = ?buf ! (k mod 2 ^ c)" if "?m < k" "k < ?m + 2 ^ c" for k
  proof -
    have "?m mod 2 ^ c \<noteq> k mod 2 ^ c" by (rule ring_slot_neq [of ?m]) (use that in simp_all)
    then show ?thesis by (simp add: i)
  qed
  have "?buf[i := left x] ! (k mod 2 ^ c) = th_pushed w ! k" if "Suc ?m \<le> k" "k < ?n" for k
    using old [of k] that ix Pop_read(1,5) by (simp add: threads_ok_def indices_ok_def contents_ok_def)
  moreover have "x = th_pushed w ! ?m" using Pop_read(1,3,5) lt ix i
    by (simp add: threads_ok_def contents_ok_def indices_ok_def)
  moreover have "prod_ok (2 ^ c) ?n (th_head_seen w) (?buf[i := left x]) (th_prod w)"
  proof (rule prod_ok_buffer)
    show "prod_ok (2 ^ c) ?n (th_head_seen w) ?buf (th_prod w)" using Pop_read(5) by (simp add: threads_ok_def)
    fix item t assume "th_prod w = P_store item t"
    then have "?n < th_head_seen w + 2 ^ c" using Pop_read(5) by (simp add: threads_ok_def)
    then have "?m < ?n" "?n < ?m + 2 ^ c" using lt ix by (auto simp: indices_ok_def)
    then show "?buf[i := left x] ! (?n mod 2 ^ c) = ?buf ! (?n mod 2 ^ c)" by (rule old)
  qed
  ultimately show ?case using Pop_read h lt ix by (auto simp: threads_ok_def indices_ok_def contents_ok_def)
next
  case (Pop_store w x h q)
  then have "length (th_popped w) < length (th_pushed w)" by (auto simp: threads_ok_def indices_ok_def)
  then have "take (Suc (length (th_popped w))) (th_pushed w) = th_popped w @ [x]"
    using Pop_store(1,3) by (simp add: threads_ok_def contents_ok_def take_Suc_conv_app_nth)
  then show ?case using Pop_store by (auto simp: threads_ok_def indices_ok_def contents_ok_def)
qed

lemma reachable_ok:
  assumes "threads_reachable left d (2 ^ c) w" "c < 64"
  shows "threads_ok c w"
  using assms(1) by induction (simp_all add: threads_ok_new [OF assms(2)] push_step_ok pop_step_ok)

section \<open>What the threads rely on\<close>

text \<open>A run of six steps on a queue of capacity two: the producer is about to write its second item
  while the consumer is about to read the first.\<close>

definition demo_queue :: "u64 \<Rightarrow> u64 \<Rightarrow> nat list \<Rightarrow> nat spsc_queue" where
  "demo_queue t tc buf = \<lparr>sq_tail = t, sq_head_cached = 0, sq_head = 0, sq_tail_cached = tc, sq_buffer = buf\<rparr>"

definition demo_threads :: "nat spsc_queue \<Rightarrow> nat producer \<Rightarrow> nat consumer \<Rightarrow> u64 list \<Rightarrow> nat \<Rightarrow> nat list \<Rightarrow> nat threads" where
  "demo_threads q p k tails seen pushed = \<lparr>th_queue = q, th_prod = p, th_cons = k, th_tails = tails, th_heads = [0],
     th_tail_seen = seen, th_head_seen = 0, th_pushed = pushed, th_popped = []\<rparr>"

lemma demo_run:
  "threads_reachable (\<lambda>x. x) 0 (2 ^ 1) (demo_threads (demo_queue 1 1 [7, 0]) (P_write 8 1) (C_read 0) [0, 1] 1 [7])"
proof -
  note defs = demo_threads_def demo_queue_def seems_full_def spsc_capacity_def slot_index_def
  let ?R = "threads_reachable (\<lambda>x. x) (0 :: nat) (2 ^ 1)"
  have "?R (demo_threads (demo_queue 0 0 [0, 0]) P_idle C_idle [0] 0 [])"
    using threads_reachable.Start [of "\<lambda>x. x" "0 :: nat" "2 ^ 1"]
    by (simp add: threads_new_def spsc_new_def defs numeral_2_eq_2)
  moreover have "push_step (demo_threads (demo_queue 0 0 [0, 0]) P_idle C_idle [0] 0 [])
      (demo_threads (demo_queue 0 0 [0, 0]) (P_write 7 0) C_idle [0] 0 [])"
    using push_step.Push_check [of "demo_threads (demo_queue 0 0 [0, 0]) P_idle C_idle [0] 0 []" 0 7] by (simp add: defs)
  ultimately have "?R (demo_threads (demo_queue 0 0 [0, 0]) (P_write 7 0) C_idle [0] 0 [])" by (rule threads_reachable.Push)
  moreover have "push_step (demo_threads (demo_queue 0 0 [0, 0]) (P_write 7 0) C_idle [0] 0 [])
      (demo_threads (demo_queue 0 0 [7, 0]) (P_store 7 0) C_idle [0] 0 [])"
    using push_step.Push_write [of "demo_threads (demo_queue 0 0 [0, 0]) (P_write 7 0) C_idle [0] 0 []" 7 0] by (simp add: defs)
  ultimately have "?R (demo_threads (demo_queue 0 0 [7, 0]) (P_store 7 0) C_idle [0] 0 [])" by (rule threads_reachable.Push)
  moreover have "push_step (demo_threads (demo_queue 0 0 [7, 0]) (P_store 7 0) C_idle [0] 0 [])
      (demo_threads (demo_queue 1 0 [7, 0]) P_idle C_idle [0, 1] 0 [7])"
    using push_step.Push_store [of "demo_threads (demo_queue 0 0 [7, 0]) (P_store 7 0) C_idle [0] 0 []" 7 0] by (simp add: defs)
  ultimately have "?R (demo_threads (demo_queue 1 0 [7, 0]) P_idle C_idle [0, 1] 0 [7])" by (rule threads_reachable.Push)
  moreover have "push_step (demo_threads (demo_queue 1 0 [7, 0]) P_idle C_idle [0, 1] 0 [7])
      (demo_threads (demo_queue 1 0 [7, 0]) (P_write 8 1) C_idle [0, 1] 0 [7])"
    using push_step.Push_check [of "demo_threads (demo_queue 1 0 [7, 0]) P_idle C_idle [0, 1] 0 [7]" 1 8] by (simp add: defs)
  ultimately have "?R (demo_threads (demo_queue 1 0 [7, 0]) (P_write 8 1) C_idle [0, 1] 0 [7])" by (rule threads_reachable.Push)
  moreover have "pop_step (\<lambda>x. x) (demo_threads (demo_queue 1 0 [7, 0]) (P_write 8 1) C_idle [0, 1] 0 [7])
      (demo_threads (demo_queue 1 0 [7, 0]) (P_write 8 1) (C_load 0) [0, 1] 0 [7])"
    using pop_step.Pop_check [of "demo_threads (demo_queue 1 0 [7, 0]) (P_write 8 1) C_idle [0, 1] 0 [7]" 0 "\<lambda>x. x"] by (simp add: defs)
  ultimately have "?R (demo_threads (demo_queue 1 0 [7, 0]) (P_write 8 1) (C_load 0) [0, 1] 0 [7])" by (rule threads_reachable.Pop)
  moreover have "pop_step (\<lambda>x. x) (demo_threads (demo_queue 1 0 [7, 0]) (P_write 8 1) (C_load 0) [0, 1] 0 [7])
      (demo_threads (demo_queue 1 1 [7, 0]) (P_write 8 1) (C_read 0) [0, 1] 1 [7])"
    using pop_step.Pop_load [of "demo_threads (demo_queue 1 0 [7, 0]) (P_write 8 1) (C_load 0) [0, 1] 0 [7]" 0 1 _ "\<lambda>x. x"]
    by (simp add: defs)
  ultimately show ?thesis by (rule threads_reachable.Pop)
qed

section \<open>The size that a thread sees\<close>

text \<open>\<open>size()\<close> loads the tail, then the head. For the two threads themselves, of whose indices one is
  their own, the difference is exact for the states they saw and never above the capacity.\<close>

lemma size_seen:
  assumes "threads_reachable left d (2 ^ c) w" "c < 64"
  shows "th_head_seen w \<le> i \<Longrightarrow> i < length (th_heads w) \<Longrightarrow>
      unat (sq_tail (th_queue w) - th_heads w ! i) = length (th_pushed w) - i \<and> length (th_pushed w) - i \<le> 2 ^ c"
    and "th_tail_seen w \<le> j \<Longrightarrow> j < length (th_tails w) \<Longrightarrow>
      unat (th_tails w ! j - sq_head (th_queue w)) = j - length (th_popped w) \<and> j - length (th_popped w) \<le> 2 ^ c"
proof -
  have ix: "indices_ok c w" using reachable_ok [OF assms] by (simp add: threads_ok_def)
  have diff: "unat (word_of_nat n - word_of_nat m :: u64) = n - m" if "m \<le> n" "n - m \<le> 2 ^ c" for n m
  proof -
    have "(word_of_nat n - word_of_nat m :: u64) = word_of_nat (n - m)" using that(1) by (simp add: of_nat_diff)
    then show ?thesis using that(2) pow_less_u64(2) [OF assms(2)] by (simp add: unat_of_nat)
  qed
  show "unat (sq_tail (th_queue w) - th_heads w ! i) = length (th_pushed w) - i \<and> length (th_pushed w) - i \<le> 2 ^ c"
    if "th_head_seen w \<le> i" "i < length (th_heads w)"
  proof -
    have "th_heads w ! i = word_of_nat i" "i \<le> length (th_popped w)"
      using ix that(2) loaded_value [of i "length (th_popped w)"] by (auto simp: indices_ok_def)
    moreover have "length (th_pushed w) - i \<le> 2 ^ c" "i \<le> length (th_pushed w)"
      using ix that(1) calculation(2) by (auto simp: indices_ok_def)
    ultimately show ?thesis using ix diff [of i "length (th_pushed w)"] by (simp add: indices_ok_def)
  qed
  show "unat (th_tails w ! j - sq_head (th_queue w)) = j - length (th_popped w) \<and> j - length (th_popped w) \<le> 2 ^ c"
    if "th_tail_seen w \<le> j" "j < length (th_tails w)"
  proof -
    have "th_tails w ! j = word_of_nat j" "j \<le> length (th_pushed w)"
      using ix that(2) loaded_value [of j "length (th_pushed w)"] by (auto simp: indices_ok_def)
    moreover have "j - length (th_popped w) \<le> 2 ^ c" "length (th_popped w) \<le> j"
      using ix that(1) calculation(2) by (auto simp: indices_ok_def)
    ultimately show ?thesis using ix diff [of "length (th_popped w)" j] by (simp add: indices_ok_def)
  qed
qed

text \<open>For a third thread the two loads are apart: the head it loads may have overtaken the tail it
  loaded, and the size is then the largest 64-bit number.\<close>

lemma size_observer_wraps:
  "\<exists>w. threads_reachable (\<lambda>x. x) (0 :: nat) (2 ^ 1) w \<and>
     sq_tail (th_queue (threads_new (0 :: nat) (2 ^ 1))) - sq_head (th_queue w) = - 1"
proof -
  let ?w = "demo_threads (demo_queue 1 1 [7, 0]) (P_write 8 1) (C_read 0) [0, 1] 1 [7]"
  have r: "th_cons ?w = C_read 0" by (simp add: demo_threads_def)
  obtain w1 x where w1: "w1 = ?w\<lparr>th_queue := th_queue w1, th_cons := C_store x 0\<rparr>" "threads_reachable (\<lambda>x. x) 0 (2 ^ 1) w1"
    using threads_reachable.Pop [OF demo_run pop_step.Pop_read [OF r refl refl refl]] by (rule that [rotated]) simp
  have "th_cons w1 = C_store x 0" by (subst w1(1)) simp
  note end_state = threads_reachable.Pop [OF w1(2) pop_step.Pop_store [OF this refl]]
  show ?thesis by (rule exI, rule conjI, rule end_state) (simp add: threads_new_def spsc_new_def)
qed

text \<open>C7: The queue is a correct channel between its two threads. Take any interleaving of the
  steps of a producer and a consumer, with acquire loads as stale as the memory model allows, on a
  queue whose capacity is a power of two, and for any number of operations, also past the point
  where the 64-bit indices wrap. What has been popped is the beginning of what has been pushed, in
  order, without loss or duplicate; at most the capacity is in flight; and the two threads never
  access the same slot of the buffer at the same time.\<close>

theorem spsc_channel:
  assumes "threads_reachable left d (2 ^ c) w" "c < 64"
  shows "(\<exists>rest. th_pushed w = th_popped w @ rest \<and> length rest \<le> 2 ^ c) \<and>
    (\<forall>item t h. th_prod w = P_write item t \<longrightarrow> th_cons w = C_read h \<longrightarrow>
      slot_index t (th_queue w) \<noteq> slot_index h (th_queue w))"
proof
  have ok: "indices_ok c w" "contents_ok c w" using reachable_ok [OF assms] by (simp_all add: threads_ok_def)
  have "th_pushed w = th_popped w @ drop (length (th_popped w)) (th_pushed w)"
    using ok(2) unfolding contents_ok_def by (metis append_take_drop_id)
  moreover have "length (drop (length (th_popped w)) (th_pushed w)) \<le> 2 ^ c" using ok(1) by (auto simp: indices_ok_def)
  ultimately show "\<exists>rest. th_pushed w = th_popped w @ rest \<and> length rest \<le> 2 ^ c" by blast
  show "\<forall>item t h. th_prod w = P_write item t \<longrightarrow> th_cons w = C_read h \<longrightarrow>
      slot_index t (th_queue w) \<noteq> slot_index h (th_queue w)"
  proof (intro allI impI)
    fix item t h assume p: "th_prod w = P_write item t" "th_cons w = C_read h"
    have s: "sized c (th_queue w)" using ok(1) by (simp add: indices_ok_def)
    have t: "t = word_of_nat (length (th_pushed w))" "length (th_pushed w) < th_head_seen w + 2 ^ c"
      "h = word_of_nat (length (th_popped w))" "length (th_popped w) < th_tail_seen w"
      using reachable_ok [OF assms] p by (simp_all add: threads_ok_def)
    have "length (th_popped w) mod 2 ^ c \<noteq> length (th_pushed w) mod 2 ^ c"
      by (rule ring_slot_neq [of "length (th_popped w)"]) (use t ok(1) in \<open>auto simp: indices_ok_def\<close>)
    then show "slot_index t (th_queue w) \<noteq> slot_index h (th_queue w)" using slot_index_sized [OF s] t by simp
  qed
qed

theorem spsc_channel_witness:
  "slot_index 1 (demo_queue 1 1 [7, 0]) \<noteq> slot_index 0 (demo_queue 1 1 [7, 0])"
  using spsc_channel [OF demo_run] by (simp add: demo_threads_def)

text \<open>How many steps a thread is from the end of its operation.\<close>

fun push_left :: "'a producer \<Rightarrow> nat" where
  "push_left P_idle = 0"
| "push_left (P_load item t) = 3"
| "push_left (P_write item t) = 2"
| "push_left (P_store item t) = 1"

fun pop_left :: "'a consumer \<Rightarrow> nat" where
  "pop_left C_idle = 0"
| "pop_left (C_load h) = 3"
| "pop_left (C_read h) = 2"
| "pop_left (C_store x h) = 1"

lemma push_enabled:
  assumes "threads_ok c w" "th_prod w \<noteq> P_idle"
  shows "\<exists>w'. push_step w w'"
proof (cases "th_prod w")
  case (P_load item t)
  have "th_head_seen w < length (th_heads w)" using assms(1) by (auto simp: threads_ok_def indices_ok_def)
  from push_step.Push_load [OF P_load order.refl this refl] show ?thesis by (rule exI)
next
  case (P_write item t)
  from push_step.Push_write [OF this refl] show ?thesis by (rule exI)
next
  case (P_store item t)
  from push_step.Push_store [OF this refl] show ?thesis by (rule exI)
qed (use assms(2) in simp)

lemma pop_enabled:
  assumes "threads_ok c w" "th_cons w \<noteq> C_idle"
  shows "\<exists>w'. pop_step left w w'"
proof (cases "th_cons w")
  case (C_load h)
  have "th_tail_seen w < length (th_tails w)" using assms(1) by (auto simp: threads_ok_def indices_ok_def)
  from pop_step.Pop_load [OF C_load order.refl this refl] show ?thesis by (rule exI)
next
  case (C_read h)
  from pop_step.Pop_read [OF this refl refl refl] show ?thesis by (rule exI)
next
  case (C_store x h)
  from pop_step.Pop_store [OF this refl] show ?thesis by (rule exI)
qed (use assms(2) in simp)

text \<open>C36: Wait freedom. In every reachable state a thread that is inside an operation can take a
  step; each of its steps brings it nearer to the end of the operation, of which at most three are
  left, and no step of the other thread takes it back.\<close>

theorem spsc_wait_free:
  assumes "threads_reachable left d (2 ^ c) w" "c < 64"
  shows "(th_prod w \<noteq> P_idle \<longrightarrow> (\<exists>w'. push_step w w') \<and>
      (\<forall>w'. push_step w w' \<longrightarrow> push_left (th_prod w') < push_left (th_prod w))) \<and>
    (th_cons w \<noteq> C_idle \<longrightarrow> (\<exists>w'. pop_step left w w') \<and>
      (\<forall>w'. pop_step left w w' \<longrightarrow> pop_left (th_cons w') < pop_left (th_cons w))) \<and>
    (\<forall>w'. push_step w w' \<longrightarrow> th_cons w' = th_cons w) \<and> (\<forall>w'. pop_step left w w' \<longrightarrow> th_prod w' = th_prod w) \<and>
    push_left (th_prod w) \<le> 3 \<and> pop_left (th_cons w) \<le> 3"
proof (intro conjI allI impI)
  note ok = reachable_ok [OF assms]
  show "th_prod w \<noteq> P_idle \<Longrightarrow> \<exists>w'. push_step w w'" by (rule push_enabled [OF ok])
  show "th_cons w \<noteq> C_idle \<Longrightarrow> \<exists>w'. pop_step left w w'" by (rule pop_enabled [OF ok])
  show "push_left (th_prod w') < push_left (th_prod w)" if "th_prod w \<noteq> P_idle" "push_step w w'" for w'
    using that(2,1) by cases simp_all
  show "pop_left (th_cons w') < pop_left (th_cons w)" if "th_cons w \<noteq> C_idle" "pop_step left w w'" for w'
    using that(2,1) by cases simp_all
  show "push_step w w' \<Longrightarrow> th_cons w' = th_cons w" for w' by (erule push_step.cases) simp_all
  show "pop_step left w w' \<Longrightarrow> th_prod w' = th_prod w" for w' by (erule pop_step.cases) simp_all
  show "push_left (th_prod w) \<le> 3" by (cases "th_prod w") simp_all
  show "pop_left (th_cons w) \<le> 3" by (cases "th_cons w") simp_all
qed

theorem spsc_wait_free_witness:
  "\<exists>w'. push_step (demo_threads (demo_queue 1 1 [7, 0]) (P_write 8 1) (C_read 0) [0, 1] 1 [7]) w'"
  using spsc_wait_free [OF demo_run] by (simp add: demo_threads_def)

end
