(* ===== verification/TC_Mpsc.thy ===== *)
theory TC_Mpsc
  imports TC_Spsc
begin

text \<open>
  \<open>lockfree/mpsc_queue.hpp\<close>: a queue for several producers made of one bounded queue per
  producer, which the consumer polls in turn. Each producer is alone on its queue, so the threads
  of one producer and the consumer are those of \<open>TC_Spsc_Threads\<close>; here the operations are whole.
  The poll is a function of the operation that takes an item out of a queue, and what it does is
  proved from the contract \<open>bounded_fifo\<close>.
\<close>

section \<open>The queue and its operations\<close>

record 'a mpsc_queue =
  mq_queues :: "'a spsc_queue list"
  mq_next_poll_idx :: nat

definition mpsc_new :: "'a \<Rightarrow> nat \<Rightarrow> nat \<Rightarrow> 'a mpsc_queue" where
  "mpsc_new d cap num_producers = \<lparr>mq_queues = replicate num_producers (spsc_new d cap), mq_next_poll_idx = 0\<rparr>"

definition mpsc_push :: "nat \<Rightarrow> 'a \<Rightarrow> 'a mpsc_queue \<Rightarrow> (bool \<times> 'a mpsc_queue) option" where
  "mpsc_push producer_id item m = do {
     tc_assert (producer_id < length (mq_queues m));
     let (ok, q) = spsc_push item (mq_queues m ! producer_id);
     Some (ok, m\<lparr>mq_queues := (mq_queues m)[producer_id := q]\<rparr>)
   }"

text \<open>The loop of \<open>pop\<close> from its \<open>i\<close>-th turn on, with \<open>k\<close> turns left.\<close>

fun poll :: "('q \<Rightarrow> 'a option \<times> 'q) \<Rightarrow> nat \<Rightarrow> nat \<Rightarrow> nat \<Rightarrow> 'q list \<Rightarrow> 'a option \<times> 'q list \<times> nat" where
  "poll get next_idx i 0 qs = (None, qs, next_idx)"
| "poll get next_idx i (Suc k) qs =
     (let idx = (next_idx + i) mod length qs;
          (r, q) = get (qs ! idx);
          qs = qs[idx := q]
      in case r of
           Some item \<Rightarrow> (Some item, qs, (idx + 1) mod length qs)
         | None \<Rightarrow> poll get next_idx (Suc i) k qs)"

definition mpsc_pop :: "('a \<Rightarrow> 'a) \<Rightarrow> 'a mpsc_queue \<Rightarrow> 'a option \<times> 'a mpsc_queue" where
  "mpsc_pop left m =
     (let (r, qs, next_idx) = poll (spsc_pop left) (mq_next_poll_idx m) 0 (length (mq_queues m)) (mq_queues m)
      in (r, m\<lparr>mq_queues := qs, mq_next_poll_idx := next_idx\<rparr>))"

section \<open>Polling queues\<close>

text \<open>The first queue in turn that holds something.\<close>

fun first_busy :: "nat \<Rightarrow> nat \<Rightarrow> nat \<Rightarrow> 'a list list \<Rightarrow> nat option" where
  "first_busy next_idx i 0 xss = None"
| "first_busy next_idx i (Suc k) xss =
     (let idx = (next_idx + i) mod length xss in
      if xss ! idx \<noteq> [] then Some idx else first_busy next_idx (Suc i) k xss)"

definition taken :: "nat \<Rightarrow> 'a list list \<Rightarrow> nat option \<Rightarrow> 'a option \<times> 'a list list \<times> nat" where
  "taken next_idx xss j = (case j of
     None \<Rightarrow> (None, xss, next_idx)
   | Some j \<Rightarrow> (Some (hd (xss ! j)), xss[j := tl (xss ! j)], (j + 1) mod length xss))"

context bounded_fifo
begin

definition all_hold :: "'q list \<Rightarrow> 'a list list \<Rightarrow> bool" where
  "all_hold qs xss \<longleftrightarrow> list_all2 holds qs xss"

lemma all_hold_at: "all_hold qs xss \<Longrightarrow> i < length qs \<Longrightarrow> holds (qs ! i) (xss ! i)"
  by (simp add: all_hold_def list_all2_conv_all_nth)

lemma all_hold_update: "all_hold qs xss \<Longrightarrow> holds q xs \<Longrightarrow> all_hold (qs[i := q]) (xss[i := xs])"
  by (simp add: all_hold_def list_all2_update_cong)

lemma all_hold_length: "all_hold qs xss \<Longrightarrow> length qs = length xss"
  by (simp add: all_hold_def list_all2_lengthD)

lemma poll_ok:
  assumes "all_hold qs xss" "qs \<noteq> []"
  shows "\<exists>r qs' n'. poll get nxt i k qs = (r, qs', n') \<and>
    (\<exists>xss'. taken nxt xss (first_busy nxt i k xss) = (r, xss', n') \<and> all_hold qs' xss')"
  using assms
proof (induction k arbitrary: i qs)
  case 0
  then show ?case by (simp add: taken_def)
next
  case (Suc k)
  let ?j = "(nxt + i) mod length qs"
  have j: "?j < length qs" using Suc.prems(2) by simp
  note at = all_hold_at [OF Suc.prems(1) j] and len = all_hold_length [OF Suc.prems(1)]
  show ?case
  proof (cases "xss ! ?j")
    case Nil
    then obtain q where q: "get (qs ! ?j) = (None, q)" "holds q []" using get_none at by auto
    have "all_hold (qs[?j := q]) (xss[?j := []])" by (rule all_hold_update [OF Suc.prems(1) q(2)])
    then have "all_hold (qs[?j := q]) xss" using Nil by (metis list_update_id)
    moreover have "qs[?j := q] \<noteq> []" using Suc.prems(2) by simp
    ultimately have "\<exists>r qs' n'. poll get nxt (Suc i) k (qs[?j := q]) = (r, qs', n') \<and>
        (\<exists>xss'. taken nxt xss (first_busy nxt (Suc i) k xss) = (r, xss', n') \<and> all_hold qs' xss')" by (rule Suc.IH)
    then show ?thesis using q(1) Nil len by (simp add: Let_def)
  next
    case (Cons x xs)
    then obtain q where q: "get (qs ! ?j) = (Some x, q)" "holds q xs" using get_first at by metis
    have "all_hold (qs[?j := q]) (xss[?j := xs])" by (rule all_hold_update [OF Suc.prems(1) q(2)])
    then show ?thesis using q(1) Cons len by (simp add: Let_def taken_def)
  qed
qed

end

text \<open>The poll finds the nearest busy queue.\<close>

lemma first_busy_near:
  assumes "d < i + k" "i \<le> d" "xss ! ((nxt + d) mod length xss) \<noteq> []"
  shows "\<exists>e. i \<le> e \<and> e \<le> d \<and> first_busy nxt i k xss = Some ((nxt + e) mod length xss)"
  using assms
proof (induction k arbitrary: i)
  case (Suc k)
  show ?case
  proof (cases "xss ! ((nxt + i) mod length xss) = []")
    case True
    then have "i \<noteq> d" using Suc.prems(3) by auto
    then obtain e where "Suc i \<le> e" "e \<le> d" "first_busy nxt (Suc i) k xss = Some ((nxt + e) mod length xss)"
      using Suc.IH [of "Suc i"] Suc.prems by auto
    then show ?thesis using True by (intro exI [of _ e]) (simp add: Let_def)
  next
    case False
    then show ?thesis using Suc.prems(2) by (intro exI [of _ i]) (simp add: Let_def)
  qed
qed simp

section \<open>The contract\<close>

definition mpsc_holds :: "nat \<Rightarrow> 'a mpsc_queue \<Rightarrow> 'a list list \<Rightarrow> bool" where
  "mpsc_holds c m xss \<longleftrightarrow> list_all2 (spsc_holds c) (mq_queues m) xss"

lemma mpsc_new_holds: "c < 64 \<Longrightarrow> mpsc_holds c (mpsc_new d (2 ^ c) n) (replicate n [])"
  by (simp add: mpsc_holds_def mpsc_new_def list_all2_conv_all_nth spsc_new_holds)

lemma mpsc_push_holds:
  assumes "mpsc_holds c m xss" "p < length xss"
  shows "\<exists>m'. mpsc_push p x m = Some (length (xss ! p) < 2 ^ c, m') \<and> mq_next_poll_idx m' = mq_next_poll_idx m \<and>
    mpsc_holds c m' (if length (xss ! p) < 2 ^ c then xss[p := xss ! p @ [x]] else xss)"
proof -
  have len: "length (mq_queues m) = length xss" using assms(1) by (simp add: mpsc_holds_def list_all2_lengthD)
  have at: "spsc_holds c (mq_queues m ! p) (xss ! p)"
    using assms len by (simp add: mpsc_holds_def list_all2_conv_all_nth)
  obtain q where q: "spsc_push x (mq_queues m ! p) = (length (xss ! p) < 2 ^ c, q)"
    "spsc_holds c q (if length (xss ! p) < 2 ^ c then xss ! p @ [x] else xss ! p)"
    using spsc_push_holds [OF at, of x] by (elim exE conjE)
  have "list_all2 (spsc_holds c) ((mq_queues m)[p := q])
      (xss[p := if length (xss ! p) < 2 ^ c then xss ! p @ [x] else xss ! p])"
    using assms(1) q(2) unfolding mpsc_holds_def by (rule list_all2_update_cong)
  then show ?thesis using q(1) assms(2) len
    by (cases "length (xss ! p) < 2 ^ c") (simp_all add: mpsc_push_def mpsc_holds_def)
qed

lemma mpsc_pop_holds:
  assumes "mpsc_holds c m xss" "xss \<noteq> []"
  shows "\<exists>r m'. mpsc_pop left m = (r, m') \<and>
    (\<exists>xss'. taken (mq_next_poll_idx m) xss (first_busy (mq_next_poll_idx m) 0 (length xss) xss) =
       (r, xss', mq_next_poll_idx m') \<and> mpsc_holds c m' xss')"
proof -
  have len: "length (mq_queues m) = length xss" using assms(1) by (simp add: mpsc_holds_def list_all2_lengthD)
  then have "mq_queues m \<noteq> []" using assms(2) by auto
  moreover have "spsc.all_hold c (mq_queues m) xss" using assms(1) by (simp add: mpsc_holds_def spsc.all_hold_def)
  note poll = spsc.poll_ok [OF this calculation, of left "mq_next_poll_idx m" 0 "length xss"]
  obtain r qs n xss' where "poll (spsc_pop left) (mq_next_poll_idx m) 0 (length xss) (mq_queues m) = (r, qs, n)"
    "taken (mq_next_poll_idx m) xss (first_busy (mq_next_poll_idx m) 0 (length xss) xss) = (r, xss', n)"
    "list_all2 (spsc_holds c) qs xss'"
    using poll unfolding spsc.all_hold_def by (elim exE conjE) (rule that)
  then show ?thesis by (simp add: mpsc_pop_def len mpsc_holds_def)
qed

section \<open>Fairness\<close>

datatype 'a mpsc_call = Push_call nat 'a | Pop_call

text \<open>A sequence of calls, and the results of its pops.\<close>

fun run_calls :: "('a \<Rightarrow> 'a) \<Rightarrow> 'a mpsc_call list \<Rightarrow> 'a mpsc_queue \<Rightarrow> ('a option list \<times> 'a mpsc_queue) option" where
  "run_calls left [] m = Some ([], m)"
| "run_calls left (Push_call p x # cs) m = do {
     (_, m) \<leftarrow> mpsc_push p x m;
     run_calls left cs m
   }"
| "run_calls left (Pop_call # cs) m = (let (r, m) = mpsc_pop left m in do {
     (rs, m) \<leftarrow> run_calls left cs m;
     Some (r # rs, m)
   })"

definition pop_calls :: "'a mpsc_call list \<Rightarrow> nat" where
  "pop_calls cs = length (filter (\<lambda>c. c = Pop_call) cs)"

lemma first_busy_less: "xss \<noteq> [] \<Longrightarrow> first_busy nxt i k xss = Some j \<Longrightarrow> j < length xss"
  by (induction k arbitrary: i) (auto simp: Let_def split: if_splits)

lemma pop_served:
  assumes "mpsc_holds c m xss" "(mq_next_poll_idx m + d) mod length xss = p" "d < length xss" "xss ! p = x # xs"
  shows "\<exists>r m' xss'. mpsc_pop left m = (r, m') \<and> mpsc_holds c m' xss' \<and> length xss' = length xss \<and>
    (r = Some x \<or> (\<exists>e < d. (mq_next_poll_idx m' + e) mod length xss' = p \<and> xss' ! p = x # xs))"
proof -
  let ?n = "mq_next_poll_idx m" and ?L = "length xss"
  have ne: "xss \<noteq> []" using assms(3) by auto
  then have "p < ?L" unfolding assms(2) [symmetric] by simp
  obtain e where e: "e \<le> d" "first_busy ?n 0 ?L xss = Some ((?n + e) mod ?L)"
    using first_busy_near [of d 0 ?L xss ?n] assms(2-4) by auto
  let ?j = "(?n + e) mod ?L"
  obtain r m' xss' where pop: "mpsc_pop left m = (r, m')" "mpsc_holds c m' xss'"
    "taken ?n xss (Some ?j) = (r, xss', mq_next_poll_idx m')"
    using mpsc_pop_holds [OF assms(1) ne, of left] unfolding e(2) by (elim exE conjE) (rule that)
  then have r: "r = Some (hd (xss ! ?j))" "xss' = xss[?j := tl (xss ! ?j)]" "mq_next_poll_idx m' = (?j + 1) mod ?L"
    by (auto simp: taken_def)
  show ?thesis
  proof (cases "e = d")
    case True
    then have "r = Some x" using r(1) assms(2,4) by simp
    then show ?thesis using pop r(2) by (intro exI [of _ r] exI [of _ m'] exI [of _ xss']) simp
  next
    case False
    then have lt: "e < d" using e(1) by simp
    have "?j \<noteq> p"
      using ring_slot_neq [of "?n + e" "?n + e" "?n + d" ?L] lt assms(2,3) by auto
    then have "xss' ! p = x # xs" using r(2) assms(4) \<open>p < ?L\<close> by simp
    moreover have "(mq_next_poll_idx m' + (d - Suc e)) mod ?L = p"
    proof -
      have "(mq_next_poll_idx m' + (d - Suc e)) mod ?L = (?n + e + 1 + (d - Suc e)) mod ?L"
        unfolding r(3) by (simp add: mod_simps ac_simps)
      then show ?thesis using lt assms(2) by simp
    qed
    ultimately show ?thesis using pop r(2) lt
      by (intro exI [of _ r] exI [of _ m'] exI [of _ xss'] conjI disjI2 exI [of _ "d - Suc e"]) simp_all
  qed
qed

lemma run_served:
  assumes "mpsc_holds c m xss" "(mq_next_poll_idx m + d) mod length xss = p" "d < length xss" "xss ! p = x # xs"
    "d < pop_calls cs" "run_calls left cs m = Some (rs, m')"
  shows "Some x \<in> set rs"
  using assms
proof (induction left cs m arbitrary: xss d xs rs rule: run_calls.induct)
  case (2 left k y cs m)
  then obtain b m1 where m1: "mpsc_push k y m = Some (b, m1)" "run_calls left cs m1 = Some (rs, m')"
    by (auto simp: bind_Some_iff)
  have "k < length xss" using m1(1) "2.prems"(1)
    by (auto simp: mpsc_push_def bind_Some_iff mpsc_holds_def dest: list_all2_lengthD split: prod.splits)
  then obtain m2 where "mpsc_push k y m = Some (length (xss ! k) < 2 ^ c, m2)" "mq_next_poll_idx m2 = mq_next_poll_idx m"
    "mpsc_holds c m2 (if length (xss ! k) < 2 ^ c then xss[k := xss ! k @ [y]] else xss)"
    using mpsc_push_holds [OF "2.prems"(1)] by blast
  then have m2: "mq_next_poll_idx m1 = mq_next_poll_idx m"
    "mpsc_holds c m1 (if length (xss ! k) < 2 ^ c then xss[k := xss ! k @ [y]] else xss)" using m1(1) by simp_all
  let ?xss = "if length (xss ! k) < 2 ^ c then xss[k := xss ! k @ [y]] else xss"
  have "0 < length xss" using "2.prems"(3) by linarith
  then have "p < length xss" unfolding "2.prems"(2) [symmetric] by simp
  then have "length ?xss = length xss" "\<exists>zs. ?xss ! p = x # zs"
    using "2.prems"(4) by (simp_all add: nth_list_update) (cases "k = p"; simp)
  then obtain zs where zs: "length ?xss = length xss" "?xss ! p = x # zs" by blast
  have pc: "d < pop_calls cs" using "2.prems"(5) by (simp add: pop_calls_def)
  show ?case
    by (rule "2.IH" [OF m1(1) refl m2(2) _ _ zs(2) pc m1(2)]) (use "2.prems"(2,3) zs(1) m2(1) in simp_all)
next
  case (3 left cs m)
  obtain r m1 xss' where pop: "mpsc_pop left m = (r, m1)" "mpsc_holds c m1 xss'" "length xss' = length xss"
    "r = Some x \<or> (\<exists>e < d. (mq_next_poll_idx m1 + e) mod length xss' = p \<and> xss' ! p = x # xs)"
    using pop_served [OF "3.prems"(1-4), of left] by (elim exE conjE) (rule that)
  obtain rs' where rs': "run_calls left cs m1 = Some (rs', m')" "rs = r # rs'"
    using "3.prems"(6) pop(1) by (auto simp: bind_Some_iff)
  show ?case
  proof (cases "r = Some x")
    case False
    then obtain e where e: "e < d" "(mq_next_poll_idx m1 + e) mod length xss' = p" "xss' ! p = x # xs" using pop(4) by blast
    have "e < length xss'" "e < pop_calls cs" using e(1) "3.prems"(3,5) pop(3) by (simp_all add: pop_calls_def)
    then have "Some x \<in> set rs'" using "3.IH" [OF pop(1) [symmetric] refl pop(2) e(2) _ e(3) _ rs'(1)] by simp
    then show ?thesis using rs'(2) by simp
  qed (use rs'(2) in simp)
qed (simp add: pop_calls_def)

text \<open>C37: No producer starves. If the queue of a producer holds an item at its front, then that item
  is returned by one of the next pops of the consumer, as many as there are producers, whatever is
  pushed to any queue in between.\<close>

theorem mpsc_no_starvation:
  assumes "mpsc_holds c m xss" "p < length xss" "xss ! p = x # xs" "length xss \<le> pop_calls cs"
    "run_calls left cs m = Some (rs, m')" "mq_next_poll_idx m < length xss"
  shows "Some x \<in> set rs"
proof -
  let ?d = "(p + length xss - mq_next_poll_idx m) mod length xss"
  have "(mq_next_poll_idx m + ?d) mod length xss = (mq_next_poll_idx m + (p + length xss - mq_next_poll_idx m)) mod length xss"
    by (simp add: mod_simps)
  also have "\<dots> = p" using assms(2,6) by simp
  finally have "(mq_next_poll_idx m + ?d) mod length xss = p" .
  moreover have "0 < length xss" using assms(2) by linarith
  then have "?d < length xss" by simp
  ultimately show ?thesis using run_served [OF assms(1) _ _ assms(3) _ assms(5)] assms(4) by simp
qed

theorem mpsc_no_starvation_witness:
  "\<exists>m rs m'. mpsc_push 1 5 (mpsc_new 0 (2 ^ 3) 2) = Some (True, m) \<and>
    run_calls (\<lambda>x. x) [Push_call 0 4, Pop_call, Push_call 0 6, Pop_call] m = Some (rs, m') \<and> Some (5 :: nat) \<in> set rs"
proof -
  have new: "mpsc_holds 3 (mpsc_new 0 (2 ^ 3) 2) (replicate 2 ([] :: nat list))" by (rule mpsc_new_holds) simp
  obtain m where m: "mpsc_push 1 5 (mpsc_new 0 (2 ^ 3) 2) = Some (True, m)" "mq_next_poll_idx m = 0"
    "mpsc_holds 3 m [[], [5 :: nat]]"
    using mpsc_push_holds [OF new, of 1 5] by (auto simp: numeral_2_eq_2 mpsc_new_def)
  have "case mpsc_push 1 5 (mpsc_new (0 :: nat) (2 ^ 3) 2) of None \<Rightarrow> False | Some (ok, m) \<Rightarrow>
      (case run_calls (\<lambda>x. x) [Push_call 0 4, Pop_call, Push_call 0 6, Pop_call] m of None \<Rightarrow> False | Some _ \<Rightarrow> True)"
    by code_simp
  then obtain rs m' where run: "run_calls (\<lambda>x. x) [Push_call 0 4, Pop_call, Push_call 0 6, Pop_call] m = Some (rs, m')"
    unfolding m(1) by (auto split: option.splits)
  have "Some (5 :: nat) \<in> set rs"
    by (rule mpsc_no_starvation [OF m(3) _ _ _ run, of 1]) (simp_all add: m(2) pop_calls_def)
  with m(1) run show ?thesis by blast
qed

end
