(* ===== verification/TC_Types.thy ===== *)
theory TC_Types
  imports TC_Prelude
begin

text \<open>
  \<open>common/fixed_point.hpp\<close>, \<open>common/timestamp.hpp\<close> and \<open>common/types.hpp\<close>: the value types of the
  library, ordered as their defaulted three-way comparison orders them, by their one member, and the
  constants of \<open>common/constants.hpp\<close> that no component uses. The components use the plain integers;
  the lemmas relate the two.
\<close>

section \<open>Prices\<close>

datatype fixed_point_price = FixedPointPrice (fp_raw: u32)

definition fixed_point_zero :: fixed_point_price where
  "fixed_point_zero = FixedPointPrice 0"

instantiation fixed_point_price :: linorder
begin

definition less_eq_fixed_point_price :: "fixed_point_price \<Rightarrow> fixed_point_price \<Rightarrow> bool" where
  "less_eq_fixed_point_price a b \<longleftrightarrow> fp_raw a \<le> fp_raw b"

definition less_fixed_point_price :: "fixed_point_price \<Rightarrow> fixed_point_price \<Rightarrow> bool" where
  "less_fixed_point_price a b \<longleftrightarrow> fp_raw a < fp_raw b"

instance
  by standard (auto simp: less_eq_fixed_point_price_def less_fixed_point_price_def fixed_point_price.expand)

end

section \<open>Times\<close>

datatype timestamp = Timestamp (ts_nanos: u64)

definition timestamp_zero :: timestamp where
  "timestamp_zero = Timestamp 0"

instantiation timestamp :: linorder
begin

definition less_eq_timestamp :: "timestamp \<Rightarrow> timestamp \<Rightarrow> bool" where
  "less_eq_timestamp a b \<longleftrightarrow> ts_nanos a \<le> ts_nanos b"

definition less_timestamp :: "timestamp \<Rightarrow> timestamp \<Rightarrow> bool" where
  "less_timestamp a b \<longleftrightarrow> ts_nanos a < ts_nanos b"

instance
  by standard (auto simp: less_eq_timestamp_def less_timestamp_def timestamp.expand)

end

section \<open>Sides\<close>

datatype side = Buy | Sell

fun side_value :: "side \<Rightarrow> u8" where
  "side_value Buy = 0"
| "side_value Sell = 1"

lemma side_value_eq: "side_value s = 0 \<longleftrightarrow> s = Buy" "side_value s = 1 \<longleftrightarrow> s = Sell"
  by (cases s; simp)+

section \<open>Kinds and states of orders\<close>

text \<open>The engine has its own enumeration of order types; both number the common types alike.\<close>

datatype listed_type = Type_Limit | Type_Market | Type_IOC | Type_FOK

fun listed_type_value :: "listed_type \<Rightarrow> u8" where
  "listed_type_value Type_Limit = 0"
| "listed_type_value Type_Market = 1"
| "listed_type_value Type_IOC = 2"
| "listed_type_value Type_FOK = 3"

datatype order_state = State_New | State_Active | State_Partial | State_Filled | State_Canceled | State_Rejected

fun order_state_value :: "order_state \<Rightarrow> u8" where
  "order_state_value State_New = 0"
| "order_state_value State_Active = 1"
| "order_state_value State_Partial = 2"
| "order_state_value State_Filled = 3"
| "order_state_value State_Canceled = 4"
| "order_state_value State_Rejected = 5"

lemma order_values_inj: "listed_type_value t = listed_type_value t' \<longleftrightarrow> t = t'" "order_state_value s = order_state_value s' \<longleftrightarrow> s = s'"
  by (cases t; cases t'; simp) (cases s; cases s'; simp)

section \<open>Constants\<close>

definition kCacheLineSize :: u64 where "kCacheLineSize = 64"
definition kHugePageSize :: u64 where "kHugePageSize = 2 * 1024 * 1024"
definition kMaxSymbols :: u32 where "kMaxSymbols = 65536"
definition kInvalidSymbol :: u16 where "kInvalidSymbol = - 1"

text \<open>The sizes are powers of two, and every symbol index, the invalid one included, is below the limit.\<close>

lemma constant_sizes: "kCacheLineSize = push_bit 6 1" "kHugePageSize = push_bit 21 1" "kHugePageSize mod kCacheLineSize = 0"
  by (simp_all add: kCacheLineSize_def kHugePageSize_def push_bit_eq_mult)

lemma symbol_below_max: "(ucast (s :: u16) :: u32) < kMaxSymbols"
proof -
  have "unat (ucast s :: u32) = unat s" by (simp add: unsigned_ucast_eq take_bit_nat_eq_self unsigned_less [THEN less_le_trans])
  then show ?thesis using unsigned_less [of s] by (simp add: word_less_nat_alt kMaxSymbols_def)
qed

end
