(* ===== verification/TC_Huge_Page.thy ===== *)
theory TC_Huge_Page
  imports TC_Prelude
begin

text \<open>
  \<open>memory/huge_page.hpp\<close>: memory straight from the kernel, one definition for each branch of the
  conditional compilation: Linux with and without NUMA support, Windows, and any other system. The
  system calls are parameters, as functions of the state of the kernel: those that allocate return
  an address or nothing, the others whether they succeeded where the code looks at it. The exception
  \<open>std::bad_alloc\<close> is the left value of the result. \<open>None\<close> is the shift by at least 64 bits, which C++
  leaves undefined. The last section states what the Linux manual says of \<open>munmap\<close> on huge pages, and
  what follows.
\<close>

section \<open>Linux\<close>

datatype mmap_flag = MAP_PRIVATE | MAP_ANONYMOUS | MAP_HUGETLB | MAP_POPULATE

datatype alloc_error = Bad_alloc

definition huge_threshold :: u64 where
  "huge_threshold = 2 * 1024 * 1024"

definition nodemask_of :: "u32 \<Rightarrow> u64 option" where
  "nodemask_of numa_node = (if sint numa_node < 64 then Some (push_bit (nat (sint numa_node)) 1) else None)"

definition map_flags :: "u64 \<Rightarrow> mmap_flag set" where
  "map_flags sz = (let flags = {MAP_PRIVATE, MAP_ANONYMOUS} in
     if sz \<ge> huge_threshold then flags \<union> {MAP_HUGETLB, MAP_POPULATE} else flags \<union> {MAP_POPULATE})"

definition huge_allocate :: "(u64 \<Rightarrow> mmap_flag set \<Rightarrow> 'k \<Rightarrow> u64 option \<times> 'k) \<Rightarrow> (u64 \<Rightarrow> u64 \<Rightarrow> u64 \<Rightarrow> 'k \<Rightarrow> bool \<times> 'k) \<Rightarrow>
    u64 \<Rightarrow> u32 \<Rightarrow> 'k \<Rightarrow> ((alloc_error + u64) \<times> 'k) option" where
  "huge_allocate mmap mbind sz numa_node k =
     (case mmap sz (map_flags sz) k of
        (None, k) \<Rightarrow> Some (Inl Bad_alloc, k)
      | (Some ptr, k) \<Rightarrow>
          if sint numa_node \<ge> 0 then do {
            nodemask \<leftarrow> nodemask_of numa_node;
            let (ok, k) = mbind ptr sz nodemask k;
            Some (Inr ptr, k)
          } else Some (Inr ptr, k))"

text \<open>Without the header of the NUMA library the node is ignored.\<close>

definition plain_allocate :: "(u64 \<Rightarrow> mmap_flag set \<Rightarrow> 'k \<Rightarrow> u64 option \<times> 'k) \<Rightarrow> u64 \<Rightarrow> 'k \<Rightarrow> (alloc_error + u64) \<times> 'k" where
  "plain_allocate mmap sz k =
     (case mmap sz (map_flags sz) k of
        (None, k) \<Rightarrow> (Inl Bad_alloc, k)
      | (Some ptr, k) \<Rightarrow> (Inr ptr, k))"

definition huge_deallocate :: "(u64 \<Rightarrow> u64 \<Rightarrow> 'k \<Rightarrow> bool \<times> 'k) \<Rightarrow> u64 option \<Rightarrow> u64 \<Rightarrow> 'k \<Rightarrow> 'k" where
  "huge_deallocate munmap ptr sz k = (case ptr of None \<Rightarrow> k | Some p \<Rightarrow> snd (munmap p sz k))"

section \<open>Windows\<close>

text \<open>
  The calls of the Windows interface: a process token or nothing, the identifier of a privilege or
  nothing, the change of a privilege, the release of the token, and virtual memory.
\<close>

datatype alloc_type = MEM_COMMIT | MEM_RESERVE | MEM_LARGE_PAGES

record 'k win_api =
  open_process_token :: "'k \<Rightarrow> u64 option \<times> 'k"
  lookup_privilege_value :: "'k \<Rightarrow> u64 option \<times> 'k"
  adjust_token_privileges :: "u64 \<Rightarrow> u64 \<Rightarrow> 'k \<Rightarrow> 'k"
  close_handle :: "u64 \<Rightarrow> 'k \<Rightarrow> 'k"
  virtual_alloc :: "u64 \<Rightarrow> alloc_type set \<Rightarrow> 'k \<Rightarrow> u64 option \<times> 'k"
  virtual_free :: "u64 \<Rightarrow> 'k \<Rightarrow> 'k"

definition enable_lock_memory :: "'k win_api \<Rightarrow> 'k \<Rightarrow> 'k" where
  "enable_lock_memory api k =
     (case open_process_token api k of
        (None, k) \<Rightarrow> k
      | (Some token, k) \<Rightarrow>
          (let k = (case lookup_privilege_value api k of
               (None, k) \<Rightarrow> k
             | (Some luid, k) \<Rightarrow> adjust_token_privileges api token luid k)
           in close_handle api token k))"

definition windows_allocate :: "'k win_api \<Rightarrow> u64 \<Rightarrow> 'k \<Rightarrow> (alloc_error + u64) \<times> 'k" where
  "windows_allocate api sz k =
     (let alloc_type = {MEM_COMMIT, MEM_RESERVE};
          (alloc_type, k) = (if sz \<ge> huge_threshold
            then (alloc_type \<union> {MEM_LARGE_PAGES}, enable_lock_memory api k) else (alloc_type, k));
          (ptr, k) = virtual_alloc api sz alloc_type k;
          (ptr, k) = (if ptr = None \<and> MEM_LARGE_PAGES \<in> alloc_type
            then virtual_alloc api sz {MEM_COMMIT, MEM_RESERVE} k else (ptr, k))
      in case ptr of None \<Rightarrow> (Inl Bad_alloc, k) | Some p \<Rightarrow> (Inr p, k))"

definition windows_deallocate :: "'k win_api \<Rightarrow> u64 option \<Rightarrow> 'k \<Rightarrow> 'k" where
  "windows_deallocate api ptr k = (case ptr of None \<Rightarrow> k | Some p \<Rightarrow> virtual_free api p k)"

section \<open>Other systems\<close>

definition posix_allocate :: "(u64 \<Rightarrow> u64 \<Rightarrow> 'k \<Rightarrow> u64 option \<times> 'k) \<Rightarrow> u64 \<Rightarrow> 'k \<Rightarrow> (alloc_error + u64) \<times> 'k" where
  "posix_allocate posix_memalign sz k =
     (case posix_memalign 4096 sz k of
        (None, k) \<Rightarrow> (Inl Bad_alloc, k)
      | (Some ptr, k) \<Rightarrow> (Inr ptr, k))"

definition posix_deallocate :: "(u64 \<Rightarrow> 'k \<Rightarrow> 'k) \<Rightarrow> u64 option \<Rightarrow> 'k \<Rightarrow> 'k" where
  "posix_deallocate free ptr k = (case ptr of None \<Rightarrow> k | Some p \<Rightarrow> free p k)"

section \<open>What the allocator does\<close>

lemma huge_flags: "MAP_HUGETLB \<in> map_flags sz \<longleftrightarrow> huge_threshold \<le> sz" "MAP_POPULATE \<in> map_flags sz"
  by (auto simp: map_flags_def Let_def)

lemma nodemask_bit:
  assumes "0 \<le> sint numa_node" "sint numa_node < 64"
  shows "\<exists>m. nodemask_of numa_node = Some m \<and> (\<forall>i < 64. bit m i \<longleftrightarrow> int i = sint numa_node)"
  using assms by (auto simp: nodemask_of_def bit_simps simp del: push_bit_of_1)

text \<open>A mapping is returned exactly when the kernel gives one; a failed binding is ignored.\<close>

lemma huge_allocate_result:
  assumes "sint numa_node < 64"
  shows "\<exists>r k'. huge_allocate mmap mbind sz numa_node k = Some (r, k') \<and>
    r = (case fst (mmap sz (map_flags sz) k) of None \<Rightarrow> Inl Bad_alloc | Some p \<Rightarrow> Inr p)"
  using assms by (auto simp: huge_allocate_def nodemask_of_def split: prod.splits option.splits)

lemma huge_allocate_undefined:
  "64 \<le> sint numa_node \<Longrightarrow> fst (mmap sz (map_flags sz) k) = Some p \<Longrightarrow> huge_allocate mmap mbind sz numa_node k = None"
  by (auto simp: huge_allocate_def nodemask_of_def split: prod.splits option.splits)

text \<open>Where the node does not matter, both Linux builds return the same memory.\<close>

lemma plain_allocate_agrees:
  assumes "sint numa_node < 0"
  shows "huge_allocate mmap mbind sz numa_node k = Some (plain_allocate mmap sz k)"
  using assms by (auto simp: huge_allocate_def plain_allocate_def split: prod.splits option.splits)

lemma numa_only_binds:
  assumes "huge_allocate mmap mbind sz numa_node k = Some (r, k')"
  shows "fst (plain_allocate mmap sz k) = r"
  using assms by (auto simp: huge_allocate_def plain_allocate_def split: prod.splits option.splits if_splits bind_splits)

text \<open>
  On Windows, memory comes from the attempt with large pages if that succeeds, else from the one
  without; large pages and the privilege for them are asked for at the threshold only.
\<close>

lemma windows_small:
  assumes "sz < huge_threshold"
  shows "windows_allocate api sz k = (case virtual_alloc api sz {MEM_COMMIT, MEM_RESERVE} k of
    (None, k) \<Rightarrow> (Inl Bad_alloc, k) | (Some p, k) \<Rightarrow> (Inr p, k))"
  using assms by (auto simp: windows_allocate_def Let_def not_le split: prod.splits option.splits)

lemma windows_large:
  assumes "huge_threshold \<le> sz"
  shows "windows_allocate api sz k =
    (case virtual_alloc api sz {MEM_COMMIT, MEM_RESERVE, MEM_LARGE_PAGES} (enable_lock_memory api k) of
       (Some p, k) \<Rightarrow> (Inr p, k)
     | (None, k) \<Rightarrow> (case virtual_alloc api sz {MEM_COMMIT, MEM_RESERVE} k of
         (None, k) \<Rightarrow> (Inl Bad_alloc, k) | (Some p, k) \<Rightarrow> (Inr p, k)))"
  using assms by (auto simp: windows_allocate_def Let_def insert_commute split: prod.splits option.splits)

text \<open>
  Tokens do not leak: if opening a token adds it to the open handles and closing it removes it, and
  the other calls keep the open handles, the sequence leaves them as they were.
\<close>

definition counts_handles :: "('k \<Rightarrow> u64 set) \<Rightarrow> 'k win_api \<Rightarrow> bool" where
  "counts_handles handles api \<longleftrightarrow>
     (\<forall>k k'. open_process_token api k = (None, k') \<longrightarrow> handles k' = handles k) \<and>
     (\<forall>k t k'. open_process_token api k = (Some t, k') \<longrightarrow> t \<notin> handles k \<and> handles k' = insert t (handles k)) \<and>
     (\<forall>k. handles (snd (lookup_privilege_value api k)) = handles k) \<and>
     (\<forall>t l k. handles (adjust_token_privileges api t l k) = handles k) \<and>
     (\<forall>t k. handles (close_handle api t k) = handles k - {t})"

lemma counts_handlesD:
  assumes "counts_handles handles api"
  shows "open_process_token api k = (None, k') \<Longrightarrow> handles k' = handles k"
    "open_process_token api k = (Some t, k') \<Longrightarrow> t \<notin> handles k"
    "open_process_token api k = (Some t, k') \<Longrightarrow> handles k' = insert t (handles k)"
    "handles (snd (lookup_privilege_value api k)) = handles k"
    "handles (adjust_token_privileges api t l k) = handles k" "handles (close_handle api t k) = handles k - {t}"
  using assms [unfolded counts_handles_def, THEN conjunct1, rule_format, of k k']
    assms [unfolded counts_handles_def, THEN conjunct2, THEN conjunct1, rule_format, of k t k']
    assms [unfolded counts_handles_def, THEN conjunct2, THEN conjunct2, THEN conjunct1, rule_format, of k]
    assms [unfolded counts_handles_def, THEN conjunct2, THEN conjunct2, THEN conjunct2, THEN conjunct1, rule_format, of t l k]
    assms [unfolded counts_handles_def, THEN conjunct2, THEN conjunct2, THEN conjunct2, THEN conjunct2, rule_format, of t k]
  by simp_all

lemma enable_closes_token:
  assumes "counts_handles handles api"
  shows "handles (enable_lock_memory api k) = handles k"
proof -
  note h = counts_handlesD [OF assms]
  obtain t k1 where o: "open_process_token api k = (t, k1)" by (cases "open_process_token api k")
  show ?thesis
  proof (cases t)
    case None
    then show ?thesis using o h(1) [of k k1] by (simp add: enable_lock_memory_def)
  next
    case (Some token)
    have k1: "token \<notin> handles k" "handles k1 = insert token (handles k)" using h(2,3) o Some by blast+
    obtain l k2 where l: "lookup_privilege_value api k1 = (l, k2)" by (cases "lookup_privilege_value api k1")
    then have "handles k2 = insert token (handles k)" using h(4) [of k1] k1(2) by simp
    then show ?thesis using o Some l k1(1) h(5,6) by (cases l) (simp_all add: enable_lock_memory_def)
  qed
qed

section \<open>Huge mappings of odd sizes are never released\<close>

text \<open>
  The manual page of \<open>mmap\<close>: for mappings of huge pages, the length given to \<open>munmap\<close> must be a
  multiple of the size of the huge page; otherwise the call fails and changes nothing. The allocator
  rounds neither on allocation nor on deallocation.
\<close>

definition rejects_odd_lengths :: "('k \<Rightarrow> u64 \<Rightarrow> bool) \<Rightarrow> (u64 \<Rightarrow> u64 \<Rightarrow> 'k \<Rightarrow> bool \<times> 'k) \<Rightarrow> bool" where
  "rejects_odd_lengths huge_at munmap \<longleftrightarrow>
     (\<forall>p sz k. huge_at k p \<longrightarrow> sz mod huge_threshold \<noteq> 0 \<longrightarrow> munmap p sz k = (False, k))"

lemma huge_leak:
  "rejects_odd_lengths huge_at munmap \<Longrightarrow> huge_at k p \<Longrightarrow> sz mod huge_threshold \<noteq> 0 \<Longrightarrow>
     huge_deallocate munmap (Some p) sz k = k"
  by (simp add: rejects_odd_lengths_def huge_deallocate_def)

text \<open>A kernel with one huge mapping: three megabytes at address zero stay mapped.\<close>

lemma huge_leak_demo:
  "huge_deallocate (\<lambda>p sz k. if p \<in> k \<and> sz mod huge_threshold \<noteq> 0 then (False, k) else (True, k - {p}))
     (Some 0) (3 * 1024 * 1024) {0} = {0}"
  by (rule huge_leak [where huge_at = "\<lambda>k p. p \<in> k"]) (simp_all add: rejects_odd_lengths_def huge_threshold_def)

end
