(* ===== verification/Spec2Isabelle.thy ===== *)
theory Spec2Isabelle
  imports TC_Feed TC_Debug_Build TC_Typed_Pools
    TC_Spsc_Threads TC_Mpsc TC_Types TC_Huge_Page
begin

text \<open>
  TradeCore is a header-only C++ library for a limit order book and its matching engine. This
  development models the code under \<open>src/include/tradecore\<close> and proves what makes its components
  correct. File names below are relative to that directory.

  \<^bold>\<open>The program.\<close> Packets are split into messages (\<open>network/moldudp64.hpp\<close>), an ITCH parser turns a
  message into a canonical \<open>BookUpdate\<close> (\<open>parser/\<close>), and the order book (\<open>orderbook/\<close>) dispatches the
  update through a table to its mutations. The book owns a pool of orders, a pool of price levels,
  an index from order ids to pool slots and two sides; a side is an AVL tree of levels linked by pool
  indices, with a dense array of the same levels and a cached best level, and a level is a queue of
  orders linked by pool indices. The matching engine (\<open>matching/\<close>) checks an action against the risk
  rules, executes it against the opposite side in price-time priority and rests what is left. The
  replay engine (\<open>replay/\<close>) feeds recorded messages to it, with a clock and telemetry. Queues for
  one or several producers (\<open>lockfree/\<close>), allocators (\<open>memory/\<close>) and latency histograms (\<open>telemetry/\<close>)
  serve the rest.

  \<^bold>\<open>Conventions.\<close> State is passed explicitly. \<open>None\<close> of the option monad is a run without a defined
  result: a \<open>TRADECORE_ASSERT\<close> that does not hold, memory that holds no object, a loop that does not
  end. What the code reports, a null pointer, a sentinel, false, a status, is a value. So a theorem
  that gives \<open>Some\<close> proves that no assertion fails and that every loop ends, and then a release build,
  where assertions are compiled out, does the same; where the model has \<open>None\<close> a debug build aborts
  and nothing is said of a release build. Machine integers are words of their width. A pointer into
  a pool is the index of its slot (\<open>index_of_slot_address\<close> of \<open>TC_Typed_Pools\<close> justifies it). Readings
  of the clock are a function of the number of the reading, and the byte order of the host is a flag
  of the definitions that read memory. Doubles are reals rounded to binary64 after each operation.

  \<^bold>\<open>The theories.\<close>
  \<^item> \<open>TC_Prelude\<close>: types of words, the sentinel and the assertion macro (\<open>common/types.hpp\<close>,
    \<open>constants.hpp\<close>, \<open>assert.hpp\<close>), lemmas on words, options and lists. \<open>TC_Types\<close>: prices and
    timestamps as value types with their order, the shared enumerations, the remaining constants.
  \<^item> \<open>TC_Object_Pool\<close> (\<open>memory/object_pool.hpp\<close>): slots with an intrusive free list; the contract
    \<open>slot_pool\<close>, a finite map with allocation, and its interpretation; what a second deallocation of
    a slot does. \<open>TC_Typed_Pools\<close> interprets it for the pools of levels and orders.
  \<^item> \<open>TC_Avl_Pure\<close>, \<open>TC_Avl_Tree\<close>, \<open>TC_Avl_Refine\<close>, \<open>TC_Avl_Correct\<close> (\<open>orderbook/avl_tree.hpp\<close> with
    \<open>price_level.hpp\<close>, \<open>avl_statistics.hpp\<close>): trees as data, the code over the pool, \<open>tree_at\<close> that relates
    them, and the correctness of insertion, removal and search.
  \<^item> \<open>TC_Flat_Hash_Map\<close> (\<open>flat_hash_map.hpp\<close>): linear probing with backward re-insertion; \<open>fm_wf\<close>, and the
    contract \<open>index_map\<close>. \<open>TC_Flat_Price_Array\<close> (\<open>flat_price_array.hpp\<close>), \<open>TC_Snapshot\<close>
    (\<open>book_snapshot.hpp\<close>), \<open>TC_Book_Side\<close> (\<open>book_side.hpp\<close>): \<open>side_rep\<close> relates a side to its tree.
  \<^item> \<open>TC_Order_Book\<close> (\<open>order_book.hpp\<close>, \<open>order.hpp\<close>): the book and its operations. \<open>TC_Order_Book_Inv\<close>: the
    invariant \<open>book_inv\<close>, the abstract book (side and price to a queue of orders) and \<open>book_rep\<close>.
    \<open>TC_Order_Book_Refine\<close>, \<open>_Remove\<close>: adding and removing keep the invariant. \<open>TC_Order_Book_Spec\<close>: the
    abstract step relation and the refinement of every operation. \<open>_Run\<close>, \<open>_Contract\<close>: reachable books
    and the properties.
  \<^item> \<open>TC_Static_Vector\<close>, \<open>TC_Matching\<close> (\<open>common/static_vector.hpp\<close>, \<open>matching/\<close>): the engine with the risk
    pipeline and the liquidity analyzer. \<open>TC_Match_Line\<close>: the reference, the line of crossing orders in
    priority and its fills. \<open>TC_Match_Step\<close>, \<open>TC_Match_Correct\<close>, \<open>TC_Liquidity\<close>, \<open>TC_Match_Engine\<close>: the
    engine computes the reference. \<open>TC_Match_Safety\<close>: what follows for trades and books.
  \<^item> \<open>TC_Book_Digest\<close> (\<open>book_digest.hpp\<close>), \<open>TC_Verifier\<close> (\<open>order_book_verifier.hpp\<close>), \<open>TC_Debug_Build\<close>
    (\<open>OrderBook::verify\<close> and the operations of a debug build).
  \<^item> \<open>TC_Endian\<close>, \<open>TC_Arena\<close>, \<open>TC_Book_Update\<close>, \<open>TC_Itch_Parser\<close>, \<open>TC_Moldudp\<close>: byte order, bump
    allocation, and the two decoders.
  \<^item> \<open>TC_Spsc\<close> (whole operations and the contract \<open>bounded_fifo\<close>), \<open>TC_Spsc_Threads\<close> (the two threads as
    interleaved steps), \<open>TC_Mpsc\<close>.
  \<^item> \<open>TC_Telemetry\<close>, \<open>TC_Replay\<close> (with the contract \<open>data_source\<close>), \<open>TC_Replay_Digest\<close> (determinism).
  \<^item> \<open>TC_Feed\<close>: decoder, parser, replay, matching and digest put together, against a fold over the
    orders of a packet.
  \<^item> \<open>TC_Huge_Page\<close>: every branch of \<open>memory/huge_page.hpp\<close> over the system calls.

  \<^bold>\<open>What is proved.\<close> The book refines its abstract specification: each dispatched update fails
  an assertion exactly when the abstract book has no step for it, and otherwise represents a book after
  such a step; nothing leaks, every level of the trees is balanced with its stored height exact and at
  most 18, and the cached best prices are right. Matching executes the line of the abstract book in price-time priority; trades are within the limit and conserve quantity; no run
  leaves a crossed book. The index, the trees and the pools meet their contracts. The decoders never
  read out of bounds on any input, and decoding inverts encoding. The single-producer queue
  is a lossless, ordered, race-free and wait-free channel under every interleaving and every stale
  load that acquire and release allow. Replays of the same messages end with the same digest,
  whatever the clocks and modes, and a packet of encoded orders, decoded, parsed, replayed and matched,
  ends exactly in the book and the digest that matching its orders on the abstract book gives. The error properties show where the code does not do what it
  intends: prices from 10000 on are refused, a fill-or-kill order can be filled in part, the parsed
  timestamp overlaps the order reference, the arena check wraps, and the verification of a debug build
  rejects every book.

  \<^bold>\<open>Bounds.\<close> Loops that follow links or the clock are \<open>partial_function (option)\<close> without fuel; that
  they end is part of the theorems. Pools have less than \<open>2 ^ 32\<close> slots (\<open>sizes_ok\<close>), queues a capacity
  of \<open>2 ^ c\<close> with \<open>c < 64\<close>, and histograms less than \<open>2 ^ 64\<close> values; these are the limits of the types.

  \<^bold>\<open>Not modelled.\<close> \<open>network/transport_concept.hpp\<close> is a concept nothing implements; \<open>common/compiler.hpp\<close>
  has hints without effect on values. System calls, the cycle counter and the clocks are parameters.
  \<open>check_order_uniqueness\<close> of the verifier does not compile as a whole; its declared part is
  \<open>check_levels\<close>, and \<open>verify\<close> takes the whole check as a parameter. \<open>UpdateType::ReplaceOrder\<close> and
  \<open>UpdateType::Unknown\<close> are not declared and are parameters, as is the parser call of the replay engine,
  which does not exist with the type it is used at. Cache alignment and padding, printing, and the
  memory orders beyond acquire and release have no counterpart. Benchmarks, tests and scripts only
  call the public operations.
\<close>

end
